(* ===== verification/Prelude.thy ===== *)
theory Prelude
  imports
    Complex_Main
    "HOL-Library.Multiset"
    "HOL-Library.Word"
    "HOL-Library.Char_ord"
    "HOL-Library.List_Lexorder"
    "HOL-Library.Product_Lexorder"
    "HOL-Library.Option_ord"
begin

text \<open>
  Shared vocabulary of the development: the machine types, the pieces of Rust's standard
  library the sources use (\<open>chunks\<close>, \<open>windows\<close>, sort-then-dedup, \<open>dedup_by_key\<close>,
  \<open>binary_search\<close>, checked and saturating addition, little-endian bytes), a reversed order
  for descending sort keys, and the generic lemmas on lists and words that several
  components use. Counts of type \<open>usize\<close> are natural numbers; \<open>u8\<close>, \<open>u32\<close>, \<open>u64\<close> and
  \<open>i64\<close> values are words of their width.
\<close>

unbundle bit_operations_syntax

section \<open>Machine types\<close>

type_synonym u8 = "8 word"
type_synonym u16 = "16 word"
type_synonym u32 = "32 word"
type_synonym u64 = "64 word"

named_theorems rust_simps \<open>simplification rules of the standard-library pieces\<close>
named_theorems wf_intros \<open>introduction rules for well-formedness facts\<close>

section \<open>Integers\<close>

definition u64_max :: u64 where
  "u64_max = -1"

definition checked_add64 :: "u64 \<Rightarrow> u64 \<Rightarrow> u64 option" where
  "checked_add64 a b = (if unat a + unat b < 2 ^ 64 then Some (a + b) else None)"

definition sat_add64 :: "u64 \<Rightarrow> u64 \<Rightarrow> u64" where
  "sat_add64 a b = (if unat a + unat b < 2 ^ 64 then a + b else u64_max)"

definition sat_mul64 :: "u64 \<Rightarrow> u64 \<Rightarrow> u64" where
  "sat_mul64 a b = (if unat a * unat b < 2 ^ 64 then a * b else u64_max)"

lemma unat64_lt: "unat (x :: u64) < 2 ^ 64"
  using unsigned_less [of x, where ?'a = nat] by simp

lemma unat8_lt: "unat (x :: u8) < 256"
  using unsigned_less [of x, where ?'a = nat] by simp

lemma unat_u64_max [simp]: "unat u64_max = 2 ^ 64 - 1"
  by (simp add: u64_max_def unsigned_minus_1_eq_mask mask_eq_exp_minus_1)

lemma u64_max_ge [simp]: "x \<le> u64_max"
  by (simp add: u64_max_def)

lemma unat_add64_no_wrap: "unat a + unat b < 2 ^ 64 \<Longrightarrow> unat (a + b :: u64) = unat a + unat b"
  by (simp add: unat_word_ariths)

lemma checked_add64_Some:
  "checked_add64 a b = Some c \<longleftrightarrow> unat a + unat b < 2 ^ 64 \<and> c = a + b"
  by (auto simp: checked_add64_def)

lemma checked_add64_None: "checked_add64 a b = None \<longleftrightarrow> 2 ^ 64 \<le> unat a + unat b"
  by (auto simp: checked_add64_def)

lemma unat_sat_add64: "unat (sat_add64 a b) = min (unat a + unat b) (2 ^ 64 - 1)"
  by (auto simp: sat_add64_def unat_add64_no_wrap)

lemma unat_sat_mul64: "unat (sat_mul64 a b) = min (unat a * unat b) (2 ^ 64 - 1)"
  by (auto simp: sat_mul64_def unat_word_ariths)

lemma sat_add64_ge: "a \<le> sat_add64 a b"
proof -
  show ?thesis using unat64_lt [of a] by (simp add: word_le_nat_alt unat_sat_add64)
qed

section \<open>Little-endian bytes\<close>

text \<open>\<open>to_le_bytes\<close> of a \<open>u64\<close>, and the \<open>(v >> (i * 8)) as u8\<close> loop of the hash functions.\<close>

definition le64 :: "u64 \<Rightarrow> u8 list" where
  "le64 v = map (\<lambda>i. ucast (drop_bit (8 * i) v)) [0..<8]"

definition of_le :: "u8 list \<Rightarrow> nat" where
  "of_le bs = foldr (\<lambda>b acc. unat b + 256 * acc) bs 0"

lemma length_le64 [simp]: "length (le64 v) = 8"
  by (simp add: le64_def)

lemma le64_unfold:
  "le64 v = [ucast v, ucast (drop_bit 8 v), ucast (drop_bit 16 v), ucast (drop_bit 24 v),
     ucast (drop_bit 32 v), ucast (drop_bit 40 v), ucast (drop_bit 48 v), ucast (drop_bit 56 v)]"
  by (simp add: le64_def upt_rec)

lemma nth_le64: "i < 8 \<Longrightarrow> le64 v ! i = ucast (drop_bit (8 * i) v)"
  by (simp add: le64_def)

lemma le64_inj: "le64 v = le64 w \<longleftrightarrow> v = w"
proof
  assume eq: "le64 v = le64 w"
  show "v = w"
  proof (rule bit_word_eqI)
    fix n assume n: "n < LENGTH(64)"
    have "le64 v ! (n div 8) = le64 w ! (n div 8)" by (simp add: eq)
    then have "ucast (drop_bit (8 * (n div 8)) v) = (ucast (drop_bit (8 * (n div 8)) w) :: u8)"
      using n by (simp add: nth_le64)
    then have "bit (ucast (drop_bit (8 * (n div 8)) v) :: u8) (n mod 8)
        = bit (ucast (drop_bit (8 * (n div 8)) w) :: u8) (n mod 8)" by simp
    then show "bit v n = bit w n"
      by (simp add: bit_ucast_iff bit_drop_bit_eq)
  qed
qed simp

lemma of_le_bound: "of_le bs < 256 ^ length bs"
proof (induction bs)
  case Nil
  then show ?case by (simp add: of_le_def)
next
  case (Cons b bs)
  note unat8_lt [of b]
  moreover have "of_le bs + 1 \<le> 256 ^ length bs" using Cons.IH by simp
  then have "256 * (of_le bs + 1) \<le> 256 * 256 ^ length bs" by (rule mult_le_mono2)
  ultimately show ?case by (simp add: of_le_def)
qed

section \<open>Bijective word mixing\<close>

lemma word_odd_mult_zero:
  fixes x a :: "'a::len word"
  assumes "odd a" and "x * a = 0"
  shows "x = 0"
proof -
  have "uint x * uint a mod 2 ^ LENGTH('a) = 0"
    using assms(2) by (metis uint_word_ariths(3) uint_0_eq)
  then have "2 ^ LENGTH('a) dvd uint x * uint a" by auto
  moreover have "odd (uint a)" using assms(1) by (simp add: bit_uint_iff flip: bit_0)
  then have "coprime (2 ^ LENGTH('a)) (uint a)" by simp
  ultimately have "2 ^ LENGTH('a) dvd uint x" by (simp add: coprime_dvd_mult_left_iff)
  then have "uint x mod 2 ^ LENGTH('a) = 0" by auto
  then have "uint x = 0" by (simp add: take_bit_int_eq_self flip: take_bit_eq_mod)
  then show ?thesis by (simp add: uint_0_iff)
qed

lemma word_odd_mult_inj:
  fixes x y a :: "'a::len word"
  assumes "odd a"
  shows "x * a = y * a \<longleftrightarrow> x = y"
proof
  assume "x * a = y * a"
  then have "(x - y) * a = 0" by (simp add: left_diff_distrib)
  with assms have "x - y = 0" by (rule word_odd_mult_zero)
  then show "x = y" by simp
qed simp

lemma word_xorshift_inj:
  fixes x y :: "'a::len word"
  assumes k: "0 < k" and eq: "x XOR drop_bit k x = y XOR drop_bit k y"
  shows "x = y"
proof (rule bit_word_eqI)
  have "bit x n = bit y n" for n
  proof (induction "LENGTH('a) - n" arbitrary: n rule: less_induct)
    case less
    show ?case
    proof (cases "n < LENGTH('a)")
      case True
      then have "bit x (n + k) = bit y (n + k)" using k by (intro less) simp
      moreover have "bit (x XOR drop_bit k x) n = bit (y XOR drop_bit k y) n"
        using eq by simp
      ultimately show ?thesis
        by (auto simp: bit_xor_iff bit_drop_bit_eq add.commute)
    next
      case False
      then show ?thesis by (auto dest: bit_imp_le_length)
    qed
  qed
  then show "\<And>n. n < LENGTH('a) \<Longrightarrow> bit x n = bit y n" by simp
qed

section \<open>Slices\<close>

text \<open>
  \<open>xs.chunks(r)\<close>. Rust panics for \<open>r = 0\<close>; every caller of the sources guards with
  \<open>r.max(1)\<close>, so that branch is never taken and is the empty list here.
\<close>

function chunks :: "nat \<Rightarrow> 'a list \<Rightarrow> 'a list list" where
  "chunks r xs = (if r = 0 \<or> xs = [] then [] else take r xs # chunks r (drop r xs))"
  by pat_completeness auto
termination
  by (relation "measure (\<lambda>(r, xs). length xs)") auto

declare chunks.simps [simp del]

lemma chunks_Nil [simp]: "chunks r [] = []"
  by (simp add: chunks.simps)

lemma chunks_step: "0 < r \<Longrightarrow> xs \<noteq> [] \<Longrightarrow> chunks r xs = take r xs # chunks r (drop r xs)"
  by (subst chunks.simps) simp

lemma length_chunks: "0 < r \<Longrightarrow> length xs = r * b \<Longrightarrow> length (chunks r xs) = b"
proof (induction b arbitrary: xs)
  case (Suc b)
  then have "xs \<noteq> []" by auto
  then have "length (chunks r xs) = Suc (length (chunks r (drop r xs)))"
    using Suc.prems(1) by (simp add: chunks_step)
  also have "length (chunks r (drop r xs)) = b" using Suc.prems by (intro Suc.IH) simp_all
  finally show ?case .
qed simp

text \<open>\<open>xs.windows(n)\<close>, every run of \<open>n\<close> neighbours (\<open>n\<close> is never 0 in the sources).\<close>

definition windows :: "nat \<Rightarrow> 'a list \<Rightarrow> 'a list list" where
  "windows n xs = map (\<lambda>i. take n (drop i xs)) [0..<length xs + 1 - n]"

lemma length_windows [simp]: "length (windows n xs) = length xs + 1 - n"
  by (simp add: windows_def)

text \<open>Positions where two lists agree and where they differ, as \<open>zip\<close> and \<open>filter\<close> count them.\<close>

definition agree :: "'a list \<Rightarrow> 'a list \<Rightarrow> nat" where
  "agree xs ys = length (filter (\<lambda>(a, b). a = b) (zip xs ys))"

definition differ :: "'a list \<Rightarrow> 'a list \<Rightarrow> nat" where
  "differ xs ys = length (filter (\<lambda>(a, b). a \<noteq> b) (zip xs ys))"

lemma agree_plus_differ: "agree xs ys + differ xs ys = min (length xs) (length ys)"
proof -
  have "filter (\<lambda>(a, b). a \<noteq> b) (zip xs ys) = filter (\<lambda>p. \<not> (\<lambda>(a, b). a = b) p) (zip xs ys)"
    by (rule arg_cong [where f = "\<lambda>P. filter P (zip xs ys)"]) auto
  then show ?thesis
    using sum_length_filter_compl [of "\<lambda>(a, b). a = b" "zip xs ys"]
    by (simp add: agree_def differ_def)
qed

lemma agree_Nil [simp]: "agree [] ys = 0" "agree xs [] = 0"
  by (simp_all add: agree_def)

lemma agree_Cons [simp]: "agree (x # xs) (y # ys) = (if x = y then 1 else 0) + agree xs ys"
  by (simp add: agree_def)

lemma agree_le: "agree xs ys \<le> length xs" "agree xs ys \<le> length ys"
  using agree_plus_differ [of xs ys] by simp_all

lemma agree_self [simp]: "agree xs xs = length xs"
  by (induction xs) auto

lemma agree_sym: "agree xs ys = agree ys xs"
  by (induction xs ys rule: list_induct2') auto

lemma agree_pos_nth: "0 < agree xs ys \<Longrightarrow> \<exists>i < min (length xs) (length ys). xs ! i = ys ! i"
proof (induction xs ys rule: list_induct2')
  case (4 x xs y ys)
  show ?case
  proof (cases "x = y")
    case True
    then show ?thesis by (intro exI [of _ 0]) simp
  next
    case False
    with 4 obtain i where "i < min (length xs) (length ys)" and "xs ! i = ys ! i" by auto
    then show ?thesis by (intro exI [of _ "Suc i"]) simp
  qed
qed auto

lemma differ_Nil [simp]: "differ [] ys = 0" "differ xs [] = 0"
  by (simp_all add: differ_def)

lemma differ_append:
  "length xs = length ys \<Longrightarrow> differ (xs @ xs') (ys @ ys') = differ xs ys + differ xs' ys'"
  by (simp add: differ_def)

lemma differ_pos: "length xs = length ys \<Longrightarrow> xs \<noteq> ys \<Longrightarrow> 0 < differ xs ys"
proof (induction xs ys rule: list_induct2)
  case (Cons x xs y ys)
  then show ?case by (cases "x = y") (auto simp: differ_def)
qed (simp add: differ_def)

text \<open>
  Pigeonhole over chunks: if two lists of one length differ in fewer positions than there are
  chunks, some chunk is the same in both.
\<close>

lemma chunks_all_differ:
  assumes "0 < r" and "length xs = length ys"
    and "\<And>k. k < length (chunks r xs) \<Longrightarrow> chunks r xs ! k \<noteq> chunks r ys ! k"
  shows "length (chunks r xs) \<le> differ xs ys"
  using assms
proof (induction r xs arbitrary: ys rule: chunks.induct)
  case (1 r xs)
  show ?case
  proof (cases "xs = []")
    case True
    then show ?thesis by simp
  next
    case False
    with "1.prems" have ys: "ys \<noteq> []" by auto
    have cx: "chunks r xs = take r xs # chunks r (drop r xs)"
      and cy: "chunks r ys = take r ys # chunks r (drop r ys)"
      using False ys "1.prems"(1) by (simp_all add: chunks_step)
    have "chunks r (drop r xs) ! k \<noteq> chunks r (drop r ys) ! k"
      if "k < length (chunks r (drop r xs))" for k
      using "1.prems"(3) [of "Suc k"] that by (simp add: cx cy)
    then have rest: "length (chunks r (drop r xs)) \<le> differ (drop r xs) (drop r ys)"
      using "1.IH" [of "drop r ys"] False "1.prems"(1,2) by simp
    have "take r xs \<noteq> take r ys" using "1.prems"(3) [of 0] by (simp add: cx cy)
    then have "0 < differ (take r xs) (take r ys)" using "1.prems"(2) by (intro differ_pos) simp_all
    moreover have "differ xs ys = differ (take r xs) (take r ys) + differ (drop r xs) (drop r ys)"
      using "1.prems"(2) differ_append [of "take r xs" "take r ys" "drop r xs" "drop r ys"] by simp
    ultimately show ?thesis using rest by (simp add: cx)
  qed
qed

lemma chunks_pigeonhole:
  assumes "0 < r" and "length xs = length ys" and "differ xs ys < length (chunks r xs)"
  shows "\<exists>k < length (chunks r xs). chunks r xs ! k = chunks r ys ! k"
  using chunks_all_differ [of r xs ys] assms by (meson not_less)

section \<open>Sorting and deduplication\<close>

lemma remdups_adj_distinct_sorted: "sorted xs \<Longrightarrow> distinct (remdups_adj (xs :: 'a::linorder list))"
  by (induction xs rule: remdups_adj.induct) (auto simp: less_le)

text \<open>\<open>v.sort_unstable(); v.dedup()\<close> (or \<open>sort(); dedup()\<close>) on values with a total order.\<close>

definition sort_dedup :: "'a::linorder list \<Rightarrow> 'a list" where
  "sort_dedup xs = remdups_adj (sort xs)"

lemma set_sort_dedup [simp]: "set (sort_dedup xs) = set xs"
  by (simp add: sort_dedup_def)

lemma sorted_sort_dedup [wf_intros, simp]: "sorted (sort_dedup xs)"
  by (simp add: sort_dedup_def)

lemma distinct_sort_dedup [wf_intros, simp]: "distinct (sort_dedup xs)"
  by (simp add: sort_dedup_def remdups_adj_distinct_sorted)

lemma sort_dedup_eq: "sort_dedup xs = sorted_list_of_set (set xs)"
  by (simp add: sorted_distinct_set_unique)

lemma sort_dedup_cong: "set xs = set ys \<Longrightarrow> sort_dedup xs = sort_dedup ys"
  by (simp add: sort_dedup_eq)

lemma sort_dedup_Nil [simp]: "sort_dedup [] = []"
  by (simp add: sort_dedup_def)

lemma sort_dedup_eq_Nil [simp]: "sort_dedup xs = [] \<longleftrightarrow> xs = []"
  by (metis set_empty set_sort_dedup)

lemma length_sort_dedup: "length (sort_dedup xs) \<le> length xs"
  by (metis distinct_card distinct_sort_dedup set_sort_dedup card_length)

text \<open>\<open>v.dedup_by_key(f)\<close>: of a run of neighbours with one key only the first is kept.\<close>

fun dedup_by :: "('a \<Rightarrow> 'k) \<Rightarrow> 'a list \<Rightarrow> 'a list" where
  "dedup_by f [] = []"
| "dedup_by f [x] = [x]"
| "dedup_by f (x # y # ys) =
     (if f x = f y then dedup_by f (x # ys) else x # dedup_by f (y # ys))"

lemma map_dedup_by: "map f (dedup_by f xs) = remdups_adj (map f xs)"
  by (induction f xs rule: dedup_by.induct) auto

lemma set_dedup_by: "set (dedup_by f xs) \<subseteq> set xs"
  by (induction f xs rule: dedup_by.induct) auto

lemma length_dedup_by: "length (dedup_by f xs) \<le> length xs"
  by (induction f xs rule: dedup_by.induct) auto

lemma sorted_dedup_by: "sorted (map f xs) \<Longrightarrow> sorted (map f (dedup_by f xs))"
  by (simp add: map_dedup_by)

lemma distinct_dedup_by: "sorted (map f xs) \<Longrightarrow> distinct (map f (dedup_by f xs))"
  by (simp add: map_dedup_by remdups_adj_distinct_sorted)

lemma keys_dedup_by: "f ` set (dedup_by f xs) = f ` set xs"
  by (metis list.set_map map_dedup_by remdups_adj_set)

text \<open>The survivor of a key is the first element of the list that has it.\<close>

lemma dedup_by_first:
  assumes "sorted (map f xs)" and "x \<in> set (dedup_by f xs)"
  shows "\<exists>us vs. xs = us @ x # vs \<and> f x \<notin> f ` set us"
  using assms
proof (induction f xs rule: dedup_by.induct)
  case (2 f x')
  then have "[x'] = [] @ x # [] \<and> f x \<notin> f ` set []" by simp
  then show ?case by blast
next
  case (3 f a b ys)
  show ?case
  proof (cases "f a = f b")
    case True
    with 3 obtain us vs where "a # ys = us @ x # vs" and "f x \<notin> f ` set us" by auto
    then show ?thesis
    proof (cases us)
      case Nil
      with \<open>a # ys = us @ x # vs\<close> show ?thesis by (rule_tac x = "[]" in exI) auto
    next
      case (Cons u us')
      with \<open>a # ys = us @ x # vs\<close> \<open>f x \<notin> f ` set us\<close> True show ?thesis
        by (rule_tac x = "a # b # us'" in exI) auto
    qed
  next
    case False
    show ?thesis
    proof (cases "x = a")
      case True
      then show ?thesis by (rule_tac x = "[]" in exI) auto
    next
      case ne: False
      with 3 False obtain us vs where us: "b # ys = us @ x # vs" "f x \<notin> f ` set us" by auto
      have "f a < f b" using "3.prems"(1) False by (auto simp: less_le)
      moreover have "f b \<le> f x" using "3.prems"(1) us(1) by (cases us) auto
      ultimately have "f x \<noteq> f a" by auto
      with us show ?thesis by (rule_tac x = "a # us" in exI) auto
    qed
  qed
qed simp

section \<open>Binary search\<close>

text \<open>
  \<open>slice::binary_search\<close> as the standard library writes it: the window halves until one slot
  is left, and that slot is compared. On an unsorted slice the outcome is unspecified by the
  library; the definition then returns what this loop computes.
\<close>

function bsearch_go :: "'a::linorder list \<Rightarrow> 'a \<Rightarrow> nat \<Rightarrow> nat \<Rightarrow> nat" where
  "bsearch_go xs y base sz =
     (if sz \<le> 1 then base
      else let half = sz div 2; mid = base + half
           in bsearch_go xs y (if y < xs ! mid then base else mid) (sz - half))"
  by pat_completeness auto
termination
  by (relation "measure (\<lambda>(xs, y, base, sz). sz)") auto

declare bsearch_go.simps [simp del]

definition binary_search :: "'a::linorder list \<Rightarrow> 'a \<Rightarrow> bool" where
  "binary_search xs y \<longleftrightarrow> xs \<noteq> [] \<and> xs ! bsearch_go xs y 0 (length xs) = y"

lemma bsearch_go_sorted:
  assumes "sorted xs" and "0 < sz" and "base + sz \<le> length xs"
    and "\<And>i. base + sz \<le> i \<Longrightarrow> i < length xs \<Longrightarrow> y < xs ! i"
    and "base = 0 \<or> xs ! base \<le> y"
  shows "let b = bsearch_go xs y base sz in
    b < length xs \<and> (\<forall>i. b < i \<longrightarrow> i < length xs \<longrightarrow> y < xs ! i) \<and> (b = 0 \<or> xs ! b \<le> y)"
  using assms
proof (induction xs y base sz rule: bsearch_go.induct)
  case (1 xs y base sz)
  show ?case
  proof (cases "sz \<le> 1")
    case True
    with "1.prems" show ?thesis by (subst bsearch_go.simps) (auto simp: Let_def)
  next
    case False
    define mid where "mid = base + sz div 2"
    define base' where "base' = (if y < xs ! mid then base else mid)"
    have mid: "mid < base + sz" "mid < length xs" using False "1.prems" by (auto simp: mid_def)
    have above: "y < xs ! i" if "base' + (sz - sz div 2) \<le> i" "i < length xs" for i
    proof (cases "y < xs ! mid")
      case True
      then have "mid \<le> i" using that by (auto simp: base'_def mid_def)
      then have "xs ! mid \<le> xs ! i" using "1.prems"(1) that by (simp add: sorted_iff_nth_mono)
      with True show ?thesis by simp
    next
      case False
      then have "base + sz \<le> i" using that by (auto simp: base'_def mid_def)
      then show ?thesis using "1.prems"(4) that by simp
    qed
    have "let b = bsearch_go xs y base' (sz - sz div 2) in
        b < length xs \<and> (\<forall>i. b < i \<longrightarrow> i < length xs \<longrightarrow> y < xs ! i) \<and> (b = 0 \<or> xs ! b \<le> y)"
    proof (rule "1.IH" [OF False refl mid_def, folded base'_def])
      show "base' + (sz - sz div 2) \<le> length xs"
        using "1.prems"(3) False by (auto simp: base'_def mid_def)
      show "0 < sz - sz div 2" using False by simp
      show "base' = 0 \<or> xs ! base' \<le> y" using "1.prems"(5) by (auto simp: base'_def)
    qed (fact "1.prems"(1), fact above)
    moreover have "bsearch_go xs y base sz = bsearch_go xs y base' (sz - sz div 2)"
      using False by (subst bsearch_go.simps) (simp add: base'_def mid_def Let_def)
    ultimately show ?thesis by simp
  qed
qed

lemma binary_search_sorted [rust_simps]:
  assumes "sorted xs"
  shows "binary_search xs y \<longleftrightarrow> y \<in> set xs"
proof (cases "xs = []")
  case False
  define b where "b = bsearch_go xs y 0 (length xs)"
  have b: "b < length xs" "\<And>i. b < i \<Longrightarrow> i < length xs \<Longrightarrow> y < xs ! i" "b = 0 \<or> xs ! b \<le> y"
    using bsearch_go_sorted [OF assms, of "length xs" 0 y] False by (auto simp: Let_def b_def)
  have "y = xs ! b" if "y \<in> set xs"
  proof -
    from that obtain i where i: "i < length xs" "xs ! i = y" by (auto simp: in_set_conv_nth)
    with b(2) have "i \<le> b" by (metis less_irrefl not_less)
    then show ?thesis
    proof (cases "b = 0")
      case False
      have "xs ! i \<le> xs ! b" using assms \<open>i \<le> b\<close> b(1) by (simp add: sorted_iff_nth_mono)
      with b(3) False i show ?thesis by simp
    qed (use i in simp)
  qed
  with b(1) False show ?thesis
    unfolding binary_search_def b_def [symmetric] by (metis nth_mem)
qed (simp add: binary_search_def)

section \<open>Descending keys\<close>

text \<open>A wrapper that reverses a total order, for \<open>b.x.cmp(&a.x)\<close> in a comparator.\<close>

datatype 'a desc = Desc (undesc: 'a)

instantiation desc :: (linorder) linorder
begin

definition less_eq_desc :: "'a desc \<Rightarrow> 'a desc \<Rightarrow> bool" where
  "less_eq_desc a b \<longleftrightarrow> undesc b \<le> undesc a"

definition less_desc :: "'a desc \<Rightarrow> 'a desc \<Rightarrow> bool" where
  "less_desc a b \<longleftrightarrow> undesc b < undesc a"

instance
  by standard (auto simp: less_eq_desc_def less_desc_def desc.expand)

end

lemma Desc_le [simp]: "Desc a \<le> Desc b \<longleftrightarrow> b \<le> a"
  by (simp add: less_eq_desc_def)

lemma Desc_less [simp]: "Desc a < Desc b \<longleftrightarrow> b < a"
  by (simp add: less_desc_def)

text \<open>A stable sort by an injective key does not depend on the order of its input.\<close>

lemma sort_key_unique:
  assumes "mset xs = mset ys" and "inj_on k (set xs)"
  shows "sort_key k xs = sort_key k ys"
proof (rule properties_for_sort_key)
  fix x assume "x \<in> set (sort_key k ys)"
  show "filter (\<lambda>y. k x = k y) (sort_key k ys) = filter (\<lambda>y. k x = k y) xs"
  proof -
    have x: "x \<in> set xs" using \<open>x \<in> _\<close> assms(1) by (metis set_mset_mset set_sort)
    have eq: "filter (\<lambda>y. k x = k y) zs = replicate (count (mset zs) x) x"
      if "mset zs = mset xs" for zs
    proof -
      have "set zs = set xs" using that by (rule mset_eq_setD)
      then have "filter (\<lambda>y. k x = k y) zs = filter (\<lambda>y. x = y) zs"
        using assms(2) x by (intro filter_cong) (auto dest: inj_onD)
      then show ?thesis by (simp add: count_mset count_list_eq_length_filter replicate_length_filter)
    qed
    show ?thesis using eq [of xs] eq [of "sort_key k ys"] assms(1) by simp
  qed
qed (use assms in auto)

section \<open>Maps collected from an iterator\<close>

text \<open>\<open>iter.collect::<HashMap<_, _>>()\<close>: a later pair overwrites an earlier one.\<close>

definition collect_map :: "('k \<times> 'v) list \<Rightarrow> 'k \<rightharpoonup> 'v" where
  "collect_map kvs = map_of (rev kvs)"

lemma collect_map_SomeD: "collect_map kvs k = Some v \<Longrightarrow> (k, v) \<in> set kvs"
  by (auto simp: collect_map_def dest: map_of_SomeD)

lemma collect_map_distinct:
  "distinct (map fst kvs) \<Longrightarrow> collect_map kvs k = Some v \<longleftrightarrow> (k, v) \<in> set kvs"
  by (simp add: collect_map_def rev_map [symmetric] map_of_eq_Some_iff)

lemma dom_collect_map: "dom (collect_map kvs) = fst ` set kvs"
  by (simp add: collect_map_def dom_map_of_conv_image_fst)
section \<open>Fallible code\<close>

text \<open>\<open>Result<T, E>\<close> is \<open>E + T\<close>; \<open>?\<close> is \<open>bindR\<close>, and a loop of fallible steps is \<open>mapR\<close>.\<close>

definition bindR :: "'e + 'a \<Rightarrow> ('a \<Rightarrow> 'e + 'b) \<Rightarrow> 'e + 'b" where
  "bindR m f = (case m of Inl e \<Rightarrow> Inl e | Inr x \<Rightarrow> f x)"

lemma bindR_simps [simp]: "bindR (Inl e) f = Inl e" "bindR (Inr x) f = f x"
  by (simp_all add: bindR_def)

lemma bindR_Inr: "bindR m f = Inr y \<longleftrightarrow> (\<exists>x. m = Inr x \<and> f x = Inr y)"
  by (cases m) simp_all

lemma bindR_cong [fundef_cong]: "m = m' \<Longrightarrow> (\<And>x. m' = Inr x \<Longrightarrow> f x = f' x) \<Longrightarrow> bindR m f = bindR m' f'"
  by (cases m) auto

fun mapR :: "('a \<Rightarrow> 'e + 'b) \<Rightarrow> 'a list \<Rightarrow> 'e + 'b list" where
  "mapR f [] = Inr []"
| "mapR f (x # xs) = bindR (f x) (\<lambda>y. bindR (mapR f xs) (\<lambda>ys. Inr (y # ys)))"

lemma mapR_Inr: "mapR f xs = Inr ys \<longleftrightarrow> list_all2 (\<lambda>x y. f x = Inr y) xs ys"
  by (induction xs arbitrary: ys) (auto simp: bindR_Inr list_all2_Cons1)

lemma mapR_Inr_set: "mapR f xs = Inr ys \<Longrightarrow> y \<in> set ys \<longleftrightarrow> (\<exists>x \<in> set xs. f x = Inr y)"
proof (induction xs arbitrary: ys)
  case (Cons x xs)
  then obtain z zs where "f x = Inr z" "mapR f xs = Inr zs" "ys = z # zs" by (auto simp: bindR_Inr)
  with Cons.IH [of zs] show ?case by auto
qed simp

lemma mapR_Inr_total: "mapR f xs = Inr ys \<Longrightarrow> x \<in> set xs \<Longrightarrow> \<exists>y. f x = Inr y"
  by (induction xs arbitrary: ys) (auto simp: bindR_Inr)

lemma mapR_map: "(\<And>x. x \<in> set xs \<Longrightarrow> f x = Inr (g x)) \<Longrightarrow> mapR f xs = Inr (map g xs)"
  by (induction xs) simp_all

section \<open>Strings\<close>

text \<open>
  \<open>str::from_utf8\<close>: a byte string is UTF-8 when it is a sequence of the well-formed byte
  sequences of the Unicode standard (no overlong forms, no surrogates, at most U+10FFFF).
\<close>

definition utf8_cont :: "nat \<Rightarrow> bool" where
  "utf8_cont b \<longleftrightarrow> 0x80 \<le> b \<and> b \<le> 0xBF"

fun utf8_ok :: "nat list \<Rightarrow> bool" where
  "utf8_ok [] = True"
| "utf8_ok (a # xs) =
     (if a < 0x80 then utf8_ok xs
      else if 0xC2 \<le> a \<and> a \<le> 0xDF then
        (case xs of b # ys \<Rightarrow> utf8_cont b \<and> utf8_ok ys | _ \<Rightarrow> False)
      else if 0xE0 \<le> a \<and> a \<le> 0xEF then
        (case xs of b # c # ys \<Rightarrow> utf8_cont b \<and> utf8_cont c \<and> (a = 0xE0 \<longrightarrow> 0xA0 \<le> b)
             \<and> (a = 0xED \<longrightarrow> b \<le> 0x9F) \<and> utf8_ok ys
         | _ \<Rightarrow> False)
      else if 0xF0 \<le> a \<and> a \<le> 0xF4 then
        (case xs of b # c # d # ys \<Rightarrow> utf8_cont b \<and> utf8_cont c \<and> utf8_cont d
             \<and> (a = 0xF0 \<longrightarrow> 0x90 \<le> b) \<and> (a = 0xF4 \<longrightarrow> b \<le> 0x8F) \<and> utf8_ok ys
         | _ \<Rightarrow> False)
      else False)"

definition utf8_valid :: "string \<Rightarrow> bool" where
  "utf8_valid s = utf8_ok (map of_char s)"

text \<open>Decimal digits of a natural number, as \<open>Display\<close> prints an unsigned integer.\<close>

fun dec_nat :: "nat \<Rightarrow> string" where
  "dec_nat n = (if n < 10 then [char_of (48 + n)] else dec_nat (n div 10) @ [char_of (48 + n mod 10)])"

declare dec_nat.simps [simp del]

text \<open>\<open>enumerate()\<close>.\<close>

definition enumerated :: "'a list \<Rightarrow> (nat \<times> 'a) list" where
  "enumerated xs = zip [0..<length xs] xs"

lemma set_enumerated: "set (enumerated xs) = {(i, xs ! i) | i. i < length xs}"
  by (force simp: enumerated_def set_zip)

lemma length_enumerated [simp]: "length (enumerated xs) = length xs"
  by (simp add: enumerated_def)

lemma nth_enumerated [simp]: "i < length xs \<Longrightarrow> enumerated xs ! i = (i, xs ! i)"
  by (simp add: enumerated_def)

lemma enumerated_snoc: "enumerated (xs @ [x]) = enumerated xs @ [(length xs, x)]"
  by (simp add: enumerated_def)

text \<open>\<open>map.entry(k).or_default().push(v)\<close> over a sequence of pairs: a multimap.\<close>

definition push_at :: "('k \<rightharpoonup> 'v list) \<Rightarrow> 'k \<times> 'v \<Rightarrow> ('k \<rightharpoonup> 'v list)" where
  "push_at m kv = m(fst kv \<mapsto> (case m (fst kv) of None \<Rightarrow> [] | Some vs \<Rightarrow> vs) @ [snd kv])"

definition multimap :: "('k \<times> 'v) list \<Rightarrow> ('k \<rightharpoonup> 'v list)" where
  "multimap kvs = foldl push_at Map.empty kvs"

definition lookup_all :: "('k \<rightharpoonup> 'v list) \<Rightarrow> 'k \<Rightarrow> 'v list" where
  "lookup_all m k = (case m k of None \<Rightarrow> [] | Some vs \<Rightarrow> vs)"

lemma lookup_all_multimap: "lookup_all (multimap kvs) k = map snd (filter (\<lambda>kv. fst kv = k) kvs)"
proof (induction kvs rule: rev_induct)
  case (snoc kv kvs)
  then show ?case
    by (auto simp: multimap_def push_at_def lookup_all_def split: option.splits if_splits)
qed (simp add: multimap_def lookup_all_def)

lemma set_lookup_multimap: "set (lookup_all (multimap kvs) k) = {v. (k, v) \<in> set kvs}"
  by (force simp: lookup_all_multimap)

text \<open>A hit of the binary search is an element, sorted slice or not.\<close>

lemma bsearch_go_bound: "0 < sz \<Longrightarrow> bsearch_go xs y base sz < base + sz"
proof (induction xs y base sz rule: bsearch_go.induct)
  case (1 xs y base sz)
  show ?case
  proof (cases "sz \<le> 1")
    case True
    then show ?thesis using 1 by (subst bsearch_go.simps) simp
  next
    case False
    define base' where "base' = (if y < xs ! (base + sz div 2) then base else base + sz div 2)"
    have "bsearch_go xs y base' (sz - sz div 2) < base' + (sz - sz div 2)"
      unfolding base'_def by (rule "1.IH" [OF False refl refl]) (use False in simp)
    moreover have "base' + (sz - sz div 2) \<le> base + sz" by (simp add: base'_def)
    moreover have "bsearch_go xs y base sz = bsearch_go xs y base' (sz - sz div 2)"
      using False by (subst bsearch_go.simps) (simp add: base'_def Let_def)
    ultimately show ?thesis by simp
  qed
qed

lemma binary_search_sound: "binary_search xs y \<Longrightarrow> y \<in> set xs"
  using bsearch_go_bound [of "length xs" xs y 0] unfolding binary_search_def
  by (metis add_0 length_greater_0_conv nth_mem)

text \<open>\<open>format!("{:#x}", n)\<close>.\<close>

definition hex_digit :: "nat \<Rightarrow> char" where
  "hex_digit d = char_of (if d < 10 then 48 + d else 87 + d)"

fun hex_digits :: "nat \<Rightarrow> string" where
  "hex_digits n = (if n < 16 then [hex_digit n] else hex_digits (n div 16) @ [hex_digit (n mod 16)])"

declare hex_digits.simps [simp del]

definition hex_u64 :: "u64 \<Rightarrow> string" where
  "hex_u64 v = ''0x'' @ hex_digits (unat v)"

end
