(* ===== verification/F64.thy ===== *)
theory F64
  imports Prelude "HOL-Library.Log_Nat"
begin

text \<open>
  IEEE 754 binary floating point, as far as the sources compute with \<open>f64\<close> (similarities, scores,
  margins) and \<open>f32\<close> (coverage): values are exact rationals, infinities and NaN, every operation
  rounds its exact result to the format, ties to even. The sign of zero is not represented: the
  sources never divide by a negative zero and print no sign of zero that a comparison could see.
  The sign of a NaN is not represented either; \<open>total_cmp\<close> puts the (positive) NaN last.
\<close>

section \<open>Rounding\<close>

record ffmt =
  prec :: nat
  emin :: int
  emax :: int

definition binary64 :: ffmt where
  "binary64 = \<lparr>prec = 53, emin = -1074, emax = 1024\<rparr>"

definition binary32 :: ffmt where
  "binary32 = \<lparr>prec = 24, emin = -149, emax = 128\<rparr>"

text \<open>The binary exponent of a positive rational.\<close>

definition expo :: "rat \<Rightarrow> int" where
  "expo x = (let (p, q) = quotient_of x; e = bitlen p - bitlen q
             in if 2 powi e \<le> x then e else e - 1)"

definition round_even :: "rat \<Rightarrow> int" where
  "round_even y = (let f = \<lfloor>y\<rfloor>; d = y - of_int f in
     if d < 1 / 2 then f else if 1 / 2 < d then f + 1 else if even f then f else f + 1)"

definition ulp_exp :: "ffmt \<Rightarrow> rat \<Rightarrow> int" where
  "ulp_exp F x = max (expo x - int (prec F) + 1) (emin F)"

definition rnd :: "ffmt \<Rightarrow> rat \<Rightarrow> rat" where
  "rnd F x = (if x = 0 then 0
     else let u = 2 powi ulp_exp F \<bar>x\<bar> in of_int (round_even (x / u)) * u)"

text \<open>The numbers of a format: an integer of at most \<open>prec\<close> bits times a power of two.\<close>

definition repr :: "ffmt \<Rightarrow> rat \<Rightarrow> bool" where
  "repr F x \<longleftrightarrow> (\<exists>m e. x = of_int m * 2 powi e \<and> \<bar>m\<bar> \<le> 2 ^ prec F \<and> emin F \<le> e)"

lemma expo_spec:
  assumes "0 < x"
  shows "2 powi expo x \<le> x" and "x < 2 powi (expo x + 1)"
proof -
  obtain p q where pq: "quotient_of x = (p, q)" by (cases "quotient_of x")
  have q: "0 < q" using pq by (rule quotient_of_denom_pos)
  have x: "x = of_int p / of_int q" using pq by (rule quotient_of_div)
  have p: "0 < p" using assms q x by (simp add: zero_less_divide_iff)
  define a where "a = bitlen p - 1"
  define b where "b = bitlen q - 1"
  have a0: "0 \<le> a" "0 \<le> b" using p q by (simp_all add: a_def b_def bitlen_def floorlog_def)
  have bp: "2 ^ nat a \<le> p" "p < 2 ^ nat (a + 1)" using bitlen_bounds [OF p] by (simp_all add: a_def)
  have bq: "2 ^ nat b \<le> q" "q < 2 ^ nat (b + 1)" using bitlen_bounds [OF q] by (simp_all add: b_def)
  have P: "(2::rat) powi a \<le> of_int p" "of_int p < (2::rat) powi (a + 1)"
    using bp a0 of_int_le_iff [where ?'a = rat, of "2 ^ nat a" p]
      of_int_less_iff [where ?'a = rat, of p "2 ^ nat (a + 1)"]
    by (simp_all add: power_int_def)
  have Q: "(2::rat) powi b \<le> of_int q" "of_int q < (2::rat) powi (b + 1)"
    using bq a0 of_int_le_iff [where ?'a = rat, of "2 ^ nat b" q]
      of_int_less_iff [where ?'a = rat, of q "2 ^ nat (b + 1)"]
    by (simp_all add: power_int_def)
  have up: "x < 2 powi (a - b + 1)"
  proof -
    have "x \<le> of_int p / 2 powi b" unfolding x using Q(1) p q by (intro divide_left_mono) simp_all
    also have "\<dots> < 2 powi (a + 1) / 2 powi b" using P(2) by (intro divide_strict_right_mono) simp_all
    also have "\<dots> = 2 powi (a - b + 1)" by (simp add: power_int_diff [symmetric] algebra_simps)
    finally show ?thesis .
  qed
  have lo: "2 powi (a - b - 1) \<le> x"
  proof -
    have "2 powi (a - b - 1) = (2::rat) powi a / 2 powi (b + 1)"
      by (simp add: power_int_diff [symmetric] algebra_simps)
    also have "\<dots> \<le> of_int p / 2 powi (b + 1)" using P(1) by (intro divide_right_mono) simp_all
    also have "\<dots> \<le> x" unfolding x using Q(2) p q by (intro divide_left_mono) simp_all
    finally show ?thesis .
  qed
  have e: "expo x = (if 2 powi (a - b) \<le> x then a - b else a - b - 1)"
    by (simp add: expo_def pq a_def b_def)
  show "2 powi expo x \<le> x" and "x < 2 powi (expo x + 1)"
    using up lo e by (auto split: if_splits)
qed

lemma expo_less:
  assumes "0 < x" and "x < 2 powi k"
  shows "expo x < k"
proof -
  have "(2::rat) powi expo x < 2 powi k" using expo_spec(1) [OF assms(1)] assms(2) by simp
  then show ?thesis by (metis linorder_not_less power_int_increasing one_le_numeral)
qed

lemma expo_ge:
  assumes "0 < x" and "2 powi k \<le> x"
  shows "k \<le> expo x"
proof -
  have "(2::rat) powi k < 2 powi (expo x + 1)" using expo_spec(2) [OF assms(1)] assms(2) by simp
  then have "k < expo x + 1" by (metis linorder_not_less power_int_increasing one_le_numeral)
  then show ?thesis by simp
qed

lemma expo_mono: "0 < x \<Longrightarrow> x \<le> y \<Longrightarrow> expo x \<le> expo y"
  using expo_spec(1) [of x] by (intro expo_ge) auto

lemma round_even_bounds: "of_int m \<le> y \<Longrightarrow> m \<le> round_even y" "y \<le> of_int m \<Longrightarrow> round_even y \<le> m"
proof -
  show "of_int m \<le> y \<Longrightarrow> m \<le> round_even y"
    using le_floor_iff [of m y] by (auto simp: round_even_def Let_def)
next
  assume y: "y \<le> of_int m"
  show "round_even y \<le> m"
  proof (cases "y = of_int m")
    case True
    then show ?thesis by (simp add: round_even_def Let_def)
  next
    case False
    with y have "y < of_int m" by simp
    then have "\<lfloor>y\<rfloor> < m" by (simp add: floor_less_iff)
    then show ?thesis by (auto simp: round_even_def Let_def)
  qed
qed

lemma round_even_of_int [simp]: "round_even (of_int m) = m"
  by (simp add: round_even_def)

lemma round_even_mono: "x \<le> y \<Longrightarrow> round_even x \<le> round_even y"
proof -
  assume xy: "x \<le> y"
  show ?thesis
  proof (cases "\<lfloor>x\<rfloor> = \<lfloor>y\<rfloor>")
    case True
    then show ?thesis using xy by (auto simp: round_even_def Let_def)
  next
    case False
    with xy have "\<lfloor>x\<rfloor> < \<lfloor>y\<rfloor>" using floor_mono [OF xy] by simp
    then have "\<lfloor>x\<rfloor> + 1 \<le> \<lfloor>y\<rfloor>" by simp
    moreover have "round_even x \<le> \<lfloor>x\<rfloor> + 1" by (auto simp: round_even_def Let_def)
    moreover have "\<lfloor>y\<rfloor> \<le> round_even y" by (auto simp: round_even_def Let_def)
    ultimately show ?thesis by simp
  qed
qed

lemma round_even_minus: "round_even (- y) = - round_even y"
proof (cases "y = of_int \<lfloor>y\<rfloor>")
  case True
  then have "round_even (- y) = round_even (of_int (- \<lfloor>y\<rfloor>))" by simp
  also have "\<dots> = - \<lfloor>y\<rfloor>" by (rule round_even_of_int)
  also have "\<lfloor>y\<rfloor> = round_even y" using True by (metis round_even_of_int)
  finally show ?thesis .
next
  case False
  have "\<lfloor>- y\<rfloor> = - \<lfloor>y\<rfloor> - 1"
  proof (rule floor_unique)
    show "of_int (- \<lfloor>y\<rfloor> - 1) \<le> - y" using floor_correct [of y] by simp
    show "- y < of_int (- \<lfloor>y\<rfloor> - 1) + 1" using False of_int_floor_le [of y] by (simp add: less_le)
  qed
  then show ?thesis by (auto simp: round_even_def Let_def)
qed

lemma rnd_0 [simp]: "rnd F 0 = 0"
  by (simp add: rnd_def)

lemma rnd_minus: "rnd F (- x) = - rnd F x"
  by (simp add: rnd_def Let_def round_even_minus)

lemma rnd_repr: "repr F (rnd F x)"
proof (cases "x = 0")
  case True
  have "rnd F x = of_int 0 * 2 powi emin F" using True by simp
  moreover have "\<bar>0::int\<bar> \<le> 2 ^ prec F" by simp
  ultimately show ?thesis unfolding repr_def by blast
next
  case False
  define e where "e = ulp_exp F \<bar>x\<bar>"
  define m where "m = round_even (x / 2 powi e)"
  have le: "expo \<bar>x\<bar> + 1 \<le> int (prec F) + e" and emin: "emin F \<le> e"
    unfolding e_def ulp_exp_def by simp_all
  have "\<bar>x\<bar> < 2 powi (expo \<bar>x\<bar> + 1)" using False by (intro expo_spec) simp
  also have "\<dots> \<le> 2 powi (int (prec F) + e)" using le by (rule power_int_increasing) simp
  finally have x: "\<bar>x\<bar> \<le> 2 ^ prec F * 2 powi e" by (simp add: power_int_add)
  then have "x / 2 powi e \<le> of_int (2 ^ prec F)" and "of_int (- (2 ^ prec F)) \<le> x / 2 powi e"
    by (auto simp: divide_le_eq le_divide_eq abs_le_iff)
  then have "m \<le> 2 ^ prec F" and "- (2 ^ prec F) \<le> m"
    unfolding m_def by (blast intro: round_even_bounds)+
  then have "\<bar>m\<bar> \<le> 2 ^ prec F" by simp
  moreover have "rnd F x = of_int m * 2 powi e" using False by (simp add: rnd_def m_def e_def Let_def)
  ultimately show ?thesis
    unfolding repr_def using emin by blast
qed

lemma rnd_of_repr:
  assumes "repr F x" and pos: "0 < prec F"
  shows "rnd F x = x"
proof (cases "x = 0")
  case False
  obtain m e where x: "x = of_int m * 2 powi e" and m: "\<bar>m\<bar> \<le> 2 ^ prec F" and e: "emin F \<le> e"
    using assms by (auto simp: repr_def)
  define u where "u = ulp_exp F \<bar>x\<bar>"
  have ax: "\<bar>x\<bar> = of_int \<bar>m\<bar> * 2 powi e" by (simp add: x abs_mult)
  have am: "(of_int \<bar>m\<bar> :: rat) \<le> 2 ^ prec F" using m by (metis of_int_le_iff of_int_numeral of_int_power)
  have "\<exists>k. x = of_int k * 2 powi u"
  proof (cases "u \<le> e")
    case True
    have "(2::rat) powi e = 2 powi (int (nat (e - u)) + u)" using True by simp
    also have "\<dots> = of_int (2 ^ nat (e - u)) * 2 powi u"
      by (subst power_int_add) (simp_all only: power_int_of_nat of_int_power of_int_numeral, simp)
    finally have "x = of_int (m * 2 ^ nat (e - u)) * 2 powi u" by (simp add: x)
    then show ?thesis by blast
  next
    case lt: False
    then have u: "u = expo \<bar>x\<bar> - int (prec F) + 1"
      using e by (auto simp: u_def ulp_exp_def max_def split: if_splits)
    have ge: "2 powi (int (prec F) + e) \<le> \<bar>x\<bar>"
    proof -
      have "(2::rat) powi (int (prec F) + e) \<le> 2 powi expo \<bar>x\<bar>"
        using lt u by (intro power_int_increasing) auto
      also have "\<dots> \<le> \<bar>x\<bar>" using False by (intro expo_spec) simp
      finally show ?thesis .
    qed
    moreover have "\<bar>x\<bar> \<le> 2 powi (int (prec F) + e)"
      unfolding ax using am by (simp add: power_int_add)
    ultimately have eq: "\<bar>x\<bar> = 2 powi (int (prec F) + e)" by simp
    have "expo \<bar>x\<bar> < int (prec F) + e + 1"
      using False eq by (intro expo_less) (simp_all add: power_int_strict_increasing)
    with u lt have u1: "u = e + 1" by auto
    have "(2::rat) powi (int (prec F) + e) = 2 powi (int (prec F - 1) + u)"
      using pos by (simp add: u1 of_nat_diff)
    also have "\<dots> = of_int (2 ^ (prec F - 1)) * 2 powi u"
      by (subst power_int_add) (simp_all only: power_int_of_nat of_int_power of_int_numeral, simp)
    finally have ax2: "\<bar>x\<bar> = of_int (2 ^ (prec F - 1)) * 2 powi u" using eq by simp
    have "x = of_int (if 0 \<le> x then 2 ^ (prec F - 1) else - (2 ^ (prec F - 1))) * 2 powi u"
      using ax2 by (cases "0 \<le> x") simp_all
    then show ?thesis by blast
  qed
  then obtain k where k: "x = of_int k * 2 powi u" by blast
  then have "x / 2 powi u = of_int k" by simp
  then have "rnd F x = of_int k * 2 powi u"
    using False by (simp only: rnd_def Let_def u_def [symmetric] round_even_of_int) simp
  with k show ?thesis by simp
qed simp

lemma rnd_mono_pos:
  assumes "0 < x" and "x \<le> y" and "0 < prec F"
  shows "rnd F x \<le> rnd F y"
proof -
  define u where "u = ulp_exp F x"
  define v where "v = ulp_exp F y"
  have uv: "u \<le> v" using expo_mono [OF assms(1,2)] by (simp add: u_def v_def ulp_exp_def)
  have rx: "rnd F x = of_int (round_even (x / 2 powi u)) * 2 powi u"
    and ry: "rnd F y = of_int (round_even (y / 2 powi v)) * 2 powi v"
    using assms by (simp_all add: rnd_def Let_def u_def v_def)
  show ?thesis
  proof (cases "u = v")
    case True
    have "round_even (x / 2 powi u) \<le> round_even (y / 2 powi u)"
      using assms by (intro round_even_mono divide_right_mono) simp_all
    then show ?thesis unfolding rx ry True by (intro mult_right_mono) simp_all
  next
    case False
    with uv have lt: "u < v" by simp
    define b where "b = expo x + 1"
    have vy: "v = expo y - int (prec F) + 1" and "u \<ge> expo x - int (prec F) + 1"
      using lt by (auto simp: u_def v_def ulp_exp_def max_def split: if_splits)
    then have be: "int (prec F) - 1 + v = expo y" and ue: "b \<le> int (prec F) + u" by (simp_all add: b_def)
    have lo: "of_int (2 ^ (prec F - 1)) * 2 powi v \<le> rnd F y"
    proof -
      have "(2::rat) powi (int (prec F - 1) + v) \<le> y"
        using expo_spec(1) [of y] assms be by (simp add: of_nat_diff)
      then have "2 ^ (prec F - 1) * 2 powi v \<le> y" by (simp add: power_int_add)
      then have "of_int (2 ^ (prec F - 1)) \<le> y / 2 powi v" by (simp add: le_divide_eq)
      then have "2 ^ (prec F - 1) \<le> round_even (y / 2 powi v)" by (rule round_even_bounds)
      then have "(of_int (2 ^ (prec F - 1)) :: rat) \<le> of_int (round_even (y / 2 powi v))"
        by (simp only: of_int_le_iff)
      then show ?thesis unfolding ry by (intro mult_right_mono) simp_all
    qed
    have hi: "rnd F x \<le> of_int (2 ^ prec F) * 2 powi u"
    proof -
      have "x < 2 powi b" using expo_spec(2) assms by (simp add: b_def)
      also have "\<dots> \<le> 2 powi (int (prec F) + u)" using ue by (rule power_int_increasing) simp
      finally have "x / 2 powi u \<le> of_int (2 ^ prec F)" by (simp add: power_int_add divide_le_eq)
      then have "round_even (x / 2 powi u) \<le> 2 ^ prec F" by (rule round_even_bounds)
      then have "(of_int (round_even (x / 2 powi u)) :: rat) \<le> of_int (2 ^ prec F)"
        by (simp only: of_int_le_iff)
      then show ?thesis unfolding rx by (intro mult_right_mono) simp_all
    qed
    have "(of_int (2 ^ prec F) :: rat) * 2 powi u = 2 powi (int (prec F) + u)"
      by (simp add: power_int_add)
    also have "\<dots> \<le> 2 powi (int (prec F - 1) + v)"
      using lt assms(3) by (intro power_int_increasing) (simp_all add: of_nat_diff)
    also have "\<dots> = of_int (2 ^ (prec F - 1)) * 2 powi v" by (simp add: power_int_add)
    finally show ?thesis using lo hi by linarith
  qed
qed

lemma rnd_nonneg: "0 \<le> x \<Longrightarrow> 0 \<le> rnd F x"
proof -
  assume "0 \<le> x"
  then have "0 \<le> round_even (x / 2 powi ulp_exp F \<bar>x\<bar>)"
    by (intro round_even_bounds) simp
  then show ?thesis by (simp add: rnd_def Let_def)
qed

lemma rnd_mono:
  assumes "x \<le> y" and F: "0 < prec F"
  shows "rnd F x \<le> rnd F y"
proof -
  consider "0 < x" | "x \<le> 0" "0 \<le> y" | "y < 0" using assms by linarith
  then show ?thesis
  proof cases
    case 1
    then show ?thesis using assms rnd_mono_pos by blast
  next
    case 2
    then have "0 \<le> rnd F (- x)" "0 \<le> rnd F y" by (simp_all add: rnd_nonneg)
    then show ?thesis by (simp add: rnd_minus)
  next
    case 3
    then have "rnd F (- y) \<le> rnd F (- x)" using assms by (intro rnd_mono_pos) simp_all
    then show ?thesis by (simp add: rnd_minus)
  qed
qed
section \<open>Values and operations\<close>

text \<open>
  \<open>NaN\<close> stands for the quiet NaN. The order below is Rust's \<open>total_cmp\<close> on these values;
  the comparison operators of the language are \<open>flt_le\<close> and \<open>flt_less\<close>, false when a side is NaN.
\<close>

datatype flt = NInf | Fin rat | PInf | NaN

fun flt_key :: "flt \<Rightarrow> nat \<times> rat" where
  "flt_key NInf = (0, 0)"
| "flt_key (Fin x) = (1, x)"
| "flt_key PInf = (2, 0)"
| "flt_key NaN = (3, 0)"

lemma flt_key_inj: "flt_key a = flt_key b \<longleftrightarrow> a = b"
  by (cases a; cases b) simp_all

instantiation flt :: linorder
begin

definition less_eq_flt :: "flt \<Rightarrow> flt \<Rightarrow> bool" where
  "less_eq_flt a b \<longleftrightarrow> flt_key a \<le> flt_key b"

definition less_flt :: "flt \<Rightarrow> flt \<Rightarrow> bool" where
  "less_flt a b \<longleftrightarrow> flt_key a < flt_key b"

instance
proof
  fix a b c :: flt
  show "a < b \<longleftrightarrow> a \<le> b \<and> \<not> b \<le> a" by (auto simp: less_eq_flt_def less_flt_def)
  show "a \<le> a" by (simp add: less_eq_flt_def)
  show "a \<le> b \<Longrightarrow> b \<le> c \<Longrightarrow> a \<le> c" by (auto simp: less_eq_flt_def)
  show "a \<le> b \<Longrightarrow> b \<le> a \<Longrightarrow> a = b" by (simp add: less_eq_flt_def flip: flt_key_inj)
  show "a \<le> b \<or> b \<le> a" by (auto simp: less_eq_flt_def)
qed

end

lemma flt_le_simps [simp]:
  "Fin x \<le> Fin y \<longleftrightarrow> x \<le> y" "Fin x < Fin y \<longleftrightarrow> x < y"
  "NInf \<le> a" "a \<le> NaN" "Fin x \<le> PInf" "\<not> PInf \<le> Fin x" "\<not> Fin x \<le> NInf"
  "Fin x < PInf" "NInf < Fin x" "\<not> PInf < Fin x" "\<not> Fin x < NInf" "\<not> NaN \<le> Fin x"
  "\<not> PInf \<le> NInf" "\<not> NaN \<le> PInf" "\<not> NaN \<le> NInf" "NInf < PInf"
  by (cases a; simp add: less_eq_flt_def less_flt_def less_eq_prod_def less_prod_def)+

definition flt_le :: "flt \<Rightarrow> flt \<Rightarrow> bool" where
  "flt_le a b \<longleftrightarrow> a \<noteq> NaN \<and> b \<noteq> NaN \<and> a \<le> b"

definition flt_less :: "flt \<Rightarrow> flt \<Rightarrow> bool" where
  "flt_less a b \<longleftrightarrow> a \<noteq> NaN \<and> b \<noteq> NaN \<and> a < b"

definition fl :: "ffmt \<Rightarrow> rat \<Rightarrow> flt" where
  "fl F x = (let r = rnd F x in
     if 2 powi emax F \<le> r then PInf else if r \<le> - (2 powi emax F) then NInf else Fin r)"

fun fneg :: "flt \<Rightarrow> flt" where
  "fneg NInf = PInf"
| "fneg (Fin x) = Fin (- x)"
| "fneg PInf = NInf"
| "fneg NaN = NaN"

fun fadd :: "ffmt \<Rightarrow> flt \<Rightarrow> flt \<Rightarrow> flt" where
  "fadd F (Fin x) (Fin y) = fl F (x + y)"
| "fadd F (Fin x) b = b"
| "fadd F a (Fin y) = a"
| "fadd F a b = (if a = b then a else NaN)"

definition fsub :: "ffmt \<Rightarrow> flt \<Rightarrow> flt \<Rightarrow> flt" where
  "fsub F a b = fadd F a (fneg b)"

text \<open>The sign of a non-NaN value, 0 for zero; an infinity of a given sign.\<close>

fun fsgn :: "flt \<Rightarrow> int" where
  "fsgn NInf = -1"
| "fsgn (Fin x) = (if 0 < x then 1 else if x < 0 then -1 else 0)"
| "fsgn PInf = 1"
| "fsgn NaN = 0"

definition finf :: "int \<Rightarrow> flt" where
  "finf s = (if 0 < s then PInf else if s < 0 then NInf else NaN)"

fun fmul :: "ffmt \<Rightarrow> flt \<Rightarrow> flt \<Rightarrow> flt" where
  "fmul F (Fin x) (Fin y) = fl F (x * y)"
| "fmul F a b = (if a = NaN \<or> b = NaN then NaN else finf (fsgn a * fsgn b))"

text \<open>Division by zero gives the infinity of a positive zero divisor, and 0/0 is NaN.\<close>

fun fdiv :: "ffmt \<Rightarrow> flt \<Rightarrow> flt \<Rightarrow> flt" where
  "fdiv F (Fin x) (Fin y) = (if y = 0 then finf (fsgn (Fin x)) else fl F (x / y))"
| "fdiv F a NaN = NaN"
| "fdiv F NaN b = NaN"
| "fdiv F (Fin x) b = Fin 0"
| "fdiv F a (Fin y) = finf (fsgn a * (if y < 0 then -1 else 1))"
| "fdiv F a b = NaN"

text \<open>\<open>max\<close>, \<open>min\<close> and \<open>clamp\<close>: the first two ignore a NaN side, \<open>clamp\<close> keeps a NaN value.\<close>

definition fmax :: "flt \<Rightarrow> flt \<Rightarrow> flt" where
  "fmax a b = (if a = NaN then b else if b = NaN then a else max a b)"

definition fmin :: "flt \<Rightarrow> flt \<Rightarrow> flt" where
  "fmin a b = (if a = NaN then b else if b = NaN then a else min a b)"

definition fclamp :: "flt \<Rightarrow> flt \<Rightarrow> flt \<Rightarrow> flt" where
  "fclamp lo hi x = (if flt_less x lo then lo else if flt_less hi x then hi else x)"

definition is_finite :: "flt \<Rightarrow> bool" where
  "is_finite a \<longleftrightarrow> (case a of Fin _ \<Rightarrow> True | _ \<Rightarrow> False)"

abbreviation fl64 :: "rat \<Rightarrow> flt" where "fl64 \<equiv> fl binary64"
abbreviation fl32 :: "rat \<Rightarrow> flt" where "fl32 \<equiv> fl binary32"

definition f64_of_nat :: "nat \<Rightarrow> flt" where
  "f64_of_nat n = fl64 (of_nat n)"

definition f32_of_nat :: "nat \<Rightarrow> flt" where
  "f32_of_nat n = fl32 (of_nat n)"

section \<open>Laws\<close>

lemma prec_pos [simp]: "0 < prec binary64" "0 < prec binary32"
  by (simp_all add: binary64_def binary32_def)

lemma fl_repr: "repr F x \<Longrightarrow> 0 < prec F \<Longrightarrow> \<bar>x\<bar> < 2 powi emax F \<Longrightarrow> fl F x = Fin x"
  by (auto simp: fl_def Let_def rnd_of_repr abs_less_iff)

lemma fl_mono:
  assumes "x \<le> y" and "0 < prec F"
  shows "fl F x \<le> fl F y"
proof -
  have pos: "(0::rat) < 2 powi emax F" by simp
  show ?thesis
    using rnd_mono [OF assms] pos
    unfolding fl_def Let_def by (auto simp del: zero_less_power_int) 
qed

lemma fl_not_NaN [simp]: "fl F x \<noteq> NaN"
  by (simp add: fl_def Let_def)

lemma repr_int: "\<bar>m\<bar> \<le> 2 ^ prec F \<Longrightarrow> emin F \<le> 0 \<Longrightarrow> repr F (of_int m)"
  unfolding repr_def by (rule exI [of _ m], rule exI [of _ 0]) simp

lemma fl64_int: "\<bar>m\<bar> \<le> 2 ^ 53 \<Longrightarrow> fl64 (of_int m) = Fin (of_int m)"
proof -
  assume m: "\<bar>m\<bar> \<le> 2 ^ 53"
  then have "\<bar>of_int m :: rat\<bar> \<le> 2 ^ 53"
    by (metis of_int_abs of_int_le_iff of_int_numeral of_int_power)
  also have "\<dots> < 2 powi emax binary64" by (simp add: binary64_def)
  finally show ?thesis using m by (intro fl_repr repr_int) (simp_all add: binary64_def)
qed

lemma fl64_0 [simp]: "fl64 0 = Fin 0" and fl64_1 [simp]: "fl64 1 = Fin 1"
  using fl64_int [of 0] fl64_int [of 1] by simp_all

lemma f64_of_nat_exact: "n \<le> 2 ^ 53 \<Longrightarrow> f64_of_nat n = Fin (of_nat n)"
  using fl64_int [of "int n"] by (simp add: f64_of_nat_def)

lemma fl64_Fin_le:
  assumes "a \<le> x" and "x \<le> b" and "fl64 a = Fin a" and "fl64 b = Fin b"
  shows "\<exists>r. fl64 x = Fin r \<and> a \<le> r \<and> r \<le> b"
proof -
  have "Fin a \<le> fl64 x" "fl64 x \<le> Fin b"
    using fl_mono [OF assms(1), of binary64] fl_mono [OF assms(2), of binary64] assms(3,4) by simp_all
  then show ?thesis by (cases "fl64 x") simp_all
qed

lemma fl64_unit:
  assumes "0 \<le> x" and "x \<le> 1"
  shows "\<exists>r. fl64 x = Fin r \<and> 0 \<le> r \<and> r \<le> 1"
  using fl64_Fin_le [OF assms] by simp
lemma f64_of_nat_Fin:
  assumes "n \<le> 2 ^ 64"
  shows "\<exists>r. f64_of_nat n = Fin r \<and> 0 \<le> r \<and> (0 < n \<longrightarrow> 1 \<le> r)"
proof -
  have "\<bar>(2::rat) ^ 64\<bar> < 2 powi emax binary64" by (simp add: binary64_def)
  moreover have "repr binary64 (2 ^ 64)"
    unfolding repr_def by (rule exI [of _ 1], rule exI [of _ 64]) (simp add: binary64_def)
  ultimately have top: "fl64 (2 ^ 64) = Fin (2 ^ 64)" by (intro fl_repr) simp_all
  have le: "(of_nat n :: rat) \<le> 2 ^ 64"
    using assms by (metis of_nat_le_iff of_nat_numeral of_nat_power)
  show ?thesis
  proof (cases "n = 0")
    case True
    then show ?thesis by (simp add: f64_of_nat_def)
  next
    case False
    then have "(1::rat) \<le> of_nat n" by simp
    from fl64_Fin_le [OF this le fl64_1 top] obtain r where "fl64 (of_nat n) = Fin r" "1 \<le> r"
      by blast
    then show ?thesis by (auto simp: f64_of_nat_def intro!: exI [of _ r])
  qed
qed

lemma f64_of_nat_mono: "m \<le> n \<Longrightarrow> f64_of_nat m \<le> f64_of_nat n"
  unfolding f64_of_nat_def by (rule fl_mono) simp_all

text \<open>A ratio of two counters is a number of the unit interval.\<close>

lemma fdiv_nat_unit:
  assumes "n \<le> d" and "0 < d" and "d \<le> 2 ^ 64"
  shows "\<exists>r. fdiv binary64 (f64_of_nat n) (f64_of_nat d) = Fin r \<and> 0 \<le> r \<and> r \<le> 1"
proof -
  obtain y where y: "f64_of_nat d = Fin y" "1 \<le> y" using f64_of_nat_Fin [of d] assms by auto
  obtain x where x: "f64_of_nat n = Fin x" "0 \<le> x" using f64_of_nat_Fin [of n] assms by auto
  have "x \<le> y" using f64_of_nat_mono [OF assms(1)] x y by simp
  then have "0 \<le> x / y" "x / y \<le> 1" using x y by simp_all
  from fl64_unit [OF this] show ?thesis using x y by auto
qed

lemma fdiv_nat_eq:
  "m \<le> 2 ^ 53 \<Longrightarrow> n \<le> 2 ^ 53 \<Longrightarrow> 0 < n \<Longrightarrow>
   fdiv binary64 (f64_of_nat m) (f64_of_nat n) = fl64 (of_nat m / of_nat n)"
  by (simp add: f64_of_nat_exact)

end
