(* ===== verification/Trace.thy ===== *)
theory Trace
  imports F64
begin

text \<open>
  The effect model (\<open>crates/fnprint-trace/src/lib.rs\<close>): the effects a function was seen to have,
  their stable 64-bit tokens (FNV-1a written out), the trace record and its complexity weight.
  A Rust \<open>String\<close> is the list of its UTF-8 bytes, a \<open>char\<close> of HOL each.
\<close>

section \<open>Effects\<close>

datatype Region = Arg u16 | Stack | Global | Heapish

datatype ValueClass = Input u16 | InputDeriv u16 | Zero | SmallConst u64 | BigConst | Unknown

datatype CallTarget = Sym string | Anon

datatype Effect =
    Write Region u32 ValueClass
  | Read Region u32
  | NewRegion Region
  | Call CallTarget
  | Syscall u32
  | Branch
  | Ret ValueClass
  | Capped

record EffectTrace =
  effects :: "Effect list"
  instret :: u64
  capped :: bool
  coverage :: flt
  callees :: "u64 list"

section \<open>FNV-1a\<close>

definition fnv_new :: u64 where
  "fnv_new = 0xcbf29ce484222325"

definition fnv_byte :: "u64 \<Rightarrow> u8 \<Rightarrow> u64" where
  "fnv_byte h b = (h XOR ucast b) * 0x100000001b3"

definition fnv_tag :: "u64 \<Rightarrow> u8 \<Rightarrow> u64" where
  "fnv_tag h t = fnv_byte h t"

definition fnv_u64 :: "u64 \<Rightarrow> u64 \<Rightarrow> u64" where
  "fnv_u64 h v = foldl (\<lambda>h i. fnv_byte h (ucast (drop_bit (i * 8) v))) h [0..<8]"

definition fnv_i32 :: "u64 \<Rightarrow> u32 \<Rightarrow> u64" where
  "fnv_i32 h v = fnv_u64 h (scast v)"

section \<open>Tokens\<close>

definition as_bytes :: "string \<Rightarrow> u8 list" where
  "as_bytes s = map of_char s"

fun region_hash :: "Region \<Rightarrow> u64 \<Rightarrow> u64" where
  "region_hash (Arg k) h = fnv_u64 (fnv_tag h 10) (ucast k)"
| "region_hash Stack h = fnv_tag h 11"
| "region_hash Global h = fnv_tag h 13"
| "region_hash Heapish h = fnv_tag h 12"

fun value_hash :: "ValueClass \<Rightarrow> u64 \<Rightarrow> u64" where
  "value_hash (Input k) h = fnv_u64 (fnv_tag h 20) (ucast k)"
| "value_hash (InputDeriv k) h = fnv_u64 (fnv_tag h 21) (ucast k)"
| "value_hash Zero h = fnv_tag h 22"
| "value_hash (SmallConst v) h = fnv_u64 (fnv_tag h 23) v"
| "value_hash BigConst h = fnv_tag h 24"
| "value_hash Unknown h = fnv_tag h 25"

fun token :: "Effect \<Rightarrow> u64" where
  "token (Write r off v) = value_hash v (fnv_i32 (region_hash r (fnv_tag fnv_new 1)) off)"
| "token (Read r off) = fnv_i32 (region_hash r (fnv_tag fnv_new 8)) off"
| "token (NewRegion r) = region_hash r (fnv_tag fnv_new 2)"
| "token (Call (Sym s)) = foldl fnv_byte (fnv_tag (fnv_tag fnv_new 3) 1) (as_bytes s)"
| "token (Call Anon) = fnv_tag (fnv_tag fnv_new 3) 2"
| "token (Syscall n) = fnv_u64 (fnv_tag fnv_new 4) (ucast n)"
| "token Branch = fnv_tag fnv_new 5"
| "token (Ret v) = value_hash v (fnv_tag fnv_new 6)"
| "token Capped = fnv_tag fnv_new 7"

definition tokens :: "EffectTrace \<Rightarrow> u64 list" where
  "tokens t = map token (effects t)"

section \<open>Complexity\<close>

fun weight :: "Effect \<Rightarrow> nat" where
  "weight (Call _) = 3"
| "weight (Syscall _) = 3"
| "weight (Write _ _ _) = 2"
| "weight (NewRegion _) = 2"
| "weight (Read _ _) = 1"
| "weight (Ret (Input _)) = 1"
| "weight (Ret (InputDeriv _)) = 1"
| "weight _ = 0"

definition trace_complexity :: "EffectTrace \<Rightarrow> nat" where
  "trace_complexity t = foldl (\<lambda>c e. c + weight e) 0 (effects t)"

section \<open>The byte stream behind a token\<close>

text \<open>The specification side: a token is FNV-1a of these bytes, and the bytes determine the effect.\<close>

definition fnv :: "u8 list \<Rightarrow> u64" where
  "fnv bs = foldl fnv_byte fnv_new bs"

fun region_bytes :: "Region \<Rightarrow> u8 list" where
  "region_bytes (Arg k) = 10 # le64 (ucast k)"
| "region_bytes Stack = [11]"
| "region_bytes Global = [13]"
| "region_bytes Heapish = [12]"

fun value_bytes :: "ValueClass \<Rightarrow> u8 list" where
  "value_bytes (Input k) = 20 # le64 (ucast k)"
| "value_bytes (InputDeriv k) = 21 # le64 (ucast k)"
| "value_bytes Zero = [22]"
| "value_bytes (SmallConst v) = 23 # le64 v"
| "value_bytes BigConst = [24]"
| "value_bytes Unknown = [25]"

fun effect_bytes :: "Effect \<Rightarrow> u8 list" where
  "effect_bytes (Write r off v) = 1 # region_bytes r @ le64 (scast off) @ value_bytes v"
| "effect_bytes (Read r off) = 8 # region_bytes r @ le64 (scast off)"
| "effect_bytes (NewRegion r) = 2 # region_bytes r"
| "effect_bytes (Call (Sym s)) = 3 # 1 # as_bytes s"
| "effect_bytes (Call Anon) = [3, 2]"
| "effect_bytes (Syscall n) = 4 # le64 (ucast n)"
| "effect_bytes Branch = [5]"
| "effect_bytes (Ret v) = 6 # value_bytes v"
| "effect_bytes Capped = [7]"

lemma fnv_u64_le64: "fnv_u64 h v = foldl fnv_byte h (le64 v)"
  by (simp add: fnv_u64_def le64_def foldl_map mult.commute)

lemma region_hash_bytes: "region_hash r h = foldl fnv_byte h (region_bytes r)"
  by (cases r) (simp_all add: fnv_tag_def fnv_u64_le64)

lemma value_hash_bytes: "value_hash v h = foldl fnv_byte h (value_bytes v)"
  by (cases v) (simp_all add: fnv_tag_def fnv_u64_le64)

lemma token_fnv: "token e = fnv (effect_bytes e)"
proof (cases e)
  case (Call t)
  then show ?thesis by (cases t) (simp_all add: fnv_def fnv_tag_def)
qed (simp_all add: fnv_def fnv_tag_def fnv_i32_def fnv_u64_le64 region_hash_bytes value_hash_bytes)

lemma ucast_u16_inj: "(ucast (k :: u16) :: u64) = ucast l \<longleftrightarrow> k = l"
proof
  assume eq: "(ucast k :: u64) = ucast l"
  show "k = l"
  proof (rule bit_word_eqI)
    fix n assume n: "n < LENGTH(16)"
    have "bit (ucast k :: u64) n = bit (ucast l :: u64) n" by (simp only: eq)
    then show "bit k n = bit l n" using n by (simp add: bit_ucast_iff)
  qed
qed simp

lemma ucast_u32_inj: "(ucast (k :: u32) :: u64) = ucast l \<longleftrightarrow> k = l"
proof
  assume eq: "(ucast k :: u64) = ucast l"
  show "k = l"
  proof (rule bit_word_eqI)
    fix n assume n: "n < LENGTH(32)"
    have "bit (ucast k :: u64) n = bit (ucast l :: u64) n" by (simp only: eq)
    then show "bit k n = bit l n" using n by (simp add: bit_ucast_iff)
  qed
qed simp

lemma scast_u32_inj: "(scast (k :: u32) :: u64) = scast l \<longleftrightarrow> k = l"
proof
  assume "(scast k :: u64) = scast l"
  then have "(scast (scast k :: u64) :: u32) = scast (scast l :: u64)" by (rule arg_cong)
  then show "k = l" by (simp add: scast_up_scast_id is_up)
qed simp

lemma as_bytes_inj: "as_bytes s = as_bytes t \<longleftrightarrow> s = t"
proof -
  have "inj (of_char :: char \<Rightarrow> u8)"
  proof (rule injI)
    fix c d assume "(of_char c :: u8) = of_char d"
    then have "unat (of_nat (of_char c) :: u8) = unat (of_nat (of_char d) :: u8)"
      by (simp add: of_nat_of_char)
    then have "(of_char c :: nat) = of_char d"
      by (simp add: unsigned_of_nat take_bit_eq_mod)
    then show "c = d" by simp
  qed
  then show ?thesis by (simp add: as_bytes_def inj_map_eq_map)
qed


lemma region_bytes_inj: "region_bytes r @ xs = region_bytes s @ ys \<longleftrightarrow> r = s \<and> xs = ys"
  by (cases r; cases s) (auto simp: append_eq_append_conv le64_inj ucast_u16_inj)

lemma value_bytes_inj: "value_bytes v = value_bytes w \<longleftrightarrow> v = w"
  by (cases v; cases w) (auto simp: le64_inj ucast_u16_inj)

lemma effect_bytes_inj_aux: "effect_bytes e = effect_bytes f \<Longrightarrow> e = f"
  by (cases e rule: effect_bytes.cases; cases f rule: effect_bytes.cases)
    (auto simp: append_eq_append_conv region_bytes_inj value_bytes_inj le64_inj ucast_u32_inj
       scast_u32_inj as_bytes_inj region_bytes_inj [where xs = "[]" and ys = "[]", simplified]
       region_bytes_inj [simplified])
section \<open>One byte step is a bijection of the state\<close>

lemma fnv_prime_odd: "odd (0x100000001b3 :: u64)"
  by simp

lemma xor_cancel: "(a :: 'a::len word) XOR x = b XOR x \<longleftrightarrow> a = b"
  by (metis xor.assoc xor.right_neutral xor_self_eq)

lemma fnv_byte_inj_state: "fnv_byte h b = fnv_byte h' b \<longleftrightarrow> h = h'"
  by (simp only: fnv_byte_def word_odd_mult_inj [OF fnv_prime_odd] xor_cancel)

lemma ucast_u8_inj: "(ucast (k :: u8) :: u64) = ucast l \<longleftrightarrow> k = l"
proof
  assume eq: "(ucast k :: u64) = ucast l"
  show "k = l"
  proof (rule bit_word_eqI)
    fix n assume n: "n < LENGTH(8)"
    have "bit (ucast k :: u64) n = bit (ucast l :: u64) n" by (simp only: eq)
    then show "bit k n = bit l n" using n by (simp add: bit_ucast_iff)
  qed
qed simp

lemma fnv_byte_inj_byte: "fnv_byte h b = fnv_byte h c \<longleftrightarrow> b = c"
  by (simp only: fnv_byte_def word_odd_mult_inj [OF fnv_prime_odd] xor.commute [of h] xor_cancel ucast_u8_inj)

lemma foldl_fnv_inj: "foldl fnv_byte h bs = foldl fnv_byte h' bs \<longleftrightarrow> h = h'"
  by (induction bs arbitrary: h h') (simp_all add: fnv_byte_inj_state)

lemma fnv_one_byte: "fnv (p @ b # q) = fnv (p @ c # q) \<longleftrightarrow> b = c"
  by (simp add: fnv_def foldl_fnv_inj fnv_byte_inj_byte)

lemma complexity_sum: "trace_complexity t = sum_list (map weight (effects t))"
proof -
  have "foldl (\<lambda>c e. c + weight e) c es = c + sum_list (map weight es)" for c es
    by (induction es arbitrary: c) simp_all
  then show ?thesis by (simp add: trace_complexity_def)
qed

lemma weight_le: "weight e \<le> 3"
  by (cases e rule: weight.cases) simp_all

lemma length_tokens [simp]: "length (tokens t) = length (effects t)"
  by (simp add: tokens_def)

section \<open>Properties\<close>

text \<open>C15: A token is the FNV-1a hash of a byte string that determines the effect: the encoding the
  hash consumes (tags, sign-extended offsets, region and value fields) never sends two different
  effects to the same bytes, so two effects share a token only where 64-bit FNV-1a itself collides.\<close>

theorem token_encoding_unambiguous:
  "token e = fnv (effect_bytes e) \<and> (effect_bytes e = effect_bytes f \<longleftrightarrow> e = f)"
  using token_fnv effect_bytes_inj_aux by blast

text \<open>Effects whose encodings differ in one byte only (another syscall number below 256, another
  tag, one character of a callee name, a neighbouring constant) never collide, wherever the byte is.\<close>

theorem token_one_byte_apart:
  assumes "effect_bytes e = p @ b # q" and "effect_bytes f = p @ c # q" and "b \<noteq> c"
  shows "token e \<noteq> token f"
  using assms by (simp add: token_fnv fnv_one_byte)

theorem token_one_byte_apart_witness: "token (Syscall 1) \<noteq> token (Syscall 2)"
  by (rule token_one_byte_apart [where p = "[4]" and b = 1 and c = 2 and q = "[0, 0, 0, 0, 0, 0, 0]"])
    (simp_all add: le64_unfold)

text \<open>The complexity of a trace does not depend on the order of its effects, is at most three per
  effect, and is zero exactly when the trace holds nothing but branches, cap marks and returns of
  values that are not (derived from) an input: the gate against matching trivial functions.\<close>

theorem complexity_spec:
  "trace_complexity t = (\<Sum>e \<in># mset (effects t). weight e)
   \<and> trace_complexity t \<le> 3 * length (effects t)
   \<and> (trace_complexity t = 0 \<longleftrightarrow> list_all (\<lambda>e. weight e = 0) (effects t))"
proof (intro conjI)
  show "trace_complexity t = (\<Sum>e \<in># mset (effects t). weight e)"
    by (simp add: complexity_sum sum_mset_sum_list flip: mset_map)
  have "sum_list (map weight es) \<le> 3 * length es" for es
    by (induction es) (use weight_le in \<open>auto intro: add_mono\<close>)
  then show "trace_complexity t \<le> 3 * length (effects t)" by (simp add: complexity_sum)
  show "trace_complexity t = 0 \<longleftrightarrow> list_all (\<lambda>e. weight e = 0) (effects t)"
    by (simp add: complexity_sum list_all_iff)
qed

end
