(* ===== verification/Sig.thy ===== *)
theory Sig
  imports Trace
begin

text \<open>
  Fingerprints (\<open>crates/fnprint-sig/src/lib.rs\<close>): the shingle set of a token list, the 128-slot
  minhash of a shingle set, the fingerprint of one trace and of the union of several, the
  estimated Jaccard similarity of two prints, and the LSH band keys. \<open>fp_capped\<close> is the source's field
  \<open>capped\<close>. The locale \<open>hash_family\<close> is the contract minhash needs of its permutations.
\<close>

section \<open>Definitions\<close>

definition SIG_LEN :: nat where
  "SIG_LEN = 128"

definition SHINGLE_N :: nat where
  "SHINGLE_N = 3"

record Fingerprint =
  sig :: "u64 list"
  shingles :: u32
  complexity :: u32
  fp_capped :: bool

text \<open>The loop that \<open>mix\<close> and \<open>band_keys\<close> share: FNV-1a over the bytes of a slice of words.\<close>

definition hash_words :: "u64 list \<Rightarrow> u64" where
  "hash_words vs = foldl (\<lambda>h v. foldl (\<lambda>h i.
     (h XOR ucast (ucast (drop_bit (i * 8) v) :: u8)) * 0x100000001b3) h [0..<8])
     0xcbf29ce484222325 vs"

definition mix :: "u64 list \<Rightarrow> u64" where
  "mix vals = hash_words vals"

definition shingle_set :: "u64 list \<Rightarrow> u64 list" where
  "shingle_set toks =
     (if toks = [] then []
      else sort_dedup (map (\<lambda>t. mix [0x01, t]) toks
        @ (if SHINGLE_N \<le> length toks
           then map (\<lambda>w. mix (0x03 # w)) (windows SHINGLE_N toks) else [])))"

definition PERM_A :: "u64 list" where
  "PERM_A = [0xff51afd7ed558ccd, 0xc4ceb9fe1a85ec53, 0x9e3779b97f4a7c15, 0x2545f4914f6cdd1d,
     0xbf58476d1ce4e5b9, 0x94d049bb133111eb, 0xd6e8feb86659fd93, 0xa0761d6478bd642f]"

definition PERM_B :: "u64 list" where
  "PERM_B = [0xe7037ed1a0b428db, 0x8ebc6af09c88c6e3, 0x589965cc75374cc3, 0x1d8e4e27c47d124f,
     0xeb44accab455d165, 0x165667b19e3779f9, 0x27d4eb2f165667c5, 0x2545f4914f6cdd1d]"

text \<open>The \<open>i\<close>-th permutation of \<open>minhash\<close>, then one slot of the signature.\<close>

definition perm :: "nat \<Rightarrow> u64 \<Rightarrow> u64" where
  "perm i x =
     (let a = (PERM_A ! (i mod length PERM_A)) * (of_nat i OR 1) + 0x9e3779b97f4a7c15;
          b = (PERM_B ! (i mod length PERM_B)) + of_nat i * 0x2545f4914f6cdd1d;
          v = x * (a OR 1) + b
      in v XOR drop_bit 29 v)"

definition min_slot :: "nat \<Rightarrow> u64 list \<Rightarrow> u64" where
  "min_slot i xs = foldl (\<lambda>m x. let v = perm i x in if v < m then v else m) u64_max xs"

definition minhash :: "u64 list \<Rightarrow> u64 list" where
  "minhash xs = (if xs = [] then replicate SIG_LEN 0 else map (\<lambda>i. min_slot i xs) [0..<SIG_LEN])"

definition from_trace :: "EffectTrace \<Rightarrow> Fingerprint" where
  "from_trace t =
     (let sh = shingle_set (tokens t)
      in \<lparr>sig = minhash sh, shingles = of_nat (length sh),
          complexity = of_nat (trace_complexity t), fp_capped = capped t\<rparr>)"

definition from_traces :: "EffectTrace list \<Rightarrow> Fingerprint" where
  "from_traces ts =
     (let (al, c, cap) = foldl (\<lambda>(al, c, cap) t.
            (al @ shingle_set (tokens t), max c (of_nat (trace_complexity t)), cap \<or> capped t))
            ([], 0, False) ts;
          al = sort_dedup al
      in \<lparr>sig = minhash al, shingles = of_nat (length al), complexity = c, fp_capped = cap\<rparr>)"

definition similarity :: "Fingerprint \<Rightarrow> Fingerprint \<Rightarrow> flt" where
  "similarity p q =
     (if length (sig p) \<noteq> length (sig q) \<or> sig p = [] then Fin 0
      else fdiv binary64 (f64_of_nat (agree (sig p) (sig q))) (f64_of_nat (length (sig p))))"

definition band_keys :: "nat \<Rightarrow> Fingerprint \<Rightarrow> u64 list" where
  "band_keys r p = map hash_words (chunks (max r 1) (sig p))"

section \<open>Minhash over a family of permutations\<close>

text \<open>What minhash relies on: every member of the family is injective.\<close>

locale hash_family =
  fixes h :: "nat \<Rightarrow> 'a \<Rightarrow> 'b::linorder"
  assumes h_inj: "h i x = h i y \<Longrightarrow> x = y"
begin

lemma slot_shared:
  assumes "finite A" "finite B" "A \<noteq> {}" "B \<noteq> {}" and "Min (h i ` A) = Min (h i ` B)"
  shows "\<exists>x \<in> A \<inter> B. h i x = Min (h i ` A)"
proof -
  have "Min (h i ` A) \<in> h i ` A" using assms by (intro Min_in) simp_all
  moreover have "Min (h i ` B) \<in> h i ` B" using assms by (intro Min_in) simp_all
  ultimately obtain x y where "x \<in> A" "h i x = Min (h i ` A)" "y \<in> B" "h i y = Min (h i ` B)" by auto
  with assms(5) h_inj [of i x y] show ?thesis by auto
qed

lemma slot_of_shared:
  assumes "finite A" "finite B" and "x \<in> A \<inter> B" and "h i x = Min (h i ` (A \<union> B))"
  shows "Min (h i ` A) = Min (h i ` B)"
proof -
  have le: "h i x \<le> h i y" if "y \<in> A \<union> B" for y using assms that by simp
  have x: "h i x \<in> h i ` A" "h i x \<in> h i ` B" using assms(3) by blast+
  have "Min (h i ` A) = h i x" by (rule Min_eqI) (use assms(1) x le in \<open>simp_all only: finite_imageI, blast\<close>)
  moreover have "Min (h i ` B) = h i x" by (rule Min_eqI) (use assms(2) x le in \<open>simp_all only: finite_imageI, blast\<close>)
  ultimately show ?thesis by simp
qed

lemma slot_iff:
  assumes "finite A" "finite B" "A \<noteq> {}" "B \<noteq> {}"
  shows "Min (h i ` A) = Min (h i ` B) \<longleftrightarrow> (\<exists>x \<in> A \<inter> B. h i x = Min (h i ` (A \<union> B)))"
proof
  assume eq: "Min (h i ` A) = Min (h i ` B)"
  then obtain x where "x \<in> A \<inter> B" "h i x = Min (h i ` A)" using slot_shared [OF assms] by blast
  moreover have "Min (h i ` (A \<union> B)) = min (Min (h i ` A)) (Min (h i ` B))"
    using assms by (simp add: image_Un Min_Un)
  ultimately show "\<exists>x \<in> A \<inter> B. h i x = Min (h i ` (A \<union> B))" using eq by auto
next
  assume "\<exists>x \<in> A \<inter> B. h i x = Min (h i ` (A \<union> B))"
  then show "Min (h i ` A) = Min (h i ` B)" using slot_of_shared [OF assms(1,2)] by blast
qed

lemma slot_union:
  "finite A \<Longrightarrow> finite B \<Longrightarrow> A \<noteq> {} \<Longrightarrow> B \<noteq> {} \<Longrightarrow>
   Min (h i ` (A \<union> B)) = min (Min (h i ` A)) (Min (h i ` B))"
  by (simp add: image_Un Min_Un)

end

lemma perm_inj: "perm i x = perm i y \<Longrightarrow> x = y"
proof -
  assume eq: "perm i x = perm i y"
  define a b where "a = ((PERM_A ! (i mod length PERM_A)) * (of_nat i OR 1) + 0x9e3779b97f4a7c15 :: u64)"
    and "b = ((PERM_B ! (i mod length PERM_B)) + of_nat i * 0x2545f4914f6cdd1d :: u64)"
  have odd: "odd (a OR 1)" by (simp add: even_or_iff)
  have "x * (a OR 1) + b = y * (a OR 1) + b"
    by (rule word_xorshift_inj [where k = 29])
      (use eq in \<open>simp_all add: perm_def Let_def a_def b_def\<close>)
  then have "x * (a OR 1) = y * (a OR 1)" by simp
  then show "x = y" by (simp only: word_odd_mult_inj [OF odd])
qed

interpretation perm: hash_family perm
  by unfold_locales (rule perm_inj)

lemma min_slot_eq: "xs \<noteq> [] \<Longrightarrow> min_slot i xs = Min (perm i ` set xs)"
proof -
  have "foldl (\<lambda>m x. let v = perm i x in if v < m then v else m) m xs = Min (insert m (perm i ` set xs))"
    for m
  proof (induction xs arbitrary: m)
    case (Cons x xs)
    have "(let v = perm i x in if v < m then v else m) = min m (perm i x)" by (auto simp: min_def Let_def)
    with Cons show ?case by (cases "xs = []") (simp_all add: min.assoc)
  qed simp
  moreover assume "xs \<noteq> []"
  then have "Min (insert u64_max (perm i ` set xs)) = Min (perm i ` set xs)"
    by (subst Min_insert) (auto simp: min_def intro!: antisym)
  ultimately show ?thesis by (simp add: min_slot_def)
qed

lemma length_minhash [simp]: "length (minhash xs) = SIG_LEN"
  by (simp add: minhash_def)

lemma minhash_cong: "set xs = set ys \<Longrightarrow> minhash xs = minhash ys"
  by (cases "xs = []") (auto simp: minhash_def min_slot_eq set_empty2)

lemma nth_minhash: "xs \<noteq> [] \<Longrightarrow> i < SIG_LEN \<Longrightarrow> minhash xs ! i = Min (perm i ` set xs)"
  by (simp add: minhash_def min_slot_eq)
section \<open>Fingerprints of traces\<close>

lemma sorted_shingle_set: "sorted (shingle_set ts)" "distinct (shingle_set ts)"
  by (simp_all add: shingle_set_def)

lemma sort_dedup_shingle_set: "sort_dedup (shingle_set ts) = shingle_set ts"
  by (metis sort_dedup_eq sorted_shingle_set sorted_list_of_set.idem_if_sorted_distinct)

text \<open>The spec of \<open>from_traces\<close>: its accumulators are a union, a maximum and a disjunction.\<close>

definition all_shingles :: "EffectTrace list \<Rightarrow> u64 set" where
  "all_shingles ts = (\<Union>t \<in> set ts. set (shingle_set (tokens t)))"

lemma from_traces_fold:
  "foldl (\<lambda>(al, c, cap) t.
      (al @ shingle_set (tokens t), max c (of_nat (trace_complexity t)), cap \<or> capped t)) (al, c, cap) ts
   = (al @ concat (map (\<lambda>t. shingle_set (tokens t)) ts),
      fold max (map (\<lambda>t. of_nat (trace_complexity t) :: u32) ts) c,
      cap \<or> (\<exists>t \<in> set ts. capped t))"
  by (induction ts arbitrary: al c cap) (simp_all add: max.commute)

lemma fold_max_Max: "fold max (xs :: u32 list) c = Max (insert c (set xs))"
proof -
  have "Max (insert c (set xs)) = Max (set (c # xs))" by simp
  then show ?thesis by (simp only: Max.set_eq_fold)
qed

lemma from_traces_spec:
  "from_traces ts =
     \<lparr>sig = minhash (sorted_list_of_set (all_shingles ts)),
      shingles = of_nat (card (all_shingles ts)),
      complexity = Max (insert 0 ((\<lambda>t. of_nat (trace_complexity t)) ` set ts)),
      fp_capped = (\<exists>t \<in> set ts. capped t)\<rparr>"
proof -
  have "set (concat (map (\<lambda>t. shingle_set (tokens t)) ts)) = all_shingles ts"
    by (simp add: all_shingles_def)
  then have "sort_dedup (concat (map (\<lambda>t. shingle_set (tokens t)) ts)) = sorted_list_of_set (all_shingles ts)"
    by (simp only: sort_dedup_eq)
  then show ?thesis
    by (simp add: from_traces_def from_traces_fold fold_max_Max Let_def all_shingles_def)
qed

section \<open>Similarity\<close>

lemma agree_minhash_0:
  assumes "xs \<noteq> []" and "ys \<noteq> []" and "set xs \<inter> set ys = {}"
  shows "agree (minhash xs) (minhash ys) = 0"
proof (rule ccontr)
  assume "agree (minhash xs) (minhash ys) \<noteq> 0"
  then obtain i where "i < SIG_LEN" and "minhash xs ! i = minhash ys ! i"
    using agree_pos_nth [of "minhash xs" "minhash ys"] by auto
  then have "Min (perm i ` set xs) = Min (perm i ` set ys)" using assms by (simp add: nth_minhash)
  then show False using perm.slot_shared [of "set xs" "set ys" i] assms by auto
qed

lemma f64_of_nat_0 [simp]: "f64_of_nat 0 = Fin 0"
  by (simp add: f64_of_nat_def)

lemma fl64_128ths: "n \<le> 128 \<Longrightarrow> fl64 (of_nat n / 128) = Fin (of_nat n / 128)"
proof -
  assume n: "n \<le> 128"
  then have le: "(of_nat n :: rat) \<le> 128" by (metis of_nat_le_iff of_nat_numeral)
  have "repr binary64 (of_nat n / 128)"
    unfolding repr_def
    by (rule exI [of _ "int n"], rule exI [of _ "-7"])
      (use n in \<open>simp add: binary64_def power_int_minus\<close>)
  moreover have "\<bar>of_nat n / 128 :: rat\<bar> \<le> 1" using le by simp
  then have "\<bar>of_nat n / 128 :: rat\<bar> < 2 powi emax binary64"
    by (rule order.strict_trans1) (simp add: binary64_def)
  ultimately show ?thesis by (intro fl_repr) simp_all
qed

lemma similarity_128:
  assumes "length (sig p) = 128" and "length (sig q) = 128"
  shows "similarity p q = Fin (of_nat (agree (sig p) (sig q)) / 128)"
proof -
  let ?n = "agree (sig p) (sig q)"
  have n: "?n \<le> 128" using agree_le(1) [of "sig p" "sig q"] assms by simp
  then have "fl64 (of_nat ?n / 128) = Fin (of_nat ?n / 128)" by (rule fl64_128ths)
  moreover have "fdiv binary64 (f64_of_nat ?n) (f64_of_nat 128) = fl64 (of_nat ?n / of_nat 128)"
    using n by (intro fdiv_nat_eq) simp_all
  moreover have "sig p \<noteq> []" using assms by auto
  ultimately show ?thesis using assms by (simp add: similarity_def)
qed

lemma similarity_sym: "similarity p q = similarity q p"
  by (auto simp: similarity_def agree_sym)

text \<open>The stored prints are those with a full signature.\<close>

definition wf_fp :: "Fingerprint \<Rightarrow> bool" where
  "wf_fp p \<longleftrightarrow> length (sig p) = SIG_LEN"

lemma wf_fp_length [simp]: "wf_fp p \<Longrightarrow> length (sig p) = 128"
  by (simp add: wf_fp_def SIG_LEN_def)

text \<open>A print with one value in every slot, for the concrete instances below and elsewhere.\<close>

definition const_fp :: "u64 \<Rightarrow> Fingerprint" where
  "const_fp c = \<lparr>sig = replicate 128 c, shingles = 4, complexity = 9, fp_capped = False\<rparr>"

lemma wf_const_fp [simp]: "wf_fp (const_fp c)"
  by (simp add: wf_fp_def const_fp_def SIG_LEN_def)

lemma wf_fp_from_trace [wf_intros]: "wf_fp (from_trace t)"
  by (simp add: wf_fp_def from_trace_def Let_def)

lemma wf_fp_from_traces [wf_intros]: "wf_fp (from_traces ts)"
  by (simp add: wf_fp_def from_traces_spec)

section \<open>Bands\<close>

lemma band_keys_share:
  assumes "wf_fp p" and "wf_fp q" and "96 < agree (sig p) (sig q)"
  shows "\<exists>k < 32. band_keys 4 p ! k = band_keys 4 q ! k"
proof -
  have lp: "length (chunks 4 (sig p)) = 32" "length (chunks 4 (sig q)) = 32"
    using assms by (auto intro!: length_chunks)
  have "differ (sig p) (sig q) < 32" using agree_plus_differ [of "sig p" "sig q"] assms by simp
  then obtain k where "k < 32" "chunks 4 (sig p) ! k = chunks 4 (sig q) ! k"
    using chunks_pigeonhole [of 4 "sig p" "sig q"] assms lp by auto
  then show ?thesis using lp by (auto simp: band_keys_def intro!: exI [of _ k])
qed
section \<open>Properties\<close>

text \<open>C14: Two non-empty shingle sets agree in a minhash slot exactly when some shingle they share
  is the minimum of that slot's permutation over their union: the event whose frequency is the
  Jaccard overlap. A slot never agrees by accident of two different shingles.\<close>

theorem minhash_slot_agrees_iff:
  assumes "xs \<noteq> []" and "ys \<noteq> []" and "i < SIG_LEN"
  shows "minhash xs ! i = minhash ys ! i
     \<longleftrightarrow> (\<exists>x. x \<in> set xs \<and> x \<in> set ys \<and> perm i x = Min (perm i ` (set xs \<union> set ys)))"
  using assms perm.slot_iff [of "set xs" "set ys" i] by (auto simp: nth_minhash)

theorem minhash_slot_agrees_iff_witness:
  "minhash [1, 2] ! 5 = minhash [2] ! 5
     \<longleftrightarrow> (\<exists>x. x \<in> set [1, 2] \<and> x \<in> set [2] \<and> perm 5 x = Min (perm 5 ` (set [1, 2] \<union> set [2])))"
  by (rule minhash_slot_agrees_iff) (simp_all add: SIG_LEN_def)

text \<open>The signature of a union of shingle sets is the slotwise minimum of their signatures,
  so adding traces never raises a slot.\<close>

theorem minhash_union:
  assumes "xs \<noteq> []" and "ys \<noteq> []"
  shows "minhash (sort_dedup (xs @ ys)) = map2 min (minhash xs) (minhash ys)"
  by (rule nth_equalityI)
    (use assms in \<open>simp_all add: nth_minhash perm.slot_union del: List.set_append add: set_append\<close>)

theorem minhash_union_witness:
  "minhash (sort_dedup ([1] @ [2])) = map2 min (minhash [1]) (minhash [2])"
  by (rule minhash_union) simp_all

text \<open>The print of several traces depends on the traces only as a set, in particular not on the
  order of the seeds; repeating a trace changes nothing, and one trace alone gives the print
  \<open>from_trace\<close> computes.\<close>

theorem from_traces_as_set:
  assumes "set ts = set us"
  shows "from_traces ts = from_traces us \<and> from_traces [t] = from_trace t"
proof
  show "from_traces ts = from_traces us"
    using assms by (simp add: from_traces_spec all_shingles_def)
  show "from_traces [t] = from_trace t"
    by (simp add: from_traces_def from_trace_def Let_def sort_dedup_shingle_set max_def)
qed

theorem from_traces_as_set_witness:
  "from_traces [\<lparr>effects = [Branch], instret = 1, capped = False, coverage = Fin 1, callees = []\<rparr>,
      \<lparr>effects = [Capped], instret = 2, capped = True, coverage = Fin 0, callees = []\<rparr>]
   = from_traces [\<lparr>effects = [Capped], instret = 2, capped = True, coverage = Fin 0, callees = []\<rparr>,
      \<lparr>effects = [Branch], instret = 1, capped = False, coverage = Fin 1, callees = []\<rparr>]
   \<and> from_traces [\<lparr>effects = [Capped], instret = 2, capped = True, coverage = Fin 0, callees = []\<rparr>]
     = from_trace \<lparr>effects = [Capped], instret = 2, capped = True, coverage = Fin 0, callees = []\<rparr>"
  by (rule from_traces_as_set) auto

text \<open>Similarity is symmetric; between prints with a full signature it is the fraction of
  equal slots, a number of [0,1] that is 1 exactly for equal signatures; and traces whose
  non-empty shingle sets are disjoint have similarity 0.\<close>

lemma similarity_spec:
  assumes "wf_fp p" and "wf_fp q"
  shows "similarity p q = similarity q p
    \<and> similarity p q = Fin (of_nat (agree (sig p) (sig q)) / 128)
    \<and> Fin 0 \<le> similarity p q \<and> similarity p q \<le> Fin 1
    \<and> (similarity p q = Fin 1 \<longleftrightarrow> sig p = sig q)"
proof -
  have le: "agree (sig p) (sig q) \<le> 128" using agree_le(1) [of "sig p" "sig q"] assms by simp
  then have le': "(of_nat (agree (sig p) (sig q)) :: rat) \<le> 128" by (metis of_nat_le_iff of_nat_numeral)
  have eq: "agree (sig p) (sig q) = 128 \<longleftrightarrow> sig p = sig q"
  proof
    assume "agree (sig p) (sig q) = 128"
    then have "differ (sig p) (sig q) = 0" using agree_plus_differ [of "sig p" "sig q"] assms by simp
    then show "sig p = sig q" using differ_pos [of "sig p" "sig q"] assms by auto
  next
    assume "sig p = sig q"
    then show "agree (sig p) (sig q) = 128" using assms by simp
  qed
  have "(of_nat (agree (sig p) (sig q)) / 128 = (1 :: rat)) \<longleftrightarrow> agree (sig p) (sig q) = 128"
    by (simp add: divide_eq_1_iff)
  then show ?thesis
    using similarity_sym le' assms by (simp add: similarity_128 eq)
qed

text \<open>Traces with disjoint shingle sets have similarity 0, unless both have no shingle at all
  (then both signatures are the all-zero one and the similarity is 1).\<close>

theorem disjoint_behaviour_similarity_0:
  assumes "shingle_set (tokens t) \<noteq> []" and "shingle_set (tokens u) \<noteq> []"
    and "set (shingle_set (tokens t)) \<inter> set (shingle_set (tokens u)) = {}"
  shows "similarity (from_trace t) (from_trace u) = Fin 0"
proof -
  have "agree (sig (from_trace t)) (sig (from_trace u)) = 0"
    using assms by (simp add: from_trace_def Let_def agree_minhash_0)
  then show ?thesis
    using wf_fp_from_trace [of t] wf_fp_from_trace [of u] by (simp add: similarity_128)
qed

text \<open>No close match is lost to the band index: two full prints with similarity above 3/4
  share a band key, in the same band, for the 32 bands of 4 rows the program uses.\<close>

theorem lsh_complete_above_three_quarters:
  assumes "wf_fp p" and "wf_fp q" and "Fin (3 / 4) < similarity p q"
  shows "\<exists>k < 32. band_keys 4 p ! k = band_keys 4 q ! k"
proof -
  have "(3 / 4 :: rat) < of_nat (agree (sig p) (sig q)) / 128"
    using assms by (simp add: similarity_128)
  then have "(of_nat 96 :: rat) < of_nat (agree (sig p) (sig q))" by simp
  then have "96 < agree (sig p) (sig q)" by (simp only: of_nat_less_iff)
  with assms(1,2) show ?thesis by (rule band_keys_share)
qed
lemma similarity_spec_example:
  "similarity (const_fp 3) (const_fp 4) = similarity (const_fp 4) (const_fp 3)
    \<and> similarity (const_fp 3) (const_fp 4) = Fin (of_nat (agree (sig (const_fp 3)) (sig (const_fp 4))) / 128)
    \<and> Fin 0 \<le> similarity (const_fp 3) (const_fp 4) \<and> similarity (const_fp 3) (const_fp 4) \<le> Fin 1
    \<and> (similarity (const_fp 3) (const_fp 4) = Fin 1 \<longleftrightarrow> sig (const_fp 3) = sig (const_fp 4))"
  by (rule similarity_spec) simp_all

theorem disjoint_behaviour_similarity_0_witness:
  "similarity (from_trace \<lparr>effects = [Branch], instret = 1, capped = False, coverage = Fin 1, callees = []\<rparr>)
     (from_trace \<lparr>effects = [Capped], instret = 1, capped = True, coverage = Fin 1, callees = []\<rparr>) = Fin 0"
  by (rule disjoint_behaviour_similarity_0; code_simp)

theorem lsh_complete_above_three_quarters_witness:
  "\<exists>k < 32. band_keys 4 (const_fp 7) ! k = band_keys 4 (const_fp 7) ! k"
  by (rule lsh_complete_above_three_quarters) (simp_all add: similarity_128)

end
