(* ===== verification/Funcs.thy ===== *)
theory Funcs
  imports Sig
begin

text \<open>
  The indexed function, the unit every pipeline works on (\<open>crates/fnprint-core/src/lib.rs\<close>), and how
  it was discovered (\<open>FuncSource\<close> of \<open>crates/fnprint-loader/src/lib.rs\<close>).
\<close>

datatype FuncSource = Symtab | DynSym | EhFrame

definition source_str :: "FuncSource \<Rightarrow> string" where
  "source_str s = (case s of Symtab \<Rightarrow> ''symtab'' | DynSym \<Rightarrow> ''dynsym'' | EhFrame \<Rightarrow> ''eh_frame'')"

record IndexedFunc =
  if_name :: "string option"
  if_entry :: u64
  if_source :: FuncSource
  if_fp :: Fingerprint
  if_coverage :: flt
  if_callees :: "u64 list"

definition default_coverage :: flt where
  "default_coverage = Fin 1"

definition MIN_COMPLEXITY :: u32 where "MIN_COMPLEXITY = 4"
definition SAME_THRESH :: flt where "SAME_THRESH = fl64 (88 / 100)"
definition LOW_COVERAGE_ADVISORY :: flt where "LOW_COVERAGE_ADVISORY = fl32 (15 / 100)"
definition SEEDS :: "u64 list" where "SEEDS = [0, 0x9e3779b9, 0x12345678, 0xdeadbeef]"

end
