(* ===== verification/Loader.thy ===== *)
theory Loader
  imports Funcs "HOL-Library.AList"
begin

text \<open>
  The ELF loader (\<open>crates/fnprint-loader/src/lib.rs\<close>): which segments a file maps and with which bytes, the list
  of functions the symbols and the unwind info give, and the table of imported names behind PLT stubs.

  Parsing is \<open>goblin\<close>'s: the loader sees the record \<open>elf\<close> below, the fields it reads of \<open>goblin::elf::Elf\<close>,
  all of it attacker-controlled. Walking \<open>.eh_frame\<close> is \<open>gimli\<close>'s: a parameter that gives the entries of a
  section. File offsets and lengths are natural numbers (\<open>usize\<close> of 64 bits, so \<open>usize::try_from\<close> never fails);
  addresses are 64-bit words. Names are byte strings.
\<close>

section \<open>Types\<close>

record Segment =
  seg_vaddr :: u64
  seg_bytes :: "u8 list"
  seg_exec :: bool
  seg_write :: bool

record Func =
  fn_name :: "string option"
  fn_entry :: u64
  fn_size :: u64
  fn_source :: FuncSource

datatype Arch = X86_64 | Aarch64

fun arch_name :: "Arch \<Rightarrow> string" where
  "arch_name X86_64 = ''x86-64''"
| "arch_name Aarch64 = ''aarch64''"

record Image =
  segments :: "Segment list"
  im_entry :: u64
  is_pie :: bool
  im_arch :: Arch

record Loaded =
  image :: Image
  funcs :: "Func list"
  import_map :: "u64 \<rightharpoonup> string"

definition seg_len :: "Segment \<Rightarrow> nat" where
  "seg_len s = length (seg_bytes s)"

fun code_at_in :: "Segment list \<Rightarrow> u64 \<Rightarrow> nat \<Rightarrow> u8 list option" where
  "code_at_in [] vaddr len = None"
| "code_at_in (s # ss) vaddr len =
     (if vaddr < seg_vaddr s then code_at_in ss vaddr len
      else let off = vaddr - seg_vaddr s in
        case checked_add64 off (of_nat len) of
          None \<Rightarrow> code_at_in ss vaddr len
        | Some e \<Rightarrow>
            if e > of_nat (seg_len s) then code_at_in ss vaddr len
            else Some (take len (drop (unat off) (seg_bytes s))))"

definition code_at :: "Image \<Rightarrow> u64 \<Rightarrow> nat \<Rightarrow> u8 list option" where
  "code_at im vaddr len = code_at_in (segments im) vaddr len"

section \<open>What the parser hands over\<close>

record prog_header =
  p_type :: u32
  p_flags :: u32
  p_offset :: u64
  p_vaddr :: u64
  p_filesz :: u64
  p_memsz :: u64

definition PT_LOAD :: u32 where "PT_LOAD = 1"

definition is_executable :: "prog_header \<Rightarrow> bool" where
  "is_executable ph \<longleftrightarrow> p_flags ph AND 1 \<noteq> 0"

definition is_write :: "prog_header \<Rightarrow> bool" where
  "is_write ph \<longleftrightarrow> p_flags ph AND 2 \<noteq> 0"

record elf_sym =
  st_type :: u8
  st_name :: nat
  st_value :: u64
  st_size :: u64

definition STT_FUNC :: u8 where "STT_FUNC = 2"

record reloc =
  r_offset :: u64
  r_sym :: nat

record section_header =
  sh_name :: nat
  sh_addr :: u64
  sh_offset :: u64
  sh_size :: u64

record elf =
  e_machine :: u16
  e_type :: u16
  e_entry :: u64
  program_headers :: "prog_header list"
  syms :: "elf_sym list"
  dynsyms :: "elf_sym list"
  strtab :: "nat \<Rightarrow> string option"
  dynstrtab :: "nat \<Rightarrow> string option"
  shdr_strtab :: "nat \<Rightarrow> string option"
  pltrelocs :: "reloc list"
  dynrelas :: "reloc list"
  dynrels :: "reloc list"
  section_headers :: "section_header list"

text \<open>What iterating over a section's unwind entries gives: a frame description that parses, with its
  initial address and length, or does not; a common entry; an error, which ends the walk.\<close>

datatype eh_item = Fde "(u64 \<times> u64) option" | Cie | EhErr

type_synonym eh_walker = "u8 list \<Rightarrow> u64 \<Rightarrow> eh_item list"

section \<open>Segments\<close>

definition MAX_SEG_MEM :: u64 where "MAX_SEG_MEM = 2 ^ 30"
definition MAX_TOTAL_MEM :: u64 where "MAX_TOTAL_MEM = 2 ^ 31"
definition MAX_LOAD_SEGS :: nat where "MAX_LOAD_SEGS = 256"

datatype load_error =
    NotElf
  | BadMachine u16
  | SegTooBig u64
  | VaddrOverflow u64
  | TotalTooBig
  | TooManySegs
  | NoSegments
  | Overlapping u64 u64

record plan =
  pl_start :: nat
  pl_end :: nat
  pl_memsz :: nat
  pl_vaddr :: u64
  pl_exec :: bool
  pl_write :: bool

definition usize_max :: nat where "usize_max = 2 ^ 64 - 1"

text \<open>The file window and the memory size of one header, for a file of \<open>n\<close> bytes.\<close>

definition plan_of :: "nat \<Rightarrow> prog_header \<Rightarrow> plan" where
  "plan_of n ph =
     (let start = min (unat (p_offset ph)) n;
          fsz = unat (p_filesz ph)
      in \<lparr>pl_start = start, pl_end = min (min (start + fsz) usize_max) n, pl_memsz = unat (p_memsz ph),
          pl_vaddr = p_vaddr ph, pl_exec = is_executable ph, pl_write = is_write ph\<rparr>)"

definition alloc_len :: "plan \<Rightarrow> nat" where
  "alloc_len p = max (pl_end p - pl_start p) (pl_memsz p)"

fun plan_loop :: "nat \<Rightarrow> prog_header list \<Rightarrow> u64 \<Rightarrow> plan list \<Rightarrow> load_error + plan list" where
  "plan_loop n [] total_mem plans = Inr plans"
| "plan_loop n (ph # phs) total_mem plans =
     (if p_type ph \<noteq> PT_LOAD then plan_loop n phs total_mem plans
      else if p_memsz ph > MAX_SEG_MEM then Inl (SegTooBig (p_memsz ph))
      else if checked_add64 (p_vaddr ph) (p_memsz ph) = None then Inl (VaddrOverflow (p_vaddr ph))
      else let p = plan_of n ph;
               total_mem' = sat_add64 total_mem (of_nat (alloc_len p));
               plans' = plans @ [p]
        in if total_mem' > MAX_TOTAL_MEM then Inl TotalTooBig
           else if length plans' > MAX_LOAD_SEGS then Inl TooManySegs
           else plan_loop n phs total_mem' plans')"

definition copy_segment :: "u8 list \<Rightarrow> plan \<Rightarrow> Segment" where
  "copy_segment raw p =
     (let data = take (pl_end p - pl_start p) (drop (pl_start p) raw);
          data' = (if pl_memsz p > length data then data @ replicate (pl_memsz p - length data) 0 else data)
      in \<lparr>seg_vaddr = pl_vaddr p, seg_bytes = data', seg_exec = pl_exec p, seg_write = pl_write p\<rparr>)"

fun check_overlap :: "Segment list \<Rightarrow> load_error + unit" where
  "check_overlap (a # b # rest) =
     (if seg_vaddr b < sat_add64 (seg_vaddr a) (of_nat (seg_len a))
      then Inl (Overlapping (seg_vaddr a) (seg_vaddr b))
      else check_overlap (b # rest))"
| "check_overlap _ = Inr ()"

section \<open>Functions\<close>

definition MAX_NAME :: nat where "MAX_NAME = 4096"
definition MAX_FUNCS :: nat where "MAX_FUNCS = 1000000"

definition is_char_boundary :: "string \<Rightarrow> nat \<Rightarrow> bool" where
  "is_char_boundary s i \<longleftrightarrow> i = 0 \<or> i = length s \<or> (i < length s \<and> \<not> utf8_cont (of_char (s ! i)))"

fun boundary_below :: "string \<Rightarrow> nat \<Rightarrow> nat" where
  "boundary_below s 0 = 0"
| "boundary_below s (Suc e) = (if \<not> is_char_boundary s (Suc e) then boundary_below s e else Suc e)"

definition clamp_name :: "string \<Rightarrow> string" where
  "clamp_name s = (if length s \<le> MAX_NAME then s else take (boundary_below s MAX_NAME) s)"

definition sym_name :: "elf \<Rightarrow> elf_sym \<Rightarrow> FuncSource \<Rightarrow> string option" where
  "sym_name e sy src =
     (case map_option clamp_name (case src of Symtab \<Rightarrow> strtab e (st_name sy) | _ \<Rightarrow> dynstrtab e (st_name sy)) of
        Some s \<Rightarrow> if s = [] then None else Some s
      | None \<Rightarrow> None)"

fun discover_syms :: "elf \<Rightarrow> (elf_sym \<times> FuncSource) list \<Rightarrow> Func list \<Rightarrow> Func list" where
  "discover_syms e [] out = out"
| "discover_syms e ((sy, src) # rest) out =
     (if length out \<ge> MAX_FUNCS then out
      else if st_type sy \<noteq> STT_FUNC then discover_syms e rest out
      else if st_value sy = 0 \<or> st_size sy = 0 then discover_syms e rest out
      else discover_syms e rest
        (out @ [\<lparr>fn_name = sym_name e sy src, fn_entry = st_value sy, fn_size = st_size sy, fn_source = src\<rparr>]))"

text \<open>\<open>raw.get(start..start+size)\<close> with the checked end.\<close>

definition file_window :: "u8 list \<Rightarrow> section_header \<Rightarrow> u8 list option" where
  "file_window raw sh =
     (let start = unat (sh_offset sh); size = unat (sh_size sh)
      in if start + size > usize_max then None
         else if start + size \<le> length raw then Some (take size (drop start raw)) else None)"

fun fde_loop :: "eh_item list \<Rightarrow> Func list \<Rightarrow> Func list" where
  "fde_loop [] out = out"
| "fde_loop (EhErr # _) out = out"
| "fde_loop (Cie # rest) out = (if length out \<ge> MAX_FUNCS then out else fde_loop rest out)"
| "fde_loop (Fde f # rest) out =
     (let out' = (case f of
            Some (a, n) \<Rightarrow>
              if n > 0 then out @ [\<lparr>fn_name = None, fn_entry = a, fn_size = n, fn_source = EhFrame\<rparr>] else out
          | None \<Rightarrow> out)
      in if length out' \<ge> MAX_FUNCS then out' else fde_loop rest out')"

definition eh_frame_funcs :: "eh_walker \<Rightarrow> elf \<Rightarrow> u8 list \<Rightarrow> Func list option" where
  "eh_frame_funcs walk e raw =
     (case List.find (\<lambda>s. shdr_strtab e (sh_name s) = Some ''.eh_frame'') (section_headers e) of
        None \<Rightarrow> None
      | Some sh \<Rightarrow> (case file_window raw sh of
            None \<Rightarrow> None
          | Some data \<Rightarrow>
              let out = fde_loop (walk data (sh_addr sh)) []
              in if out = [] then None else Some out))"

definition plt_ranges :: "elf \<Rightarrow> (u64 \<times> u64) list" where
  "plt_ranges e =
     map (\<lambda>sh. (sh_addr sh, sat_add64 (sh_addr sh) (sh_size sh)))
       (filter (\<lambda>sh. shdr_strtab e (sh_name sh) \<in> {Some ''.plt'', Some ''.plt.sec'', Some ''.plt.got''})
         (section_headers e))"

fun merge_fdes :: "u64 set \<Rightarrow> (u64 \<times> u64) list \<Rightarrow> Func list \<Rightarrow> Func list \<Rightarrow> Func list" where
  "merge_fdes known plt [] out = out"
| "merge_fdes known plt (f # fs) out =
     (if length out \<ge> MAX_FUNCS then out
      else if fn_entry f \<in> known \<or> list_ex (\<lambda>(a, b). fn_entry f \<ge> a \<and> fn_entry f < b) plt
      then merge_fdes known plt fs out
      else merge_fdes known plt fs (out @ [f]))"

definition discover :: "eh_walker \<Rightarrow> elf \<Rightarrow> u8 list \<Rightarrow> Func list" where
  "discover walk e raw =
     (let out = discover_syms e (map (\<lambda>s. (s, Symtab)) (syms e) @ map (\<lambda>s. (s, DynSym)) (dynsyms e)) []
      in case eh_frame_funcs walk e raw of
           None \<Rightarrow> out
         | Some fdes \<Rightarrow> merge_fdes (set (map fn_entry out)) (plt_ranges e) fdes out)"

section \<open>Imports\<close>

text \<open>The insertion loop over the relocations. The \<open>HashMap\<close> is an association list with distinct keys, so that
  its \<open>len()\<close> is the length of the list.\<close>

fun import_slots :: "elf \<Rightarrow> reloc list \<Rightarrow> (u64 \<times> string) list \<Rightarrow> (u64 \<times> string) list" where
  "import_slots e [] out = out"
| "import_slots e (r # rs) out =
     (if length out \<ge> MAX_FUNCS then out
      else if r_sym r \<ge> length (dynsyms e) then import_slots e rs out
      else case dynstrtab e (st_name (dynsyms e ! r_sym r)) of
        None \<Rightarrow> import_slots e rs out
      | Some name \<Rightarrow>
          if name = [] then import_slots e rs out
          else import_slots e rs (AList.update (r_offset r) (clamp_name name) out))"

definition le32 :: "u8 list \<Rightarrow> u32" where
  "le32 bs = of_nat (of_le bs)"

text \<open>\<open>i32::from_le_bytes(..) as i64 as u64\<close>.\<close>

definition sext32 :: "u32 \<Rightarrow> u64" where
  "sext32 w = scast w"

definition find_jmp_rip :: "u8 list \<Rightarrow> nat option" where
  "find_jmp_rip stub =
     (let i = (if length stub \<ge> 4 \<and> take 4 stub = [0xf3, 0x0f, 0x1e, 0xfa] then 4 else 0);
          i = (if i < length stub \<and> stub ! i = 0xf2 then i + 1 else i)
      in if length stub \<ge> i + 6 \<and> stub ! i = 0xff \<and> stub ! (i + 1) = 0x25 then Some i else None)"

definition x86_plt_slot :: "u8 list \<Rightarrow> u64 \<Rightarrow> u64 option" where
  "x86_plt_slot stub stub_addr =
     map_option (\<lambda>i.
       let disp = sext32 (le32 (take 4 (drop (i + 2) stub)));
           next_ip = stub_addr + (of_nat i + 6)
       in next_ip + disp) (find_jmp_rip stub)"

text \<open>An \<open>i64\<close> arithmetic right shift is \<open>signed_drop_bit\<close>.\<close>

definition aarch64_plt_slot :: "u8 list \<Rightarrow> u64 \<Rightarrow> u64 option" where
  "aarch64_plt_slot stub stub_addr =
     (let w0 = le32 (take 4 stub); w1 = le32 (take 4 (drop 4 stub))
      in if w0 AND 0x9f000000 \<noteq> 0x90000000 then None
         else
           let immlo = ucast (drop_bit 29 w0 AND 0x3) :: u64;
               immhi = ucast (drop_bit 5 w0 AND 0x7ffff) :: u64;
               imm = push_bit 2 immhi OR immlo;
               imm = signed_drop_bit 43 (push_bit 43 imm);
               page = (stub_addr AND NOT 0xfff) + push_bit 12 imm
           in if w1 AND 0xffc00000 \<noteq> 0xf9400000 then None
              else let imm12 = ucast (drop_bit 10 w1 AND 0xfff) :: u64
                   in Some (page + imm12 * 8))"

definition plt_slot :: "Arch \<Rightarrow> u8 list \<Rightarrow> u64 \<Rightarrow> u64 option" where
  "plt_slot arch stub stub_addr =
     (case arch of X86_64 \<Rightarrow> x86_plt_slot stub stub_addr | Aarch64 \<Rightarrow> aarch64_plt_slot stub stub_addr)"

text \<open>The 16-byte stubs of one section, from offset \<open>off\<close> on.\<close>

function scan_stubs :: "Arch \<Rightarrow> (u64 \<rightharpoonup> string) \<Rightarrow> u64 \<Rightarrow> u8 list \<Rightarrow> nat \<Rightarrow> (u64 \<times> string) list
    \<Rightarrow> (u64 \<times> string) list" where
  "scan_stubs arch out addr data off stubs =
     (if off + 16 \<le> length data \<and> length stubs < MAX_FUNCS then
        let stub = take 16 (drop off data);
            stub_addr = addr + of_nat off;
            stubs' = (case Option.bind (plt_slot arch stub stub_addr) out of
               Some n \<Rightarrow> stubs @ [(stub_addr, n)]
             | None \<Rightarrow> stubs)
        in scan_stubs arch out addr data (off + 16) stubs'
      else stubs)"
  by pat_completeness auto
termination
  by (relation "measure (\<lambda>(_, _, _, data, off, _). length data - off)") auto

declare scan_stubs.simps [simp del]

definition plt_section :: "elf \<Rightarrow> section_header \<Rightarrow> bool" where
  "plt_section e sh \<longleftrightarrow> shdr_strtab e (sh_name sh) \<in> {Some ''.plt'', Some ''.plt.sec''}"

fun scan_sections :: "elf \<Rightarrow> u8 list \<Rightarrow> Arch \<Rightarrow> (u64 \<rightharpoonup> string) \<Rightarrow> section_header list \<Rightarrow> (u64 \<times> string) list
    \<Rightarrow> (u64 \<times> string) list" where
  "scan_sections e raw arch out [] stubs = stubs"
| "scan_sections e raw arch out (sh # shs) stubs =
     (if \<not> plt_section e sh then scan_sections e raw arch out shs stubs
      else case file_window raw sh of
        None \<Rightarrow> scan_sections e raw arch out shs stubs
      | Some data \<Rightarrow>
          scan_sections e raw arch out shs (scan_stubs arch out (sh_addr sh) data 0 stubs))"

text \<open>The slots and then the stubs; a later stub of the same address wins.\<close>

definition plt_imports :: "elf \<Rightarrow> u8 list \<Rightarrow> Arch \<Rightarrow> (u64 \<rightharpoonup> string)" where
  "plt_imports e raw arch =
     (let out = import_slots e (pltrelocs e @ dynrelas e @ dynrels e) []
      in if out = [] then Map.empty
         else collect_map (out @ scan_sections e raw arch (map_of out) (section_headers e) []))"

section \<open>Loading\<close>

definition arch_of :: "u16 \<Rightarrow> load_error + Arch" where
  "arch_of m = (if m = 62 then Inr X86_64 else if m = 183 then Inr Aarch64 else Inl (BadMachine m))"

definition by_entry_then_named :: "Func list \<Rightarrow> Func list" where
  "by_entry_then_named fs = dedup_by fn_entry (sort_key (\<lambda>f. (fn_entry f, Desc (fn_name f \<noteq> None))) fs)"

definition ET_DYN :: u16 where "ET_DYN = 3"

definition load :: "(u8 list \<Rightarrow> elf option) \<Rightarrow> eh_walker \<Rightarrow> u8 list \<Rightarrow> load_error + Loaded" where
  "load parse walk raw =
     (case parse raw of
        None \<Rightarrow> Inl NotElf
      | Some e \<Rightarrow>
          bindR (arch_of (e_machine e)) (\<lambda>arch.
          bindR (plan_loop (length raw) (program_headers e) 0 []) (\<lambda>plans.
          if plans = [] then Inl NoSegments
          else
            let segs = sort_key seg_vaddr (map (copy_segment raw) plans)
            in bindR (check_overlap segs) (\<lambda>_.
               Inr \<lparr>image = \<lparr>segments = segs, im_entry = e_entry e, is_pie = (e_type e = ET_DYN), im_arch = arch\<rparr>,
                    funcs = by_entry_then_named (discover walk e raw),
                    import_map = plt_imports e raw arch\<rparr>))))"

section \<open>Planning and copying\<close>

abbreviation loads :: "prog_header list \<Rightarrow> prog_header list" where
  "loads phs \<equiv> filter (\<lambda>ph. p_type ph = PT_LOAD) phs"

definition planned :: "nat \<Rightarrow> prog_header list \<Rightarrow> plan list" where
  "planned n phs = map (plan_of n) (loads phs)"

definition header_ok :: "prog_header \<Rightarrow> bool" where
  "header_ok ph \<longleftrightarrow> p_memsz ph \<le> MAX_SEG_MEM \<and> unat (p_vaddr ph) + unat (p_memsz ph) < 2 ^ 64"

lemma planned_simps [simp]:
  "planned n [] = []"
  "planned n (ph # phs) = (if p_type ph = PT_LOAD then plan_of n ph # planned n phs else planned n phs)"
  by (simp_all add: planned_def)

lemma plan_of_bounds:
  "pl_start (plan_of n ph) \<le> n" "pl_end (plan_of n ph) \<le> n"
  "n < 2 ^ 64 \<Longrightarrow> pl_start (plan_of n ph) \<le> pl_end (plan_of n ph)"
  "pl_memsz (plan_of n ph) = unat (p_memsz ph)" "pl_vaddr (plan_of n ph) = p_vaddr ph"
  by (auto simp: plan_of_def Let_def usize_max_def)

lemma alloc_len_bound: "n < 2 ^ 64 \<Longrightarrow> alloc_len (plan_of n ph) < 2 ^ 64"
  using plan_of_bounds(2) [of n ph] unat64_lt [of "p_memsz ph"]
  by (simp add: alloc_len_def plan_of_bounds(4))

lemma MAX_TOTAL_MEM_unat: "unat MAX_TOTAL_MEM = 2 ^ 31"
  by (simp add: MAX_TOTAL_MEM_def)

lemma total_step:
  assumes "n < 2 ^ 64"
  shows "MAX_TOTAL_MEM < sat_add64 t (of_nat (alloc_len (plan_of n ph)))
    \<longleftrightarrow> 2 ^ 31 < unat t + alloc_len (plan_of n ph)"
    and "unat t + alloc_len (plan_of n ph) \<le> 2 ^ 31
      \<Longrightarrow> unat (sat_add64 t (of_nat (alloc_len (plan_of n ph)))) = unat t + alloc_len (plan_of n ph)"
proof -
  have "unat (of_nat (alloc_len (plan_of n ph)) :: u64) = alloc_len (plan_of n ph)"
    using alloc_len_bound [OF assms, of ph] by (simp add: unat_of_nat)
  then show "MAX_TOTAL_MEM < sat_add64 t (of_nat (alloc_len (plan_of n ph)))
      \<longleftrightarrow> 2 ^ 31 < unat t + alloc_len (plan_of n ph)"
    and "unat t + alloc_len (plan_of n ph) \<le> 2 ^ 31
      \<Longrightarrow> unat (sat_add64 t (of_nat (alloc_len (plan_of n ph)))) = unat t + alloc_len (plan_of n ph)"
    by (auto simp: word_less_nat_alt MAX_TOTAL_MEM_unat unat_sat_add64)
qed

lemma plan_loop_iff:
  assumes "n < 2 ^ 64" and "unat t = sum_list (map alloc_len ps)" and "unat t \<le> 2 ^ 31" and "length ps \<le> 256"
  shows "plan_loop n phs t ps = Inr qs \<longleftrightarrow> qs = ps @ planned n phs \<and> list_all header_ok (loads phs)
    \<and> sum_list (map alloc_len qs) \<le> 2 ^ 31 \<and> length qs \<le> 256"
  using assms
proof (induction n phs t ps rule: plan_loop.induct)
  case (1 n t ps)
  then show ?case by auto
next
  case (2 n ph phs t ps)
  let ?p = "plan_of n ph"
  let ?t = "sat_add64 t (of_nat (alloc_len ?p))"
  show ?case
  proof (cases "p_type ph = PT_LOAD")
    case False
    then show ?thesis using 2 by simp
  next
    case pt: True
    show ?thesis
    proof (cases "header_ok ph \<and> unat t + alloc_len ?p \<le> 2 ^ 31 \<and> length ps < 256")
      case True
      then have h: "\<not> MAX_SEG_MEM < p_memsz ph" "checked_add64 (p_vaddr ph) (p_memsz ph) \<noteq> None"
        by (auto simp: header_ok_def checked_add64_def)
      have t: "\<not> MAX_TOTAL_MEM < ?t" "unat ?t = unat t + alloc_len ?p"
        using total_step [OF 2(3), of t ph] True by auto
      have "plan_loop n (ph # phs) t ps = plan_loop n phs ?t (ps @ [?p])"
        using pt h t(1) True by (auto simp: Let_def MAX_LOAD_SEGS_def)
      moreover have "plan_loop n phs ?t (ps @ [?p]) = Inr qs \<longleftrightarrow> qs = (ps @ [?p]) @ planned n phs
          \<and> list_all header_ok (loads phs) \<and> sum_list (map alloc_len qs) \<le> 2 ^ 31 \<and> length qs \<le> 256"
        by (rule 2(2)) (use pt h t True 2(3,4) in \<open>auto simp: MAX_LOAD_SEGS_def\<close>)
      ultimately show ?thesis using pt True by auto
    next
      case False
      then have "plan_loop n (ph # phs) t ps \<noteq> Inr qs"
        using pt total_step(1) [OF 2(3), of t ph]
        by (auto simp: Let_def MAX_LOAD_SEGS_def header_ok_def checked_add64_def not_le)
      then show ?thesis using False pt 2(4) by auto
    qed
  qed
qed

lemmas plan_loop_start = plan_loop_iff [where t = 0 and ps = "[]", simplified]

lemma copy_segment_fields [simp]:
  "seg_vaddr (copy_segment raw p) = pl_vaddr p" "seg_exec (copy_segment raw p) = pl_exec p"
  "seg_write (copy_segment raw p) = pl_write p"
  by (simp_all add: copy_segment_def Let_def)

lemma copy_segment_len:
  "pl_end p \<le> length raw \<Longrightarrow> seg_len (copy_segment raw p) = alloc_len p"
  by (auto simp: copy_segment_def seg_len_def alloc_len_def Let_def)

lemma copy_segment_nth:
  "pl_end p \<le> length raw \<Longrightarrow> i < alloc_len p \<Longrightarrow>
   seg_bytes (copy_segment raw p) ! i = (if i < pl_end p - pl_start p then raw ! (pl_start p + i) else 0)"
  by (auto simp: copy_segment_def alloc_len_def Let_def nth_append)

section \<open>Overlap\<close>

definition sat_end :: "Segment \<Rightarrow> u64" where
  "sat_end s = sat_add64 (seg_vaddr s) (of_nat (seg_len s))"

lemma sat_end_ge: "seg_vaddr s \<le> sat_end s"
  by (simp add: sat_end_def sat_add64_ge)

lemma check_overlap_iff: "check_overlap ss = Inr () \<longleftrightarrow> sorted_wrt (\<lambda>a b. sat_end a \<le> seg_vaddr b) ss"
  if "sorted (map seg_vaddr ss)"
  using that
proof (induction ss rule: check_overlap.induct)
  case (1 a b rest)
  have "sat_end a \<le> seg_vaddr b \<Longrightarrow> \<forall>c\<in>set rest. sat_end a \<le> seg_vaddr c"
    using 1(2) by auto
  moreover have "check_overlap (a # b # rest) = Inr () \<longleftrightarrow> sat_end a \<le> seg_vaddr b \<and> check_overlap (b # rest) = Inr ()"
    by (cases "seg_vaddr b < sat_end a") (auto simp: sat_end_def)
  ultimately show ?case using 1 by (cases "sat_end a \<le> seg_vaddr b") (auto simp: sat_end_def not_less)
qed auto

lemma unat_sat_end: "seg_len s < 2 ^ 64 \<Longrightarrow> unat (sat_end s) = min (unat (seg_vaddr s) + seg_len s) (2 ^ 64 - 1)"
  by (simp add: sat_end_def unat_sat_add64 unat_of_nat)

definition holds :: "Segment \<Rightarrow> nat \<Rightarrow> bool" where
  "holds s a \<longleftrightarrow> unat (seg_vaddr s) \<le> a \<and> a < unat (seg_vaddr s) + seg_len s"

lemma holds_unique:
  assumes "sorted_wrt (\<lambda>a b. sat_end a \<le> seg_vaddr b) ss" and "\<forall>s\<in>set ss. seg_len s < 2 ^ 64"
    and "a < 2 ^ 64 - 1" and "i < length ss" "j < length ss" and "holds (ss ! i) a" "holds (ss ! j) a"
  shows "i = j"
proof -
  have False if "i < j" "j < length ss" "holds (ss ! i) a" "holds (ss ! j) a" for i j
  proof -
    have "unat (sat_end (ss ! i)) \<le> unat (seg_vaddr (ss ! j))"
      using assms(1) that(1,2) by (auto simp: sorted_wrt_iff_nth_less word_le_nat_alt)
    moreover have "seg_len (ss ! i) < 2 ^ 64" using assms(2) that(1,2) by simp
    ultimately show False using that(3,4) assms(3) by (auto simp: unat_sat_end holds_def min_def split: if_splits)
  qed
  then show ?thesis using assms(4-7) by (meson linorder_neqE_nat)
qed

section \<open>Reading code\<close>

definition covers :: "Segment \<Rightarrow> u64 \<Rightarrow> nat \<Rightarrow> bool" where
  "covers s v n \<longleftrightarrow> unat (seg_vaddr s) \<le> unat v \<and> unat v + n \<le> unat (seg_vaddr s) + seg_len s"

definition slice_of :: "Segment \<Rightarrow> u64 \<Rightarrow> nat \<Rightarrow> u8 list" where
  "slice_of s v n = take n (drop (unat v - unat (seg_vaddr s)) (seg_bytes s))"

lemma code_at_in_Cons:
  assumes "seg_len s < 2 ^ 64" and "n < 2 ^ 64"
  shows "code_at_in (s # ss) v n = (if covers s v n then Some (slice_of s v n) else code_at_in ss v n)"
proof (cases "v < seg_vaddr s")
  case True
  then show ?thesis by (simp add: covers_def word_less_nat_alt)
next
  case False
  then have le: "unat (seg_vaddr s) \<le> unat v" by (simp add: word_less_nat_alt)
  then have off: "unat (v - seg_vaddr s) = unat v - unat (seg_vaddr s)" by (simp add: unat_sub word_le_nat_alt)
  have n: "unat (of_nat n :: u64) = n" "unat (of_nat (seg_len s) :: u64) = seg_len s"
    using assms by (simp_all add: unat_of_nat)
  show ?thesis
    using False le off n assms
    by (auto simp: covers_def slice_of_def Let_def word_less_nat_alt checked_add64_def unat_add64_no_wrap
      split: option.splits)
qed

lemma code_at_in_iff:
  assumes "\<forall>s\<in>set ss. seg_len s < 2 ^ 64" and "n < 2 ^ 64"
    and "\<And>s t. s \<in> set ss \<Longrightarrow> t \<in> set ss \<Longrightarrow> covers s v n \<Longrightarrow> covers t v n \<Longrightarrow> s = t"
  shows "code_at_in ss v n = Some bs \<longleftrightarrow> (\<exists>s\<in>set ss. covers s v n \<and> bs = slice_of s v n)"
  using assms
proof (induction ss)
  case (Cons s ss)
  show ?case
  proof (cases "covers s v n")
    case True
    then have "\<And>t. t \<in> set (s # ss) \<Longrightarrow> covers t v n \<Longrightarrow> t = s" using Cons.prems(3) by auto
    then show ?thesis using True Cons.prems(1,2) by (auto simp: code_at_in_Cons simp del: code_at_in.simps)
  next
    case False
    have "code_at_in ss v n = Some bs \<longleftrightarrow> (\<exists>s\<in>set ss. covers s v n \<and> bs = slice_of s v n)"
      by (rule Cons.IH) (use Cons.prems in auto)
    then show ?thesis using False Cons.prems(1,2) by (simp add: code_at_in_Cons del: code_at_in.simps)
  qed
qed simp

section \<open>What loading accepts\<close>

definition loaded_segments :: "u8 list \<Rightarrow> prog_header list \<Rightarrow> Segment list" where
  "loaded_segments raw phs = sort_key seg_vaddr (map (copy_segment raw) (planned (length raw) phs))"

lemma sorted_loaded_segments: "sorted (map seg_vaddr (loaded_segments raw phs))"
  by (simp add: loaded_segments_def)

lemma set_loaded_segments: "set (loaded_segments raw phs) = copy_segment raw ` plan_of (length raw) ` set (loads phs)"
  by (auto simp: loaded_segments_def planned_def)

definition acceptable :: "u8 list \<Rightarrow> elf \<Rightarrow> bool" where
  "acceptable raw e \<longleftrightarrow>
     e_machine e \<in> {62, 183} \<and> loads (program_headers e) \<noteq> [] \<and> length (loads (program_headers e)) \<le> 256
     \<and> list_all header_ok (loads (program_headers e))
     \<and> sum_list (map alloc_len (planned (length raw) (program_headers e))) \<le> 2 ^ 31
     \<and> sorted_wrt (\<lambda>a b. sat_end a \<le> seg_vaddr b) (loaded_segments raw (program_headers e))"

lemma load_Inr:
  assumes "length raw < 2 ^ 64"
  shows "load parse walk raw = Inr l \<longleftrightarrow> (\<exists>e arch. parse raw = Some e \<and> acceptable raw e
    \<and> arch_of (e_machine e) = Inr arch
    \<and> l = \<lparr>image = \<lparr>segments = loaded_segments raw (program_headers e), im_entry = e_entry e,
            is_pie = (e_type e = ET_DYN), im_arch = arch\<rparr>,
          funcs = by_entry_then_named (discover walk e raw), import_map = plt_imports e raw arch\<rparr>)"
proof (cases "parse raw")
  case None
  then show ?thesis by (simp add: load_def)
next
  case (Some e)
  have ov: "check_overlap (sort_key seg_vaddr (map (copy_segment raw) (planned (length raw) (program_headers e)))) = Inr u
      \<longleftrightarrow> sorted_wrt (\<lambda>a b. sat_end a \<le> seg_vaddr b) (loaded_segments raw (program_headers e))" for u
    using check_overlap_iff [OF sorted_loaded_segments [of raw "program_headers e"]] by (simp add: loaded_segments_def)
  have m: "arch_of (e_machine e) = Inr arch \<Longrightarrow> e_machine e \<in> {62, 183}" for arch
    by (auto simp: arch_of_def split: if_splits)
  have empty: "planned (length raw) (program_headers e) = [] \<longleftrightarrow> loads (program_headers e) = []"
    and len: "length (planned (length raw) (program_headers e)) = length (loads (program_headers e))"
    by (simp_all add: planned_def)
  let ?l = "\<lambda>arch. \<lparr>image = \<lparr>segments = loaded_segments raw (program_headers e), im_entry = e_entry e,
            is_pie = (e_type e = ET_DYN), im_arch = arch\<rparr>,
          funcs = by_entry_then_named (discover walk e raw), import_map = plt_imports e raw arch\<rparr>"
  have "load parse walk raw = Inr l \<longleftrightarrow> (\<exists>arch. arch_of (e_machine e) = Inr arch
      \<and> (\<exists>plans. plan_loop (length raw) (program_headers e) 0 [] = Inr plans \<and> plans \<noteq> []
        \<and> check_overlap (sort_key seg_vaddr (map (copy_segment raw) plans)) = Inr ()
        \<and> l = (?l arch)\<lparr>image := (image (?l arch))\<lparr>segments := sort_key seg_vaddr (map (copy_segment raw) plans)\<rparr>\<rparr>))"
    using Some by (auto simp: load_def bindR_Inr Let_def)
  also have "\<dots> \<longleftrightarrow> (\<exists>arch. arch_of (e_machine e) = Inr arch \<and> acceptable raw e \<and> l = ?l arch)"
    using m assms by (auto simp: plan_loop_start ov acceptable_def empty len loaded_segments_def)
  finally show ?thesis using Some by auto
qed

section \<open>The functions kept\<close>

definition sym_func :: "elf \<Rightarrow> (elf_sym \<times> FuncSource) list \<Rightarrow> Func \<Rightarrow> bool" where
  "sym_func e ss f \<longleftrightarrow> (\<exists>(sy, src)\<in>set ss. st_type sy = STT_FUNC \<and> st_value sy \<noteq> 0 \<and> st_size sy \<noteq> 0
     \<and> f = \<lparr>fn_name = sym_name e sy src, fn_entry = st_value sy, fn_size = st_size sy, fn_source = src\<rparr>)"

lemma sym_func_Cons: "sym_func e ss f \<Longrightarrow> sym_func e (x # ss) f"
  by (auto simp: sym_func_def)

lemma discover_syms_out: "\<exists>zs. discover_syms e ss out = out @ zs \<and> (\<forall>f\<in>set zs. sym_func e ss f)"
proof (induction e ss out rule: discover_syms.induct)
  case (2 e sy src rest out)
  let ?f = "\<lparr>fn_name = sym_name e sy src, fn_entry = st_value sy, fn_size = st_size sy, fn_source = src\<rparr>"
  consider "length out \<ge> MAX_FUNCS" | "\<not> length out \<ge> MAX_FUNCS" "st_type sy \<noteq> STT_FUNC"
    | "\<not> length out \<ge> MAX_FUNCS" "st_type sy = STT_FUNC" "st_value sy = 0 \<or> st_size sy = 0"
    | "\<not> length out \<ge> MAX_FUNCS" "st_type sy = STT_FUNC" "\<not> (st_value sy = 0 \<or> st_size sy = 0)" by blast
  then show ?case
  proof cases
    case 1
    then show ?thesis by simp
  next
    case c: 2
    show ?thesis using 2(1) [OF c(1)] c sym_func_Cons by fastforce
  next
    case c: 3
    have "\<not> st_type sy \<noteq> STT_FUNC" using c(2) by simp
    from 2(2) [OF c(1) this c(3)] c show ?thesis using sym_func_Cons by fastforce
  next
    case c: 4
    have "\<not> st_type sy \<noteq> STT_FUNC" using c(2) by simp
    from 2(3) [OF c(1) this c(3)] obtain zs where zs: "discover_syms e rest (out @ [?f]) = (out @ [?f]) @ zs"
      "\<forall>f\<in>set zs. sym_func e rest f" by blast
    have "sym_func e ((sy, src) # rest) ?f" using c by (auto simp: sym_func_def)
    with zs c show ?thesis by (intro exI [of _ "?f # zs"]) (auto intro: sym_func_Cons)
  qed
qed simp

lemma discover_syms_complete:
  "length (discover_syms e ss out) < MAX_FUNCS \<Longrightarrow> (sy, src) \<in> set ss \<Longrightarrow> st_type sy = STT_FUNC \<Longrightarrow>
   st_value sy \<noteq> 0 \<Longrightarrow> st_size sy \<noteq> 0 \<Longrightarrow> \<exists>f\<in>set (discover_syms e ss out). fn_entry f = st_value sy"
proof (induction e ss out rule: discover_syms.induct)
  case (2 e sy' src' rest out)
  show ?case
  proof (cases "(sy', src') = (sy, src)")
    case True
    let ?f = "\<lparr>fn_name = sym_name e sy src, fn_entry = st_value sy, fn_size = st_size sy, fn_source = src\<rparr>"
    have "discover_syms e ((sy', src') # rest) out = discover_syms e rest (out @ [?f])"
      using True 2(4,6-8) by (auto split: if_splits)
    moreover have "?f \<in> set (discover_syms e rest (out @ [?f]))"
      using discover_syms_out [of e rest "out @ [?f]"] by auto
    ultimately show ?thesis by force
  next
    case False
    with 2 show ?thesis by (auto split: if_splits)
  qed
qed simp

lemma discover_syms_bound: "length out \<le> MAX_FUNCS \<Longrightarrow> length (discover_syms e ss out) \<le> MAX_FUNCS"
  by (induction e ss out rule: discover_syms.induct) auto

lemma fde_loop_out: "f \<in> set (fde_loop items out) \<Longrightarrow>
    f \<in> set out \<or> (fn_name f = None \<and> fn_source f = EhFrame \<and> fn_size f > 0 \<and> Fde (Some (fn_entry f, fn_size f)) \<in> set items)"
proof (induction items out rule: fde_loop.induct)
  case (4 g rest out)
  show ?case
  proof (cases g)
    case None
    then show ?thesis using 4 by (auto split: if_splits)
  next
    case (Some an)
    then show ?thesis using 4 by (cases an) (auto simp: Let_def split: if_splits)
  qed
qed (auto split: if_splits)

lemma merge_fdes_out:
  "\<exists>zs. merge_fdes known plt fs out = out @ zs
     \<and> (\<forall>f\<in>set zs. f \<in> set fs \<and> fn_entry f \<notin> known \<and> (\<forall>(a, b)\<in>set plt. \<not> (a \<le> fn_entry f \<and> fn_entry f < b)))"
proof (induction known plt fs out rule: merge_fdes.induct)
  case (2 known plt f fs out)
  show ?case
  proof (cases "length out \<ge> MAX_FUNCS \<or> fn_entry f \<in> known \<or> list_ex (\<lambda>(a, b). fn_entry f \<ge> a \<and> fn_entry f < b) plt")
    case True
    then show ?thesis using 2(1) by fastforce
  next
    case False
    then obtain zs where "merge_fdes known plt (f # fs) out = (out @ [f]) @ zs"
      "\<forall>f\<in>set zs. f \<in> set fs \<and> fn_entry f \<notin> known \<and> (\<forall>(a, b)\<in>set plt. \<not> (a \<le> fn_entry f \<and> fn_entry f < b))"
      using 2(2) by auto
    then show ?thesis using False by (fastforce simp: list_ex_iff)
  qed
qed simp

lemma merge_fdes_bound: "length out \<le> MAX_FUNCS \<Longrightarrow> length (merge_fdes known plt fs out) \<le> MAX_FUNCS"
  by (induction known plt fs out rule: merge_fdes.induct) auto

lemma merge_fdes_complete:
  "length (merge_fdes known plt fs out) < MAX_FUNCS \<Longrightarrow> f \<in> set fs \<Longrightarrow> fn_entry f \<notin> known \<Longrightarrow>
   \<not> list_ex (\<lambda>(a, b). fn_entry f \<ge> a \<and> fn_entry f < b) plt \<Longrightarrow> f \<in> set (merge_fdes known plt fs out)"
proof (induction known plt fs out rule: merge_fdes.induct)
  case (2 known plt g fs out)
  then show ?case using merge_fdes_out [of known plt fs "out @ [g]"] by (fastforce split: if_splits)
qed simp

abbreviation sym_sources :: "elf \<Rightarrow> (elf_sym \<times> FuncSource) list" where
  "sym_sources e \<equiv> map (\<lambda>s. (s, Symtab)) (syms e) @ map (\<lambda>s. (s, DynSym)) (dynsyms e)"

lemma discover_bound: "length (discover walk e raw) \<le> MAX_FUNCS"
  by (auto simp: discover_def Let_def discover_syms_bound merge_fdes_bound split: option.split)

section \<open>Names\<close>

lemma boundary_below_le: "boundary_below s n \<le> n"
  by (induction n) auto

lemma boundary_below_is: "is_char_boundary s (boundary_below s n)"
  by (induction n) (auto simp: is_char_boundary_def)

lemma boundary_below_max: "i \<le> n \<Longrightarrow> is_char_boundary s i \<Longrightarrow> i \<le> boundary_below s n"
  by (induction n) (auto simp: le_Suc_eq)

lemma utf8_ok_take:
  "utf8_ok bs \<Longrightarrow> i \<le> length bs \<Longrightarrow> i < length bs \<Longrightarrow> \<not> utf8_cont (bs ! i) \<Longrightarrow> utf8_ok (take i bs)"
proof (induction bs arbitrary: i rule: utf8_ok.induct)
  case 1
  then show ?case by simp
next
  case (2 a xs)
  show ?case
  proof (cases i)
    case 0
    then show ?thesis by simp
  next
    case (Suc j)
    consider (one) "a < 0x80" | (two) "0xC2 \<le> a \<and> a \<le> 0xDF" | (three) "0xE0 \<le> a \<and> a \<le> 0xEF" | (four) "0xF0 \<le> a \<and> a \<le> 0xF4"
      using 2(5) by (auto split: if_splits)
    then show ?thesis
    proof cases
      case one
      then show ?thesis using 2(1) [OF one, of j] 2(5-) Suc by simp
    next
      case two
      then obtain b ys where xs: "xs = b # ys" "utf8_cont b" "utf8_ok ys"
        using 2(5) by (auto split: list.splits)
      then obtain k where k: "j = Suc k" using 2(8) Suc by (cases j) auto
      have "utf8_ok (take k ys)" using 2(2) [of b ys k] two xs 2(6-) Suc k by simp
      then show ?thesis using two xs Suc k by simp
    next
      case three
      then obtain b c ys where xs: "xs = b # c # ys" "utf8_cont b" "utf8_cont c" "utf8_ok ys"
          "a = 0xE0 \<longrightarrow> 0xA0 \<le> b" "a = 0xED \<longrightarrow> b \<le> 0x9F"
        using 2(5) by (auto split: list.splits)
      then obtain k where k: "j = Suc (Suc k)" using 2(8) Suc by (cases j; cases "j - 1") auto
      have "utf8_ok (take k ys)" using 2(3) [of b "c # ys" c ys k] three xs 2(6-) Suc k by simp
      then show ?thesis using three xs Suc k by simp
    next
      case four
      then obtain b c d ys where xs: "xs = b # c # d # ys" "utf8_cont b" "utf8_cont c" "utf8_cont d" "utf8_ok ys"
          "a = 0xF0 \<longrightarrow> 0x90 \<le> b" "a = 0xF4 \<longrightarrow> b \<le> 0x8F"
        using 2(5) by (auto split: list.splits)
      then obtain k where k: "j = Suc (Suc (Suc k))" using 2(8) Suc by (cases j; cases "j - 1"; cases "j - 2") auto
      have "utf8_ok (take k ys)" using 2(4) [of b "c # d # ys" c "d # ys" d ys k] four xs 2(6-) Suc k by simp
      then show ?thesis using four xs Suc k by simp
    qed
  qed
qed

lemma clamp_name_valid:
  assumes "utf8_valid s"
  shows "utf8_valid (clamp_name s)"
proof (cases "length s \<le> MAX_NAME")
  case True
  then show ?thesis using assms by (simp add: clamp_name_def)
next
  case False
  let ?i = "boundary_below s MAX_NAME"
  have "?i < length s" using False boundary_below_le [of s MAX_NAME] by simp
  then have "?i = 0 \<or> \<not> utf8_cont (of_char (s ! ?i))"
    using boundary_below_is [of s MAX_NAME] by (auto simp: is_char_boundary_def)
  then have "utf8_ok (take ?i (map of_char s))"
    using utf8_ok_take [of "map of_char s" ?i] assms \<open>?i < length s\<close> by (auto simp: utf8_valid_def)
  then show ?thesis using False by (simp add: clamp_name_def utf8_valid_def take_map)
qed

lemma clamp_name_len: "length (clamp_name s) \<le> MAX_NAME"
  using boundary_below_le [of s MAX_NAME] by (auto simp: clamp_name_def)

lemma clamp_name_prefix: "clamp_name s = take (length (clamp_name s)) s"
  by (simp add: clamp_name_def min_def)

section \<open>Properties\<close>

section \<open>Properties\<close>

text \<open>A small file: eight bytes mapped at 0x1000 and grown to sixteen, a function symbol at 0x1002 under two
  names (one of them empty), and an unwind entry for 0x1005.\<close>

definition tiny_raw :: "u8 list" where
  "tiny_raw = [0x55, 0x48, 0xff, 0xc0, 0xc3, 0x90, 0x90, 0xc3]"

definition tiny_elf :: elf where
  "tiny_elf =
     \<lparr>e_machine = 62, e_type = 3, e_entry = 0x1000,
      program_headers = [\<lparr>p_type = 6, p_flags = 4, p_offset = 64, p_vaddr = 64, p_filesz = 56, p_memsz = 56\<rparr>,
        \<lparr>p_type = 1, p_flags = 5, p_offset = 0, p_vaddr = 0x1000, p_filesz = 8, p_memsz = 16\<rparr>],
      syms = [\<lparr>st_type = 2, st_name = 9, st_value = 0x1002, st_size = 3\<rparr>],
      dynsyms = [\<lparr>st_type = 2, st_name = 1, st_value = 0x1002, st_size = 3\<rparr>],
      strtab = (\<lambda>i. Some ''''), dynstrtab = (\<lambda>i. if i = 1 then Some ''inc'' else None),
      shdr_strtab = (\<lambda>i. Some ''.eh_frame''),
      pltrelocs = [], dynrelas = [], dynrels = [],
      section_headers = [\<lparr>sh_name = 1, sh_addr = 0x2000, sh_offset = 4, sh_size = 4\<rparr>]\<rparr>"

definition tiny_walk :: eh_walker where
  "tiny_walk data a = [Cie, Fde (Some (0x1005, 3)), Fde (Some (0x1002, 3)), Fde None]"

lemma tiny_length: "length tiny_raw = 8"
  by (simp add: tiny_raw_def)

lemma tiny_acceptable: "acceptable tiny_raw tiny_elf"
proof -
  have l: "loads (program_headers tiny_elf) = [program_headers tiny_elf ! 1]"
    by (simp add: tiny_elf_def PT_LOAD_def)
  have ls: "loaded_segments tiny_raw (program_headers tiny_elf) = [copy_segment tiny_raw (plan_of 8 (program_headers tiny_elf ! 1))]"
    unfolding loaded_segments_def planned_def l tiny_length by simp
  show ?thesis
    unfolding acceptable_def l ls planned_def
    by (simp add: tiny_elf_def tiny_raw_def header_ok_def MAX_SEG_MEM_def alloc_len_def plan_of_def usize_max_def Let_def)
qed

text \<open>C17: Loading accepts a file exactly when it parses, is x86-64 or aarch64, has between 1 and 256 PT_LOAD
  headers, each claiming at most 1 GiB of memory with an end that does not wrap, allocates at most 2 GiB
  in all (file window or memory size of each header, whichever is larger), and no segment begins before the
  end of the one before it. The running saturating sum never lets more through than the exact sum.\<close>

theorem load_accepts_exactly:
  assumes "length raw < 2 ^ 64"
  shows "(\<exists>l. load parse walk raw = Inr l) \<longleftrightarrow> (\<exists>e. parse raw = Some e \<and> acceptable raw e)"
proof -
  have "\<exists>arch. arch_of (e_machine e) = Inr arch" if "acceptable raw e" for e
    using that by (auto simp: acceptable_def arch_of_def)
  then show ?thesis unfolding load_Inr [OF assms] by blast
qed

theorem load_accepts_exactly_witness: "\<exists>l. load (\<lambda>_. Some tiny_elf) tiny_walk tiny_raw = Inr l"
  using load_accepts_exactly [of tiny_raw "\<lambda>_. Some tiny_elf" tiny_walk] tiny_acceptable
  by (simp add: tiny_raw_def)

lemma loaded_segments_len:
  assumes "length raw < 2 ^ 64" and "s \<in> set (loaded_segments raw phs)"
  shows "seg_len s < 2 ^ 64"
proof -
  obtain ph where "s = copy_segment raw (plan_of (length raw) ph)"
    using assms(2) by (auto simp: set_loaded_segments)
  then show ?thesis
    using alloc_len_bound [OF assms(1)] copy_segment_len [OF plan_of_bounds(2)] by simp
qed

lemma covers_holds: "0 < n \<Longrightarrow> covers s v n \<Longrightarrow> holds s (unat v)"
  by (auto simp: covers_def holds_def)

lemma covers_unique:
  assumes "acceptable raw e" and "length raw < 2 ^ 64" and "0 < n" and "unat v + n < 2 ^ 64"
    and "s \<in> set (loaded_segments raw (program_headers e))" and "t \<in> set (loaded_segments raw (program_headers e))"
    and "covers s v n" and "covers t v n"
  shows "s = t"
proof -
  let ?ss = "loaded_segments raw (program_headers e)"
  have len: "\<forall>s\<in>set ?ss. seg_len s < 2 ^ 64" using loaded_segments_len [OF assms(2)] by blast
  obtain i j where "i < length ?ss" "s = ?ss ! i" "j < length ?ss" "t = ?ss ! j"
    using assms(5,6) by (metis in_set_conv_nth)
  moreover have "unat v < 2 ^ 64 - 1" using assms(3,4) by simp
  ultimately show ?thesis
    using holds_unique [of ?ss "unat v" i j] assms(1) len covers_holds [OF assms(3)] assms(7,8)
    by (auto simp: acceptable_def)
qed

text \<open>A covered range of a copied segment is its window of the file, padded with zeros.\<close>

lemma slice_of_copy:
  assumes "covers (copy_segment raw p) v n" and "pl_end p \<le> length raw"
  shows "slice_of (copy_segment raw p) v n
      = map (\<lambda>i. if unat v - unat (pl_vaddr p) + i < pl_end p - pl_start p
                 then raw ! (pl_start p + (unat v - unat (pl_vaddr p)) + i) else 0) [0..<n]"
proof -
  note L = copy_segment_len [OF assms(2)]
  have "unat v - unat (pl_vaddr p) + i < alloc_len p" if "i < n" for i
    using assms(1) that by (auto simp: covers_def L)
  then show ?thesis
    using assms L copy_segment_nth [OF assms(2)]
    by (intro nth_equalityI) (auto simp: slice_of_def covers_def seg_len_def ac_simps)
qed

lemma header_window:
  "covers (copy_segment raw (plan_of (length raw) ph)) v n \<and> bs = slice_of (copy_segment raw (plan_of (length raw) ph)) v n
   \<longleftrightarrow> length bs = n
      \<and> (let p = plan_of (length raw) ph; off = unat v - unat (p_vaddr ph)
         in unat (p_vaddr ph) \<le> unat v \<and> unat v + n \<le> unat (p_vaddr ph) + alloc_len p
            \<and> bs = map (\<lambda>i. if off + i < pl_end p - pl_start p then raw ! (pl_start p + off + i) else 0) [0..<n])"
proof -
  let ?p = "plan_of (length raw) ph"
  have c: "covers (copy_segment raw ?p) v n \<longleftrightarrow>
      unat (p_vaddr ph) \<le> unat v \<and> unat v + n \<le> unat (p_vaddr ph) + alloc_len ?p"
    by (simp add: covers_def copy_segment_len plan_of_bounds)
  show ?thesis
  proof (cases "covers (copy_segment raw ?p) v n")
    case True
    then show ?thesis
      unfolding slice_of_copy [OF True plan_of_bounds(2)] Let_def plan_of_bounds(5) using c by auto
  next
    case False
    then show ?thesis using c by (auto simp: Let_def)
  qed
qed

text \<open>C32: What a loaded image gives for a range of code is what the program headers say of the file: the range
  lies in the memory of one PT_LOAD header, each byte is the byte of the header's file window, and zero
  beyond it; for any other range there is no answer.\<close>

theorem code_at_exact:
  assumes "length raw < 2 ^ 64" and "parse raw = Some e" and "load parse walk raw = Inr l"
    and "0 < n" and "unat v + n < 2 ^ 64"
  shows "code_at (image l) v n = Some bs \<longleftrightarrow> length bs = n
    \<and> (\<exists>ph\<in>set (loads (program_headers e)).
         let p = plan_of (length raw) ph; off = unat v - unat (p_vaddr ph)
         in unat (p_vaddr ph) \<le> unat v \<and> unat v + n \<le> unat (p_vaddr ph) + alloc_len p
            \<and> bs = map (\<lambda>i. if off + i < pl_end p - pl_start p then raw ! (pl_start p + off + i) else 0) [0..<n])"
proof -
  let ?ss = "loaded_segments raw (program_headers e)"
  let ?seg = "\<lambda>ph. copy_segment raw (plan_of (length raw) ph)"
  have acc: "acceptable raw e" and segs: "segments (image l) = ?ss"
    using assms(3) by (auto simp: load_Inr [OF assms(1)] assms(2))
  have len: "\<forall>s\<in>set ?ss. seg_len s < 2 ^ 64" using loaded_segments_len [OF assms(1)] by blast
  have "code_at (image l) v n = Some bs \<longleftrightarrow> (\<exists>s\<in>set ?ss. covers s v n \<and> bs = slice_of s v n)"
    unfolding code_at_def segs by (rule code_at_in_iff) (use len assms(5) covers_unique [OF acc assms(1,4,5)] in auto)
  also have "\<dots> \<longleftrightarrow> (\<exists>ph\<in>set (loads (program_headers e)). covers (?seg ph) v n \<and> bs = slice_of (?seg ph) v n)"
    unfolding set_loaded_segments by blast
  finally show ?thesis unfolding header_window by blast
qed

theorem code_at_exact_witness:
  "\<exists>l. load (\<lambda>_. Some tiny_elf) tiny_walk tiny_raw = Inr l
     \<and> code_at (image l) 0x1006 4 = Some [0x90, 0xc3, 0, 0] \<and> code_at (image l) 0x100e 4 = None"
proof -
  have r: "length tiny_raw < 2 ^ 64" by (simp add: tiny_length)
  have "arch_of (e_machine tiny_elf) = Inr X86_64" by (simp add: tiny_elf_def arch_of_def)
  then obtain l where l: "load (\<lambda>_. Some tiny_elf) tiny_walk tiny_raw = Inr l"
    using tiny_acceptable load_Inr [OF r] by blast
  have lo: "loads (program_headers tiny_elf)
      = [\<lparr>p_type = 1, p_flags = 5, p_offset = 0, p_vaddr = 0x1000, p_filesz = 8, p_memsz = 16\<rparr>]"
    by (simp add: tiny_elf_def PT_LOAD_def)
  note C = code_at_exact [where e = tiny_elf, OF r _ l, unfolded lo tiny_length]
  have "code_at (image l) 0x1006 4 = Some [0x90, 0xc3, 0, 0]"
    using C [where n = 4 and v = "0x1006" and bs = "[0x90, 0xc3, 0, 0]"]
    by (simp add: plan_of_def alloc_len_def usize_max_def Let_def tiny_raw_def upt_rec)
  moreover have "code_at (image l) 0x100e 4 \<noteq> Some bs" for bs
    using C [where n = 4 and v = "0x100e" and bs = bs] by (simp add: plan_of_def alloc_len_def usize_max_def Let_def)
  ultimately show ?thesis using l by (cases "code_at (image l) 0x100e 4") auto
qed

lemma pair_le_fst: "(a, b) \<le> (c, d) \<Longrightarrow> a \<le> c" for a c :: "'a::linorder" and b d :: "'b::linorder"
  by (auto simp: less_eq_prod_def)

lemma by_entry_sorted: "sorted (map fn_entry (sort_key (\<lambda>f. (fn_entry f, Desc (fn_name f \<noteq> None))) fs))"
proof -
  let ?k = "\<lambda>f. (fn_entry f, Desc (fn_name f \<noteq> None))"
  have "sorted (map ?k (sort_key ?k fs))" by (rule sorted_sort_key)
  then have "sorted_wrt (\<lambda>f g. ?k f \<le> ?k g) (sort_key ?k fs)" by (simp only: sorted_map)
  then have "sorted_wrt (\<lambda>f g. fn_entry f \<le> fn_entry g) (sort_key ?k fs)"
    by (rule sorted_wrt_mono_rel [rotated]) (rule pair_le_fst)
  then show ?thesis by (simp only: sorted_map)
qed

lemma by_entry_then_named_keep:
  assumes "f \<in> set (by_entry_then_named fs)" and "g \<in> set fs" and "fn_entry g = fn_entry f" and "fn_name g \<noteq> None"
  shows "fn_name f \<noteq> None"
proof -
  let ?k = "\<lambda>f. (fn_entry f, Desc (fn_name f \<noteq> None))"
  obtain us vs where s: "sort_key ?k fs = us @ f # vs" "fn_entry f \<notin> fn_entry ` set us"
    using dedup_by_first [OF by_entry_sorted] assms(1) unfolding by_entry_then_named_def by blast
  have "g \<in> set (us @ f # vs)" using assms(2) s(1) by (simp flip: s(1))
  moreover have "g \<notin> set us" using s(2) assms(3) by (metis image_eqI)
  ultimately have g: "g = f \<or> g \<in> set vs" by auto
  have "sorted (map ?k (us @ f # vs))" unfolding s(1) [symmetric] by (rule sorted_sort_key)
  then have "\<forall>h\<in>set vs. ?k f \<le> ?k h" unfolding map_append sorted_append list.map sorted_wrt.simps by simp
  with g have "g = f \<or> ?k f \<le> ?k g" by blast
  then show ?thesis using assms(3,4) by (auto simp: less_eq_prod_def)
qed

definition outside_plt :: "elf \<Rightarrow> Func \<Rightarrow> bool" where
  "outside_plt e f \<longleftrightarrow> list_all (\<lambda>(a, b). \<not> (a \<le> fn_entry f \<and> fn_entry f < b)) (plt_ranges e)"

definition fdes_of :: "eh_walker \<Rightarrow> elf \<Rightarrow> u8 list \<Rightarrow> Func list" where
  "fdes_of walk e raw = (case eh_frame_funcs walk e raw of None \<Rightarrow> [] | Some fs \<Rightarrow> fs)"

lemma fdes_of_unnamed: "f \<in> set (fdes_of walk e raw) \<Longrightarrow> fn_name f = None \<and> fn_source f = EhFrame \<and> fn_size f > 0"
  using fde_loop_out by (fastforce simp: fdes_of_def eh_frame_funcs_def Let_def split: option.splits if_splits)

lemma discover_parts:
  "\<exists>zs. discover walk e raw = discover_syms e (sym_sources e) [] @ zs \<and> set (discover_syms e (sym_sources e) []) \<subseteq> Collect (sym_func e (sym_sources e))
     \<and> set zs \<inter> Collect (sym_func e (sym_sources e)) = {}
     \<and> (\<forall>f\<in>set zs. f \<in> set (fdes_of walk e raw) \<and> fn_entry f \<notin> fn_entry ` set (discover_syms e (sym_sources e) []) \<and> outside_plt e f)"
proof -
  let ?out = "discover_syms e (sym_sources e) []"
  have d: "discover walk e raw = merge_fdes (set (map fn_entry ?out)) (plt_ranges e) (fdes_of walk e raw) ?out"
    by (simp add: discover_def fdes_of_def Let_def split: option.split)
  obtain zs where zs: "discover walk e raw = ?out @ zs" and z: "\<forall>f\<in>set zs. f \<in> set (fdes_of walk e raw) \<and> fn_entry f \<notin> set (map fn_entry ?out)
      \<and> (\<forall>(a, b)\<in>set (plt_ranges e). \<not> (a \<le> fn_entry f \<and> fn_entry f < b))"
    using merge_fdes_out [of "set (map fn_entry ?out)" "plt_ranges e" "fdes_of walk e raw" ?out] unfolding d by blast
  have "fn_source f = EhFrame" if "f \<in> set zs" for f using z that fdes_of_unnamed by blast
  then have "set zs \<inter> Collect (sym_func e (sym_sources e)) = {}" by (fastforce simp: sym_func_def)
  moreover have "set ?out \<subseteq> Collect (sym_func e (sym_sources e))" using discover_syms_out [of e "sym_sources e" "[]"] by auto
  moreover have "\<forall>f\<in>set zs. f \<in> set (fdes_of walk e raw) \<and> fn_entry f \<notin> fn_entry ` set ?out \<and> outside_plt e f"
    using z by (fastforce simp: outside_plt_def list_all_iff)
  ultimately show ?thesis using zs by blast
qed

lemma discover_all_syms:
  assumes "length (discover walk e raw) < MAX_FUNCS"
  shows "fn_entry ` Collect (sym_func e (sym_sources e)) \<subseteq> fn_entry ` set (discover walk e raw)"
proof -
  obtain zs where zs: "discover walk e raw = discover_syms e (sym_sources e) [] @ zs" using discover_parts by blast
  then have "length (discover_syms e (sym_sources e) []) < MAX_FUNCS" using assms by simp
  then have "fn_entry ` Collect (sym_func e (sym_sources e)) \<subseteq> fn_entry ` set (discover_syms e (sym_sources e) [])"
    using discover_syms_complete [of e "sym_sources e" "[]"] by (force simp: sym_func_def)
  then show ?thesis using zs by auto
qed

lemma discover_all_fdes:
  assumes "length (discover walk e raw) < MAX_FUNCS" and "f \<in> set (fdes_of walk e raw)" and "outside_plt e f"
    and "fn_entry f \<notin> fn_entry ` Collect (sym_func e (sym_sources e))"
  shows "f \<in> set (discover walk e raw)"
proof -
  let ?out = "discover_syms e (sym_sources e) []"
  have d: "discover walk e raw = merge_fdes (set (map fn_entry ?out)) (plt_ranges e) (fdes_of walk e raw) ?out"
    by (simp add: discover_def fdes_of_def Let_def split: option.split)
  have "set ?out \<subseteq> Collect (sym_func e (sym_sources e))" using discover_syms_out [of e "sym_sources e" "[]"] by auto
  then have "fn_entry f \<notin> set (map fn_entry ?out)" using assms(4) by auto
  moreover have "\<not> list_ex (\<lambda>(a, b). fn_entry f \<ge> a \<and> fn_entry f < b) (plt_ranges e)"
    using assms(3) by (auto simp: list_all_iff list_ex_iff outside_plt_def)
  ultimately show ?thesis using assms(1,2) merge_fdes_complete unfolding d by blast
qed


lemma load_funcs:
  assumes "parse raw = Some e" and "load parse walk raw = Inr l"
  shows "sorted (map fn_entry (funcs l)) \<and> distinct (map fn_entry (funcs l))
    \<and> fn_entry ` set (funcs l) = fn_entry ` set (discover walk e raw) \<and> set (funcs l) \<subseteq> set (discover walk e raw)
    \<and> fn_entry ` {f \<in> set (discover walk e raw). fn_name f \<noteq> None} = fn_entry ` {f \<in> set (funcs l). fn_name f \<noteq> None}"
proof -
  let ?d = "discover walk e raw"
  have l: "funcs l = by_entry_then_named ?d"
    using assms by (auto simp: load_def bindR_Inr Let_def split: if_splits)
  have sub: "set (by_entry_then_named ?d) \<subseteq> set ?d"
    using set_dedup_by by (fastforce simp: by_entry_then_named_def)
  have keys: "fn_entry ` set (by_entry_then_named ?d) = fn_entry ` set ?d"
    by (simp add: by_entry_then_named_def keys_dedup_by)
  have "fn_entry g \<in> fn_entry ` {f \<in> set (by_entry_then_named ?d). fn_name f \<noteq> None}"
    if g: "g \<in> set ?d" "fn_name g \<noteq> None" for g
  proof -
    have "fn_entry g \<in> fn_entry ` set (by_entry_then_named ?d)" using g(1) by (simp add: keys)
    then obtain f where f: "f \<in> set (by_entry_then_named ?d)" "fn_entry g = fn_entry f" by (rule imageE)
    then have "fn_name f \<noteq> None" using by_entry_then_named_keep g by blast
    then show ?thesis using f by auto
  qed
  then have "fn_entry ` {f \<in> set ?d. fn_name f \<noteq> None} = fn_entry ` {f \<in> set (by_entry_then_named ?d). fn_name f \<noteq> None}"
    using sub by auto
  moreover have "sorted (map fn_entry (by_entry_then_named ?d))" "distinct (map fn_entry (by_entry_then_named ?d))"
    unfolding by_entry_then_named_def by (rule sorted_dedup_by distinct_dedup_by, rule by_entry_sorted)+
  ultimately show ?thesis unfolding l using sub keys by blast
qed

lemma load_sorted:
  assumes "parse raw = Some e" and "load parse walk raw = Inr l"
  shows "sorted (map fn_entry (funcs l)) \<and> distinct (map fn_entry (funcs l))"
  using load_funcs [OF assms] by blast

text \<open>The functions of a loaded file are sorted by address with one function per address; exactly the
  discovered addresses are there, each function is one of the discovered ones, and an address that any
  discovered function names is kept under a name.\<close>

theorem load_functions:
  assumes "parse raw = Some e" and "load parse walk raw = Inr l"
  shows "sorted (map fn_entry (funcs l)) \<and> distinct (map fn_entry (funcs l))
    \<and> fn_entry ` set (funcs l) = fn_entry ` set (discover walk e raw) \<and> set (funcs l) \<subseteq> set (discover walk e raw)
    \<and> fn_entry ` {f \<in> set (discover walk e raw). fn_name f \<noteq> None} = fn_entry ` {f \<in> set (funcs l). fn_name f \<noteq> None}"
  using assms by (rule load_funcs)

lemma tiny_discover: "discover tiny_walk tiny_elf tiny_raw =
      [\<lparr>fn_name = None, fn_entry = 0x1002, fn_size = 3, fn_source = Symtab\<rparr>,
       \<lparr>fn_name = Some ''inc'', fn_entry = 0x1002, fn_size = 3, fn_source = DynSym\<rparr>,
       \<lparr>fn_name = None, fn_entry = 0x1005, fn_size = 3, fn_source = EhFrame\<rparr>]"
  by (simp add: discover_def tiny_elf_def tiny_walk_def tiny_raw_def eh_frame_funcs_def file_window_def usize_max_def
      MAX_FUNCS_def STT_FUNC_def sym_name_def clamp_name_def MAX_NAME_def plt_ranges_def Let_def)

lemma tiny_loads:
  "\<exists>l. load (\<lambda>_. Some tiny_elf) tiny_walk tiny_raw = Inr l \<and> set (funcs l) \<subseteq> set (discover tiny_walk tiny_elf tiny_raw)"
proof -
  have r: "length tiny_raw < 2 ^ 64" by (simp add: tiny_length)
  have "arch_of (e_machine tiny_elf) = Inr X86_64" by (simp add: tiny_elf_def arch_of_def)
  then obtain l where l: "load (\<lambda>_. Some tiny_elf) tiny_walk tiny_raw = Inr l"
    using tiny_acceptable load_Inr [OF r] by blast
  have "set (funcs l) \<subseteq> set (discover tiny_walk tiny_elf tiny_raw)"
    using load_funcs [of "\<lambda>_. Some tiny_elf" tiny_raw tiny_elf tiny_walk l, OF refl l] by (elim conjE) assumption
  then show ?thesis by (intro exI conjI) (rule l)
qed

text \<open>At the small file: the empty name of the static symbol loses to the dynamic one, and the unwind entry at a
  known address is dropped.\<close>

theorem load_functions_witness:
  "\<exists>l. load (\<lambda>_. Some tiny_elf) tiny_walk tiny_raw = Inr l
     \<and> set (map fn_entry (funcs l)) = {0x1002, 0x1005} \<and> 0x1002 \<in> fn_entry ` {f \<in> set (funcs l). fn_name f \<noteq> None}"
proof -
  obtain l where l: "load (\<lambda>_. Some tiny_elf) tiny_walk tiny_raw = Inr l" using tiny_loads by blast
  let ?d = "[\<lparr>fn_name = None, fn_entry = 0x1002, fn_size = 3, fn_source = Symtab\<rparr>,
       \<lparr>fn_name = Some ''inc'', fn_entry = 0x1002, fn_size = 3, fn_source = DynSym\<rparr>,
       \<lparr>fn_name = None, fn_entry = 0x1005, fn_size = 3, fn_source = EhFrame\<rparr>] :: Func list"
  note L = load_functions [of "\<lambda>_. Some tiny_elf" tiny_raw tiny_elf tiny_walk l, unfolded tiny_discover, OF refl l]
  have "\<lparr>fn_name = Some ''inc'', fn_entry = 0x1002, fn_size = 3, fn_source = DynSym\<rparr> \<in> {f \<in> set ?d. fn_name f \<noteq> None}"
    by simp
  then have "0x1002 \<in> fn_entry ` {f \<in> set ?d. fn_name f \<noteq> None}" by (rule rev_image_eqI) simp
  then have "0x1002 \<in> fn_entry ` {f \<in> set (funcs l). fn_name f \<noteq> None}" using L by blast
  moreover have "set (map fn_entry (funcs l)) = {0x1002, 0x1005}" using L by simp
  ultimately show ?thesis using l by blast
qed

end
