(* ===== verification/Plt.thy ===== *)
theory Plt
  imports Loader
begin

text \<open>
  The import table of the loader (\<open>plt_imports\<close> of \<open>crates/fnprint-loader/src/lib.rs\<close>): what the two stub decoders
  do on the stubs linkers emit, and which addresses the table names.
\<close>

section \<open>Stubs\<close>

definition le32_bytes :: "u32 \<Rightarrow> u8 list" where
  "le32_bytes w = map (\<lambda>i. ucast (drop_bit (8 * i) w)) [0..<4]"

lemma le32_bytes_unfold: "le32_bytes w = [ucast w, ucast (drop_bit 8 w), ucast (drop_bit 16 w), ucast (drop_bit 24 w)]"
  by (simp add: le32_bytes_def upt_rec)

lemma le32_le32_bytes: "le32 (le32_bytes w) = w"
proof -
  let ?n = "unat w"
  have b: "unat (ucast (drop_bit k w) :: u8) = ?n div 2 ^ k mod 256" for k
  proof -
    have "unat (ucast (drop_bit k w) :: u8) = take_bit 8 (drop_bit k (unat w))"
      using unsigned_less [of w, where ?'a = nat]
      by (simp add: unsigned_ucast_eq unsigned_drop_bit_eq take_bit_nat_eq_self)
    then show ?thesis by (simp add: take_bit_eq_mod drop_bit_eq_div)
  qed
  have n: "?n < 2 ^ 32" using unsigned_less [of w, where ?'a = nat] by simp
  have "of_le (le32_bytes w) = ?n mod 256 + 256 * (?n div 2 ^ 8 mod 256 + 256 * (?n div 2 ^ 16 mod 256 + 256 * (?n div 2 ^ 24 mod 256)))"
    using b [of 0] b [of 8] b [of 16] b [of 24] by (simp add: of_le_def le32_bytes_unfold)
  also have "\<dots> = ?n"
  proof -
    have s: "?n div 2 ^ 16 = ?n div 2 ^ 8 div 256" "?n div 2 ^ 24 = ?n div 2 ^ 8 div 256 div 256"
      by (simp_all flip: div_mult2_eq)
    have "?n div 2 ^ 24 < 256" using n by (simp add: div_less_iff_less_mult)
    then have "?n div 2 ^ 24 mod 256 = ?n div 2 ^ 24" by simp
    then show ?thesis unfolding s by (simp add: div_mult_mod_eq mod_div_mult_eq mod_mult_div_eq)
  qed
  finally show ?thesis by (simp add: le32_def)
qed

text \<open>The stubs a linker emits: \<open>jmp [rip+disp32]\<close> with either prefix, padded to 16 bytes, and
  \<open>adrp x16; ldr x17, [x16, #lo12]; add x16, x16, #lo12; br x17\<close>.\<close>

definition x86_stub :: "bool \<Rightarrow> bool \<Rightarrow> u64 \<Rightarrow> u64 \<Rightarrow> u8 list" where
  "x86_stub endbr bnd stub_addr slot =
     (let pre = (if endbr then [0xf3, 0x0f, 0x1e, 0xfa] else []) @ (if bnd then [0xf2] else []);
          disp = slot - (stub_addr + (of_nat (length pre) + 6));
          code = pre @ [0xff, 0x25] @ le32_bytes (ucast disp)
      in code @ replicate (16 - length code) 0x90)"

definition aarch64_stub :: "u64 \<Rightarrow> u64 \<Rightarrow> u8 list" where
  "aarch64_stub stub_addr slot =
     (let d = drop_bit 12 slot - drop_bit 12 stub_addr;
          w0 = 0x90000010 OR push_bit 29 (ucast d AND 0x3) OR push_bit 5 (ucast (drop_bit 2 d) AND 0x7ffff);
          lo12 = push_bit 10 (ucast (drop_bit 3 slot) AND 0x1ff)
      in le32_bytes w0 @ le32_bytes (0xf9400211 OR lo12) @ le32_bytes (0x91000210 OR push_bit 3 lo12)
         @ le32_bytes 0xd61f0220)"

lemma sext32_ucast:
  assumes "- (2 ^ 31) \<le> sint x" and "sint x < 2 ^ 31"
  shows "sext32 (ucast (x :: u64)) = x"
proof -
  have "sint (ucast x :: u32) = signed_take_bit 31 (uint x)"
    by (simp add: signed_ucast_eq)
  also have "\<dots> = signed_take_bit 31 (sint x)"
    by (simp add: sint_uint signed_take_bit_signed_take_bit)
  also have "\<dots> = sint x" using assms by (simp add: signed_take_bit_int_eq_self)
  finally show ?thesis by (simp add: sext32_def scast_eq)
qed


lemma find_jmp_rip_stub:
  "find_jmp_rip ((if e then [0xf3, 0x0f, 0x1e, 0xfa] else []) @ (if b then [0xf2] else []) @ [0xff, 0x25] @ le32_bytes w @ rest)
    = Some ((if e then 4 else 0) + (if b then 1 else 0))"
  by (cases e; cases b) (simp_all add: find_jmp_rip_def le32_bytes_unfold Let_def)

lemma x86_stub_slot:
  assumes "- (2 ^ 31) \<le> sint (slot - (addr + (of_nat ((if e then 4 else 0) + (if b then 1 else 0)) + 6)))"
    and "sint (slot - (addr + (of_nat ((if e then 4 else 0) + (if b then 1 else 0)) + 6))) < 2 ^ 31"
  shows "x86_plt_slot (x86_stub e b addr slot) addr = Some slot"
proof -
  let ?n = "(if e then 4 else 0) + (if b then 1 else 0) :: nat"
  let ?pre = "(if e then [0xf3, 0x0f, 0x1e, 0xfa] else []) @ (if b then [0xf2] else []) :: u8 list"
  let ?d = "slot - (addr + (of_nat ?n + 6))"
  have len: "length ?pre = ?n" by simp
  obtain pad where "x86_stub e b addr slot = (?pre @ [0xff, 0x25] @ le32_bytes (ucast ?d)) @ pad"
    unfolding x86_stub_def Let_def len by blast
  then have st: "x86_stub e b addr slot = (if e then [0xf3, 0x0f, 0x1e, 0xfa] else []) @ (if b then [0xf2] else [])
      @ [0xff, 0x25] @ le32_bytes (ucast ?d) @ pad" by simp
  have t: "take 4 (drop (?n + 2) (x86_stub e b addr slot)) = le32_bytes (ucast ?d)"
    unfolding st by (simp add: le32_bytes_unfold)
  have s: "sext32 (ucast ?d) = ?d" by (rule sext32_ucast [OF assms])
  show ?thesis
    unfolding x86_plt_slot_def find_jmp_rip_stub [of e b "ucast ?d" pad, folded st] option.map Let_def t le32_le32_bytes s
    by (simp add: algebra_simps)
qed

lemma shift_pair_bit:
  fixes x :: u64
  assumes "n < 64"
  shows "bit (signed_drop_bit 43 (push_bit 43 x)) n \<longleftrightarrow> bit x (min 20 n)"
  using assms by (cases "n < 21") (simp_all add: bit_signed_drop_bit_iff bit_push_bit_iff)

lemma aarch64_imm:
  fixes d :: u64
  assumes "- (2 ^ 20) \<le> sint d" and "sint d < 2 ^ 20"
  shows "signed_drop_bit 43 (push_bit 43 (push_bit 2 (drop_bit 2 d AND 0x7ffff) OR (d AND 0x3))) = d"
proof -
  have e: "signed_take_bit 20 (sint d) = sint d" using assms by (simp add: signed_take_bit_int_eq_self)
  have "bit (signed_take_bit 20 (sint d)) n = bit (sint d) (min n 20)" for n
    by (simp add: bit_signed_take_bit_iff min.commute)
  then have b: "bit (sint d) n = bit (sint d) (min n 20)" for n by (simp only: e)
  have d: "bit d n \<longleftrightarrow> bit d (min 20 n)" if "n < 64" for n
  proof -
    have "bit (sint d) k \<longleftrightarrow> bit d k" if "k < 64" for k
      using that bit_sint_iff [of d k] by (auto dest: bit_imp_le_length)
    then show ?thesis using b [of n] that by (simp add: min.commute)
  qed
  have m: "(0x7ffff :: u64) = mask 19" "(0x3 :: u64) = mask 2" by (simp_all add: mask_eq_exp_minus_1)
  show ?thesis
  proof (rule bit_word_eqI)
    fix n assume n: "n < LENGTH(64)"
    let ?x = "push_bit 2 (drop_bit 2 d AND 0x7ffff) OR (d AND 0x3)"
    have "bit (signed_drop_bit 43 (push_bit 43 ?x)) n \<longleftrightarrow> bit ?x (min 20 n)"
      using n by (intro shift_pair_bit) simp
    also have "bit ?x k \<longleftrightarrow> bit d k" if "k \<le> 20" for k
      using that le_add_diff_inverse2 [of 2 k] by (cases "k < 2") (auto simp: m bit_push_bit_iff bit_or_iff bit_and_iff bit_mask_iff bit_drop_bit_eq)
    then have "bit ?x (min 20 n) \<longleftrightarrow> bit d (min 20 n)" by simp
    also have "\<dots> \<longleftrightarrow> bit d n" using d [of n] n by simp
    finally show "bit (signed_drop_bit 43 (push_bit 43 ?x)) n = bit d n" .
  qed
qed

lemma push_and: "push_bit k x AND m = push_bit k (x AND drop_bit k m)" for x :: "'a::len word"
  by (rule bit_word_eqI) (auto simp: bit_push_bit_iff bit_and_iff bit_drop_bit_eq)

lemma drop_bit_masked:
  fixes x m c :: "'a::len word"
  assumes "drop_bit k c = m"
  shows "drop_bit k x AND m = drop_bit k (x AND c)"
  using assms by (metis drop_bit_and)

lemma push_and_zero: "m AND drop_bit k c = 0 \<Longrightarrow> push_bit k (x AND m) AND c = 0" for x :: "'a::len word"
  by (simp only: push_and and.assoc) simp

lemma push_and_same: "m AND drop_bit k c = m \<Longrightarrow> push_bit k (x AND m) AND c = push_bit k (x AND m)"
  for x :: "'a::len word"
  by (simp only: push_and and.assoc)

lemma drop_push_mask: "j + k \<le> LENGTH('a) \<Longrightarrow> drop_bit k (push_bit k (x AND mask j)) = x AND mask j"
  for x :: "'a::len word"
  by (rule bit_word_eqI) (auto simp: bit_push_bit_iff bit_and_iff bit_drop_bit_eq bit_mask_iff)

lemma masks: "mask 2 = (0x3 :: 'a::len word)" "mask 19 = (0x7ffff :: 'a::len word)" "mask 12 = (0xfff :: 'a::len word)"
  "mask 9 = (0x1ff :: 'a::len word)"
  by (simp_all add: mask_eq_exp_minus_1)

lemma adrp_fields:
  fixes a b :: u32
  defines "w \<equiv> 0x90000010 OR push_bit 29 (a AND 0x3) OR push_bit 5 (b AND 0x7ffff)"
  shows "w AND 0x9f000000 = 0x90000000" and "drop_bit 29 w AND 0x3 = a AND 0x3" and "drop_bit 5 w AND 0x7ffff = b AND 0x7ffff"
proof -
  have d: "drop_bit 29 (push_bit 29 (a AND 0x3)) = a AND 0x3" "drop_bit 5 (push_bit 5 (b AND 0x7ffff)) = b AND 0x7ffff"
    using drop_push_mask [of 2 29 a] drop_push_mask [of 19 5 b] by (simp_all add: masks)
  have "push_bit 29 (a AND 0x3) AND 0x9f000000 = 0" "push_bit 5 (b AND 0x7ffff) AND 0x9f000000 = 0"
    by (rule push_and_zero; simp)+
  then show "w AND 0x9f000000 = 0x90000000"
    unfolding w_def bit.conj_disj_distrib2 by (simp only:) simp
  have "drop_bit 29 w AND 0x3 = drop_bit 29 (w AND 0x60000000)"
    using drop_bit_masked [where k = 29 and c = "0x60000000 :: u32" and m = "0x3" and x = w] by simp
  also have "w AND 0x60000000 = push_bit 29 (a AND 0x3)"
  proof -
    have "push_bit 29 (a AND 0x3) AND 0x60000000 = push_bit 29 (a AND 0x3)" by (rule push_and_same) simp
    moreover have "push_bit 5 (b AND 0x7ffff) AND 0x60000000 = 0" by (rule push_and_zero) simp
    ultimately show ?thesis unfolding w_def bit.conj_disj_distrib2 by (simp only:) simp
  qed
  finally show "drop_bit 29 w AND 0x3 = a AND 0x3" by (simp only: d)
  have "drop_bit 5 w AND 0x7ffff = drop_bit 5 (w AND 0xffffe0)"
    using drop_bit_masked [where k = 5 and c = "0xffffe0 :: u32" and m = "0x7ffff" and x = w] by simp
  also have "w AND 0xffffe0 = push_bit 5 (b AND 0x7ffff)"
  proof -
    have "push_bit 29 (a AND 0x3) AND 0xffffe0 = 0" by (rule push_and_zero) simp
    moreover have "push_bit 5 (b AND 0x7ffff) AND 0xffffe0 = push_bit 5 (b AND 0x7ffff)" by (rule push_and_same) simp
    moreover have "(0x90000010 :: u32) AND 0xffffe0 = 0" by simp
    ultimately show ?thesis unfolding w_def bit.conj_disj_distrib2 by (simp only: or.left_neutral)
  qed
  finally show "drop_bit 5 w AND 0x7ffff = b AND 0x7ffff" by (simp only: d)
qed

lemma ldr_fields:
  fixes a :: u32
  defines "w \<equiv> 0xf9400211 OR push_bit 10 (a AND 0x1ff)"
  shows "w AND 0xffc00000 = 0xf9400000" and "drop_bit 10 w AND 0xfff = a AND 0x1ff"
proof -
  have d: "drop_bit 10 (push_bit 10 (a AND 0x1ff)) = a AND 0x1ff"
    using drop_push_mask [of 9 10 a] by (simp add: masks)
  have "push_bit 10 (a AND 0x1ff) AND 0xffc00000 = 0" by (rule push_and_zero) simp
  then show "w AND 0xffc00000 = 0xf9400000"
    unfolding w_def bit.conj_disj_distrib2 by (simp only:) simp
  have "drop_bit 10 w AND 0xfff = drop_bit 10 (w AND 0x3ffc00)"
    using drop_bit_masked [where k = 10 and c = "0x3ffc00 :: u32" and m = "0xfff" and x = w] by simp
  also have "w AND 0x3ffc00 = push_bit 10 (a AND 0x1ff)"
  proof -
    have "push_bit 10 (a AND 0x1ff) AND 0x3ffc00 = push_bit 10 (a AND 0x1ff)" by (rule push_and_same) simp
    moreover have "(0xf9400211 :: u32) AND 0x3ffc00 = 0" by simp
    ultimately show ?thesis unfolding w_def bit.conj_disj_distrib2 by (simp only: or.left_neutral)
  qed
  finally show "drop_bit 10 w AND 0xfff = a AND 0x1ff" by (simp only: d)
qed

lemma ucast_and_mask: "ucast (ucast (d :: u64) AND mask k :: u32) = d AND mask k" if "k \<le> 32"
  using that by (intro bit_word_eqI) (auto simp: bit_simps)

lemma page_split:
  fixes slot :: u64
  assumes "slot AND 7 = 0"
  shows "push_bit 12 (drop_bit 12 slot) + (drop_bit 3 slot AND 0x1ff) * 8 = slot"
proof -
  have m: "(drop_bit 3 slot AND 0x1ff) * 8 = push_bit 3 (drop_bit 3 slot AND mask 9)"
    by (simp add: push_bit_eq_mult masks)
  have z: "\<not> bit slot n" if "n < 3" for n
  proof -
    have "bit (slot AND mask 3) n = False" using assms by (simp add: mask_eq_exp_minus_1)
    then show ?thesis using that by (simp add: bit_and_iff bit_mask_iff)
  qed
  have "\<not> bit (push_bit 12 (drop_bit 12 slot)) n \<or> \<not> bit (push_bit 3 (drop_bit 3 slot AND mask 9)) n" for n
    by (auto simp: bit_push_bit_iff bit_and_iff bit_drop_bit_eq bit_mask_iff)
  then have "push_bit 12 (drop_bit 12 slot) + push_bit 3 (drop_bit 3 slot AND mask 9)
      = push_bit 12 (drop_bit 12 slot) OR push_bit 3 (drop_bit 3 slot AND mask 9)"
    by (intro disjunctive_add) blast
  also have "\<dots> = slot"
  proof (rule bit_word_eqI)
    fix n assume n: "n < LENGTH(64)"
    consider "n < 3" | "3 \<le> n" "n < 12" | "12 \<le> n" by linarith
    then show "bit (push_bit 12 (drop_bit 12 slot) OR push_bit 3 (drop_bit 3 slot AND mask 9)) n = bit slot n"
      by cases (use z n in \<open>auto simp: bit_push_bit_iff bit_or_iff bit_and_iff bit_drop_bit_eq bit_mask_iff\<close>)
  qed
  finally show ?thesis using m by simp
qed

lemma aarch64_stub_slot:
  assumes "slot AND 7 = 0" and "- (2 ^ 20) \<le> sint (drop_bit 12 slot - drop_bit 12 addr)"
    and "sint (drop_bit 12 slot - drop_bit 12 addr) < 2 ^ 20"
  shows "aarch64_plt_slot (aarch64_stub addr slot) addr = Some slot"
proof -
  let ?d = "drop_bit 12 slot - drop_bit 12 addr"
  let ?w0 = "0x90000010 OR push_bit 29 (ucast ?d AND 0x3) OR push_bit 5 (ucast (drop_bit 2 ?d) AND 0x7ffff) :: u32"
  let ?w1 = "0xf9400211 OR push_bit 10 (ucast (drop_bit 3 slot) AND 0x1ff) :: u32"
  have t: "take 4 (aarch64_stub addr slot) = le32_bytes ?w0" "take 4 (drop 4 (aarch64_stub addr slot)) = le32_bytes ?w1"
    by (simp_all add: aarch64_stub_def Let_def le32_bytes_unfold)
  have u: "ucast (ucast ?d AND 0x3 :: u32) = ?d AND (0x3 :: u64)"
    "ucast (ucast (drop_bit 2 ?d) AND 0x7ffff :: u32) = drop_bit 2 ?d AND (0x7ffff :: u64)"
    "ucast (ucast (drop_bit 3 slot) AND 0x1ff :: u32) = drop_bit 3 slot AND (0x1ff :: u64)"
    using ucast_and_mask [of 2 ?d] ucast_and_mask [of 19 "drop_bit 2 ?d"] ucast_and_mask [of 9 "drop_bit 3 slot"]
    by (simp_all add: masks)
  have p: "addr AND NOT 0xfff = push_bit 12 (drop_bit 12 addr)"
    by (rule bit_word_eqI) (auto simp: masks(3) [symmetric] bit_push_bit_iff bit_and_iff bit_not_iff bit_drop_bit_eq bit_mask_iff)
  have s: "push_bit 12 (drop_bit 12 addr) + push_bit 12 ?d = push_bit 12 (drop_bit 12 slot)"
    by (simp add: push_bit_eq_mult algebra_simps)
  show ?thesis
    unfolding aarch64_plt_slot_def t le32_le32_bytes Let_def adrp_fields ldr_fields u p aarch64_imm [OF assms(2,3)] s
      page_split [OF assms(1)]
    by simp
qed

text \<open>The stub of each architecture and the distance its encoding reaches.\<close>

fun linker_stub :: "Arch \<Rightarrow> bool \<Rightarrow> bool \<Rightarrow> u64 \<Rightarrow> u64 \<Rightarrow> u8 list" where
  "linker_stub X86_64 e b addr slot = x86_stub e b addr slot"
| "linker_stub Aarch64 e b addr slot = aarch64_stub addr slot"

fun reaches :: "Arch \<Rightarrow> bool \<Rightarrow> bool \<Rightarrow> u64 \<Rightarrow> u64 \<Rightarrow> bool" where
  "reaches X86_64 e b addr slot \<longleftrightarrow>
     (let d = sint (slot - (addr + (of_nat ((if e then 4 else 0) + (if b then 1 else 0)) + 6)))
      in - (2 ^ 31) \<le> d \<and> d < 2 ^ 31)"
| "reaches Aarch64 e b addr slot \<longleftrightarrow>
     slot AND 7 = 0 \<and> (let d = sint (drop_bit 12 slot - drop_bit 12 addr) in - (2 ^ 20) \<le> d \<and> d < 2 ^ 20)"

text \<open>C34: Decoding a PLT stub inverts what a linker emits: for every stub address and every slot in reach, the
  x86-64 stub with or without its \<open>endbr64\<close> and \<open>bnd\<close> prefixes and the aarch64 stub decode to the slot
  they jump through.\<close>

theorem plt_slot_roundtrip:
  assumes "reaches arch e b addr slot"
  shows "plt_slot arch (linker_stub arch e b addr slot) addr = Some slot"
  using assms x86_stub_slot [of slot addr e b] aarch64_stub_slot [of slot addr]
  by (cases arch) (simp_all add: plt_slot_def Let_def)

theorem plt_slot_roundtrip_witness:
  "plt_slot X86_64 (linker_stub X86_64 True True 0x1020 0x3fd8) 0x1020 = Some 0x3fd8
   \<and> plt_slot Aarch64 (linker_stub Aarch64 False False 0x10610 0x1f018) 0x10610 = Some 0x1f018"
proof -
  have "reaches X86_64 True True 0x1020 0x3fd8" "reaches Aarch64 False False 0x10610 0x1f018" by simp_all
  then show ?thesis using plt_slot_roundtrip by blast
qed

text \<open>The names that the stubs of a section's bytes give, from an offset on, and those of the PLT sections.\<close>

definition data_names :: "Arch \<Rightarrow> (u64 \<rightharpoonup> string) \<Rightarrow> u64 \<Rightarrow> u8 list \<Rightarrow> nat \<Rightarrow> (u64 \<times> string) set" where
  "data_names arch out addr data off =
     {(addr + of_nat (off + 16 * i), n) | i s n. off + 16 * i + 16 \<le> length data
        \<and> plt_slot arch (take 16 (drop (off + 16 * i) data)) (addr + of_nat (off + 16 * i)) = Some s \<and> out s = Some n}"

definition stub_names :: "elf \<Rightarrow> u8 list \<Rightarrow> Arch \<Rightarrow> (u64 \<rightharpoonup> string) \<Rightarrow> section_header list \<Rightarrow> (u64 \<times> string) set" where
  "stub_names e raw arch out shs = (\<Union>sh \<in> {sh \<in> set shs. plt_section e sh}.
     case file_window raw sh of None \<Rightarrow> {} | Some data \<Rightarrow> data_names arch out (sh_addr sh) data 0)"

lemma data_names_end: "\<not> off + 16 \<le> length data \<Longrightarrow> data_names arch out addr data off = {}"
  by (auto simp: data_names_def)

lemma data_names_step:
  assumes "off + 16 \<le> length data"
  shows "data_names arch out addr data off =
    (case Option.bind (plt_slot arch (take 16 (drop off data)) (addr + of_nat off)) out of
       Some n \<Rightarrow> {(addr + of_nat off, n)} | None \<Rightarrow> {}) \<union> data_names arch out addr data (off + 16)"
proof (rule set_eqI)
  fix x
  let ?P = "\<lambda>k. \<exists>s n. x = (addr + of_nat k, n) \<and> k + 16 \<le> length data
    \<and> plt_slot arch (take 16 (drop k data)) (addr + of_nat k) = Some s \<and> out s = Some n"
  have mem: "x \<in> data_names arch out addr data b \<longleftrightarrow> (\<exists>i. ?P (b + 16 * i))" for b
    unfolding data_names_def by blast
  have split: "(\<exists>i. ?P (off + 16 * i)) \<longleftrightarrow> ?P off \<or> (\<exists>i. ?P (off + 16 + 16 * i))"
  proof
    assume "\<exists>i. ?P (off + 16 * i)"
    then obtain i where i: "?P (off + 16 * i)" ..
    show "?P off \<or> (\<exists>i. ?P (off + 16 + 16 * i))"
    proof (cases i)
      case 0
      with i show ?thesis by simp
    next
      case (Suc j)
      with i have "?P (off + 16 + 16 * j)" by (simp add: ac_simps)
      then show ?thesis by blast
    qed
  next
    assume "?P off \<or> (\<exists>i. ?P (off + 16 + 16 * i))"
    then show "\<exists>i. ?P (off + 16 * i)"
    proof
      assume "?P off"
      then have "?P (off + 16 * 0)" by simp
      then show ?thesis by blast
    next
      assume "\<exists>i. ?P (off + 16 + 16 * i)"
      then obtain i where "?P (off + 16 + 16 * i)" ..
      then have "?P (off + 16 * Suc i)" by (simp add: ac_simps)
      then show ?thesis by blast
    qed
  qed
  have "?P off \<longleftrightarrow> x \<in> (case Option.bind (plt_slot arch (take 16 (drop off data)) (addr + of_nat off)) out of
       Some n \<Rightarrow> {(addr + of_nat off, n)} | None \<Rightarrow> {})"
    using assms by (auto split: option.split bind_splits)
  with split show "x \<in> data_names arch out addr data off \<longleftrightarrow> x \<in> (case Option.bind (plt_slot arch (take 16 (drop off data)) (addr + of_nat off)) out of
       Some n \<Rightarrow> {(addr + of_nat off, n)} | None \<Rightarrow> {}) \<union> data_names arch out addr data (off + 16)"
    unfolding mem Un_iff by blast
qed

lemma scan_stubs_set:
  "set (scan_stubs arch out addr data off stubs) \<subseteq> set stubs \<union> data_names arch out addr data off
   \<and> (length (scan_stubs arch out addr data off stubs) < MAX_FUNCS
      \<longrightarrow> set (scan_stubs arch out addr data off stubs) = set stubs \<union> data_names arch out addr data off)
   \<and> length stubs \<le> length (scan_stubs arch out addr data off stubs)"
proof (induction arch out addr data off stubs rule: scan_stubs.induct)
  case (1 arch out addr data off stubs)
  let ?stubs' = "case Option.bind (plt_slot arch (take 16 (drop off data)) (addr + of_nat off)) out of
     Some n \<Rightarrow> stubs @ [(addr + of_nat off, n)] | None \<Rightarrow> stubs"
  show ?case
  proof (cases "off + 16 \<le> length data \<and> length stubs < MAX_FUNCS")
    case True
    then have s: "scan_stubs arch out addr data off stubs = scan_stubs arch out addr data (off + 16) ?stubs'"
      by (subst scan_stubs.simps) (simp add: Let_def)
    have st: "set ?stubs' = set stubs \<union> (case Option.bind (plt_slot arch (take 16 (drop off data)) (addr + of_nat off)) out of
       Some n \<Rightarrow> {(addr + of_nat off, n)} | None \<Rightarrow> {})" "length stubs \<le> length ?stubs'"
      by (auto split: option.split)
    have IH: "set (scan_stubs arch out addr data (off + 16) ?stubs') \<subseteq> set ?stubs' \<union> data_names arch out addr data (off + 16)
       \<and> (length (scan_stubs arch out addr data (off + 16) ?stubs') < MAX_FUNCS
          \<longrightarrow> set (scan_stubs arch out addr data (off + 16) ?stubs') = set ?stubs' \<union> data_names arch out addr data (off + 16))
       \<and> length ?stubs' \<le> length (scan_stubs arch out addr data (off + 16) ?stubs')"
      by (rule 1 [OF True refl refl refl])
    have d: "data_names arch out addr data off =
      (case Option.bind (plt_slot arch (take 16 (drop off data)) (addr + of_nat off)) out of
       Some n \<Rightarrow> {(addr + of_nat off, n)} | None \<Rightarrow> {}) \<union> data_names arch out addr data (off + 16)"
      using True by (intro data_names_step) simp
    show ?thesis unfolding s d using IH st by auto
  next
    case False
    then have s: "scan_stubs arch out addr data off stubs = stubs" by (subst scan_stubs.simps) auto
    show ?thesis
    proof (cases "off + 16 \<le> length data")
      case True
      then show ?thesis using False s by auto
    next
      case no: False
      then show ?thesis by (simp add: s data_names_end)
    qed
  qed
qed

lemma scan_sections_set:
  "set (scan_sections e raw arch out shs stubs) \<subseteq> set stubs \<union> stub_names e raw arch out shs
   \<and> (length (scan_sections e raw arch out shs stubs) < MAX_FUNCS
      \<longrightarrow> set (scan_sections e raw arch out shs stubs) = set stubs \<union> stub_names e raw arch out shs)
   \<and> length stubs \<le> length (scan_sections e raw arch out shs stubs)"
proof (induction e raw arch out shs stubs rule: scan_sections.induct)
  case (1 e raw arch out stubs)
  then show ?case by (simp add: stub_names_def)
next
  case (2 e raw arch out sh shs stubs)
  show ?case
  proof (cases "plt_section e sh \<and> file_window raw sh \<noteq> None")
    case True
    then obtain data where f: "file_window raw sh = Some data" and p: "plt_section e sh" by blast
    let ?s = "scan_stubs arch out (sh_addr sh) data 0 stubs"
    have s: "scan_sections e raw arch out (sh # shs) stubs = scan_sections e raw arch out shs ?s"
      using f p by simp
    have n: "stub_names e raw arch out (sh # shs) = data_names arch out (sh_addr sh) data 0 \<union> stub_names e raw arch out shs"
    proof -
      have "{h \<in> set (sh # shs). plt_section e h} = insert sh {h \<in> set shs. plt_section e h}" using p by auto
      then show ?thesis using f by (simp add: stub_names_def)
    qed
    have ih: "set (scan_sections e raw arch out shs ?s) \<subseteq> set ?s \<union> stub_names e raw arch out shs
       \<and> (length (scan_sections e raw arch out shs ?s) < MAX_FUNCS
          \<longrightarrow> set (scan_sections e raw arch out shs ?s) = set ?s \<union> stub_names e raw arch out shs)
       \<and> length ?s \<le> length (scan_sections e raw arch out shs ?s)"
      by (rule 2(3)) (use p f in auto)
    show ?thesis unfolding s n using ih scan_stubs_set [of arch out "sh_addr sh" data 0 stubs] by auto
  next
    case False
    then have "stub_names e raw arch out (sh # shs) = stub_names e raw arch out shs" by (auto simp: stub_names_def split: option.splits)
    then show ?thesis using 2 False by (cases "plt_section e sh") auto
  qed
qed

definition reloc_names :: "elf \<Rightarrow> reloc list \<Rightarrow> (u64 \<times> string) set" where
  "reloc_names e rs = {(r_offset r, clamp_name n) | r n. r \<in> set rs
     \<and> r_sym r < length (dynsyms e) \<and> dynstrtab e (st_name (dynsyms e ! r_sym r)) = Some n \<and> n \<noteq> []}"

lemma reloc_names_mono: "reloc_names e rs \<subseteq> reloc_names e (r # rs)"
  unfolding reloc_names_def by auto

lemma reloc_names_here:
  "r_sym r < length (dynsyms e) \<Longrightarrow> dynstrtab e (st_name (dynsyms e ! r_sym r)) = Some n \<Longrightarrow> n \<noteq> [] \<Longrightarrow>
   (r_offset r, clamp_name n) \<in> reloc_names e (r # rs)"
  unfolding reloc_names_def by auto

lemma set_update_subset: "set (AList.update k v xs) \<subseteq> insert (k, v) (set xs)"
  by (induction xs) auto

lemma import_slots_set: "set (import_slots e rs out) \<subseteq> set out \<union> reloc_names e rs"
proof (induction e rs out rule: import_slots.induct)
  case (2 e r rs out)
  consider "length out \<ge> MAX_FUNCS" | "\<not> length out \<ge> MAX_FUNCS" "r_sym r \<ge> length (dynsyms e)"
    | "\<not> length out \<ge> MAX_FUNCS" "\<not> r_sym r \<ge> length (dynsyms e)" by blast
  then show ?case
  proof cases
    case 1
    then show ?thesis by auto
  next
    case c: 2
    then show ?thesis using 2(1) [OF c] reloc_names_mono [of e rs r] by auto
  next
    case c: 3
    show ?thesis
    proof (cases "dynstrtab e (st_name (dynsyms e ! r_sym r))")
      case None
      then show ?thesis using 2(2) [OF c None] c reloc_names_mono [of e rs r] by auto
    next
      case (Some n)
      show ?thesis
      proof (cases "n = []")
        case True
        then show ?thesis using 2(3) [OF c Some True] c Some reloc_names_mono [of e rs r] by auto
      next
        case False
        have "(r_offset r, clamp_name n) \<in> reloc_names e (r # rs)"
          by (rule reloc_names_here) (use c Some False in auto)
        moreover have "import_slots e (r # rs) out = import_slots e rs (AList.update (r_offset r) (clamp_name n) out)"
          using c Some False by simp
        ultimately show ?thesis
          using 2(4) [OF c Some False] set_update_subset [of "r_offset r" "clamp_name n" out] reloc_names_mono [of e rs r]
          by auto
      qed
    qed
  qed
qed simp

text \<open>Every entry of the import table is the clamped name of a relocation at its slot, or the name of the slot
  that a 16-byte stub of a PLT section jumps through; and every slot and every such stub has an entry, as long
  as the stubs stay below the bound of a million.\<close>

theorem plt_imports_spec:
  "let slots = import_slots e (pltrelocs e @ dynrelas e @ dynrels e) [];
       stubs = stub_names e raw arch (map_of slots) (section_headers e)
   in set slots \<subseteq> reloc_names e (pltrelocs e @ dynrelas e @ dynrels e)
      \<and> Map.graph (plt_imports e raw arch) \<subseteq> set slots \<union> stubs
      \<and> (MAX_FUNCS \<le> length (scan_sections e raw arch (map_of slots) (section_headers e) [])
         \<or> dom (plt_imports e raw arch) = fst ` (set slots \<union> stubs))"
proof -
  define slots where "slots = import_slots e (pltrelocs e @ dynrelas e @ dynrels e) []"
  let ?st = "stub_names e raw arch (map_of slots) (section_headers e)"
  let ?sc = "scan_sections e raw arch (map_of slots) (section_headers e) []"
  have sl: "set slots \<subseteq> reloc_names e (pltrelocs e @ dynrelas e @ dynrels e)"
    using import_slots_set [of e "pltrelocs e @ dynrelas e @ dynrels e" "[]"] by (simp add: slots_def)
  have sc: "set ?sc \<subseteq> ?st" "length ?sc < MAX_FUNCS \<Longrightarrow> set ?sc = ?st"
    using scan_sections_set [of e raw arch "map_of slots" "section_headers e" "[]"]
    by simp_all
  have p: "plt_imports e raw arch = (if slots = [] then Map.empty else collect_map (slots @ ?sc))"
    by (simp add: plt_imports_def slots_def [symmetric] Let_def)
  have e: "slots = [] \<Longrightarrow> ?st = {}" by (auto simp: stub_names_def data_names_def split: option.splits)
  have g: "Map.graph (plt_imports e raw arch) \<subseteq> set slots \<union> ?st"
    using sc(1) by (auto simp: p Map.graph_def dest!: collect_map_SomeD)
  have d: "dom (plt_imports e raw arch) = fst ` (set slots \<union> ?st)" if "length ?sc < MAX_FUNCS"
    using sc(2) [OF that] e by (auto simp: p dom_collect_map)
  show ?thesis unfolding slots_def [symmetric] Let_def using sl g d by force
qed

end
