(* ===== verification/Decode.thy ===== *)
theory Decode
  imports Plt
begin

text \<open>
  Instruction decoding of the emulator (\<open>crates/fnprint-emu/src/lib.rs\<close>): what kind of instruction the code hook
  sees, where a direct call or branch goes, the instruction starts of a body, and the static call graph of a
  function. Disassembling x86-64 is \<open>capstone\<close>'s: two parameters, for one instruction and for a whole buffer,
  which give an instruction's bytes and mnemonic. The aarch64 patterns are the program's own.
\<close>

section \<open>Instructions\<close>

datatype Kind =
    KCall "u64 option" bool
  | KRet
  | KSyscall
  | KBranch "u64 option"
  | KPlain

record insn =
  in_addr :: u64
  in_bytes :: "u8 list"
  in_mnem :: string

text \<open>\<open>disasm_count(buf, addr, 1)\<close>: the first instruction, if any; \<open>disasm_all(buf, addr)\<close>: all of them up to the
  first byte that does not decode, or an error.\<close>

type_synonym disasm_one = "u8 list \<Rightarrow> u64 \<Rightarrow> insn option"
type_synonym disasm_all = "u8 list \<Rightarrow> u64 \<Rightarrow> insn list option"

definition starts_with :: "string \<Rightarrow> string \<Rightarrow> bool" where
  "starts_with m p \<longleftrightarrow> take (length p) m = p"

text \<open>\<open>i32::from_le_bytes(b[k..k+4]) as i64 as u64\<close>.\<close>

definition rel32 :: "u8 list \<Rightarrow> nat \<Rightarrow> u64" where
  "rel32 b k = sext32 (le32 (take 4 (drop k b)))"

text \<open>Sign extension of an immediate of \<open>bits\<close> bits, counted in words.\<close>

definition a64_rel :: "u64 \<Rightarrow> u32 \<Rightarrow> nat \<Rightarrow> u64" where
  "a64_rel addr imm bits =
     (let shift = 64 - bits;
          off = signed_drop_bit shift (push_bit shift (ucast imm)) :: u64
      in addr + off * 4)"

definition branch_target :: "u64 \<Rightarrow> u64 \<Rightarrow> u8 list \<Rightarrow> u64 option" where
  "branch_target addr ilen buf =
     (if 0x70 \<le> buf ! 0 \<and> buf ! 0 \<le> 0x7f then Some (addr + ilen + scast (buf ! 1))
      else if buf ! 0 = 0x0f \<and> 0x80 \<le> buf ! 1 \<and> buf ! 1 \<le> 0x8f then Some (addr + ilen + rel32 buf 2)
      else None)"

definition decode_a64 :: "u64 \<Rightarrow> u8 list \<Rightarrow> Kind \<times> u64" where
  "decode_a64 addr buf =
     (if length buf < 4 then (KPlain, 4)
      else let w = le32 (take 4 buf) in
        (if w AND 0xfc000000 = 0x94000000 then KCall (Some (a64_rel addr (w AND 0x03ffffff) 26)) True
         else if w AND 0xfffffc1f = 0xd63f0000 then KCall None False
         else if w AND 0xfffffc1f = 0xd65f0000 then KRet
         else if w AND 0xffe0001f = 0xd4000001 then KSyscall
         else if w AND 0xff000010 = 0x54000000 \<or> w AND 0x7e000000 = 0x34000000
         then KBranch (Some (a64_rel addr (drop_bit 5 w AND 0x7ffff) 19))
         else if w AND 0x7e000000 = 0x36000000
         then KBranch (Some (a64_rel addr (drop_bit 5 w AND 0x3fff) 14))
         else KPlain, 4))"

text \<open>The x86-64 decoder; \<open>buf\<close> holds the 16 bytes at the program counter.\<close>

definition decode_x86 :: "disasm_one \<Rightarrow> u64 \<Rightarrow> u8 list \<Rightarrow> Kind \<times> u64" where
  "decode_x86 dis addr buf =
     (case dis buf addr of
        None \<Rightarrow> (KPlain, 1)
      | Some i \<Rightarrow>
          let ilen = of_nat (length (in_bytes i)); m = in_mnem i in
          (if starts_with m ''call'' then
             (if buf ! 0 = 0xe8 then KCall (Some (addr + ilen + rel32 buf 1)) True
              else if buf ! 0 = 0xff \<and> buf ! 1 = 0x15 then KCall (Some (addr + ilen + rel32 buf 2)) False
              else KCall None False)
           else if m = ''ret'' \<or> starts_with m ''ret'' then KRet
           else if m = ''syscall'' \<or> m = ''sysenter'' \<or> m = ''int'' then KSyscall
           else if starts_with m ''j'' \<and> m \<noteq> ''jmp'' then KBranch (branch_target addr ilen buf)
           else KPlain, ilen))"

text \<open>A disassembler is present exactly when the image is x86-64.\<close>

definition decode :: "disasm_one option \<Rightarrow> u64 \<Rightarrow> u8 list \<Rightarrow> Kind \<times> u64" where
  "decode cs addr buf = (case cs of None \<Rightarrow> decode_a64 addr buf | Some dis \<Rightarrow> decode_x86 dis addr buf)"

section \<open>Sweeps\<close>

definition SWEEP_CAP :: u64 where "SWEEP_CAP = 2 ^ 20"

definition body_code :: "Image \<Rightarrow> Func \<Rightarrow> u8 list option" where
  "body_code im f = code_at im (fn_entry f) (unat (min (fn_size f) SWEEP_CAP))"

text \<open>The loop over a body: decode what decodes, step past one byte when nothing does. The instructions come
  in the order of the sweep. \<open>lo + off as u64\<close> is a checked addition (the release profile keeps
  \<open>overflow-checks\<close>, with \<open>panic = abort\<close>): a sweep that passes the top of the address space aborts, \<open>None\<close>.\<close>

definition advance :: "insn list \<Rightarrow> nat" where
  "advance is = max (sum_list (map (\<lambda>i. length (in_bytes i)) is)) 1"

lemma advance_pos [simp]: "0 < advance is"
  by (simp add: advance_def)

function sweep :: "disasm_all \<Rightarrow> u64 \<Rightarrow> u8 list \<Rightarrow> nat \<Rightarrow> insn list option" where
  "sweep dis lo code off =
     (if off < length code then
        (if unat lo + off \<ge> 2 ^ 64 then None
         else case dis (drop off code) (lo + of_nat off) of
           None \<Rightarrow> Some []
         | Some is \<Rightarrow> map_option (append is) (sweep dis lo code (off + advance is)))
      else Some [])"
  by pat_completeness auto
termination
  by (relation "measure (\<lambda>(_, _, code, off). length code - off)") (auto intro: diff_less_mono2)

declare sweep.simps [simp del]

definition insn_starts :: "disasm_all option \<Rightarrow> Image \<Rightarrow> Func \<Rightarrow> u64 list option" where
  "insn_starts dis im f =
     (if im_arch im = Aarch64 then
        Some (map (\<lambda>i. fn_entry f + of_nat i * 4) [0..<unat (min (fn_size f) SWEEP_CAP) div 4])
      else case dis of
        None \<Rightarrow> Some []
      | Some d \<Rightarrow> (case body_code im f of
            None \<Rightarrow> Some []
          | Some code \<Rightarrow> map_option (map in_addr) (sweep d (fn_entry f) code 0)))"

section \<open>Static calls\<close>

definition fn_hi :: "Func \<Rightarrow> u64" where
  "fn_hi f = sat_add64 (fn_entry f) (fn_size f)"

definition seg_ranges :: "Image \<Rightarrow> (u64 \<times> u64) list" where
  "seg_ranges im = map (\<lambda>s. (seg_vaddr s, sat_add64 (seg_vaddr s) (of_nat (seg_len s)))) (segments im)"

definition in_ranges :: "(u64 \<times> u64) list \<Rightarrow> u64 \<Rightarrow> bool" where
  "in_ranges rs t = list_ex (\<lambda>(a, b). t \<ge> a \<and> t < b) rs"

text \<open>A resolved target: an import gives its name, an address inside the image is an edge.\<close>

definition note_target ::
  "(u64 \<rightharpoonup> string) \<Rightarrow> (u64 \<times> u64) list \<Rightarrow> u64 option \<Rightarrow> u64 list \<times> string list \<Rightarrow> u64 list \<times> string list" where
  "note_target imps rs t acc =
     (case t of
        None \<Rightarrow> acc
      | Some t \<Rightarrow>
          (case imps t of
             Some n \<Rightarrow> (fst acc, snd acc @ [n])
           | None \<Rightarrow> if in_ranges rs t then (fst acc @ [t], snd acc) else acc))"

definition a64_target :: "u64 \<Rightarrow> u64 \<Rightarrow> u64 \<Rightarrow> u32 \<Rightarrow> u64 option" where
  "a64_target lo hi a w =
     (if w AND 0xfc000000 = 0x94000000 then Some (a64_rel a (w AND 0x03ffffff) 26)
      else if w AND 0xfc000000 = 0x14000000
      then (let t = a64_rel a (w AND 0x03ffffff) 26 in if t \<ge> lo \<and> t < hi then None else Some t)
      else None)"

definition first_is :: "u8 list \<Rightarrow> u8 \<Rightarrow> bool" where
  "first_is b x \<longleftrightarrow> b \<noteq> [] \<and> hd b = x"

text \<open>The direct target of an instruction and the GOT slot it reads.\<close>

definition x86_target :: "u64 \<Rightarrow> u64 \<Rightarrow> insn \<Rightarrow> u64 option \<times> u64 option" where
  "x86_target lo hi i =
     (let b = in_bytes i; next_ip = in_addr i + of_nat (length b) in
      if first_is b 0xe8 \<and> length b \<ge> 5 then (Some (next_ip + rel32 b 1), None)
      else if first_is b 0xe9 \<and> length b \<ge> 5 \<and> in_mnem i = ''jmp''
      then (let t = next_ip + rel32 b 1 in (if t \<ge> lo \<and> t < hi then None else Some t, None))
      else if length b \<ge> 6 \<and> first_is b 0xff \<and> (b ! 1 = 0x15 \<or> b ! 1 = 0x25)
      then (None, Some (next_ip + rel32 b 2))
      else (None, None))"

definition x86_step ::
  "(u64 \<rightharpoonup> string) \<Rightarrow> (u64 \<times> u64) list \<Rightarrow> u64 \<Rightarrow> u64 \<Rightarrow> insn \<Rightarrow> u64 list \<times> string list \<Rightarrow> u64 list \<times> string list" where
  "x86_step imps rs lo hi i acc =
     (let (t, slot) = x86_target lo hi i;
          acc = (case Option.bind slot imps of Some n \<Rightarrow> (fst acc, snd acc @ [n]) | None \<Rightarrow> acc)
      in note_target imps rs t acc)"

definition a64_step ::
  "(u64 \<rightharpoonup> string) \<Rightarrow> (u64 \<times> u64) list \<Rightarrow> u64 \<Rightarrow> u64 \<Rightarrow> u8 list \<Rightarrow> nat \<Rightarrow> u64 list \<times> string list
    \<Rightarrow> u64 list \<times> string list" where
  "a64_step imps rs lo hi code i acc =
     note_target imps rs (a64_target lo hi (lo + of_nat i) (le32 (take 4 (drop i code)))) acc"

definition static_calls ::
  "disasm_all option \<Rightarrow> Image \<Rightarrow> Func \<Rightarrow> (u64 \<rightharpoonup> string) \<Rightarrow> (u64 list \<times> string list) option" where
  "static_calls dis im f imps =
     (let lo = fn_entry f; hi = fn_hi f; rs = seg_ranges im in
      case body_code im f of
        None \<Rightarrow> Some ([], [])
      | Some code \<Rightarrow>
          if im_arch im = Aarch64 then
            (let (cs, ns) = fold (\<lambda>k. a64_step imps rs lo hi code (4 * k)) [0..<length code div 4] ([], [])
             in Some (sort_dedup cs, sort_dedup ns))
          else case dis of
            None \<Rightarrow> Some ([], [])
          | Some d \<Rightarrow>
              map_option (\<lambda>insns.
                let (cs, ns) = fold (x86_step imps rs lo hi) insns ([], [])
                in (sort_dedup cs, sort_dedup ns)) (sweep d lo code 0))"

section \<open>Immediates\<close>

lemma sint_bits:
  fixes d :: u64
  assumes "0 < b" "b \<le> 64" and "- (2 ^ (b - 1)) \<le> sint d" and "sint d < 2 ^ (b - 1)" and "n < 64"
  shows "bit d n \<longleftrightarrow> bit d (min (b - 1) n)"
proof -
  have e: "signed_take_bit (b - 1) (sint d) = sint d" using assms(3,4) by (simp add: signed_take_bit_int_eq_self)
  have "bit (signed_take_bit (b - 1) (sint d)) n = bit (sint d) (min (b - 1) n)"
    by (simp add: bit_signed_take_bit_iff)
  then have s: "bit (sint d) n = bit (sint d) (min (b - 1) n)" by (simp only: e)
  have "bit (sint d) k \<longleftrightarrow> bit d k" if "k < 64" for k
    using that bit_sint_iff [of d k] by (auto dest: bit_imp_le_length)
  then show ?thesis using s assms(1,2,5) by simp
qed

lemma sign_extend_field:
  fixes d :: u64
  assumes "0 < b" "b < 64" and "- (2 ^ (b - 1)) \<le> sint d" and "sint d < 2 ^ (b - 1)"
  shows "signed_drop_bit (64 - b) (push_bit (64 - b) (d AND mask b)) = d"
proof (rule bit_word_eqI)
  fix n assume n: "n < LENGTH(64)"
  have sh: "bit (signed_drop_bit (64 - b) (push_bit (64 - b) x)) n \<longleftrightarrow> bit x (min (b - 1) n)" for x :: u64
  proof (cases "n < b")
    case True
    then have "min (b - 1) n = n" by simp
    moreover have "bit (signed_drop_bit (64 - b) (push_bit (64 - b) x)) n \<longleftrightarrow> bit x n"
      using True n assms(1,2) by (cases "b \<le> n + 1") (auto simp: bit_signed_drop_bit_iff bit_push_bit_iff)
    ultimately show ?thesis by simp
  next
    case False
    then have "64 \<le> n + (64 - b)" using assms(2) by simp
    then show ?thesis using False n assms(1,2)
      by (auto simp: bit_signed_drop_bit_iff bit_push_bit_iff min_def)
  qed
  have "bit (d AND mask b) (min (b - 1) n) \<longleftrightarrow> bit d (min (b - 1) n)"
  proof -
    have "min (b - 1) n < b" "min (b - 1) n < 64" using assms(1,2) by auto
    then show ?thesis by (simp add: bit_and_iff bit_mask_iff)
  qed
  also have "\<dots> \<longleftrightarrow> bit d n" using sint_bits [OF assms(1) _ assms(3,4), of n] assms(2) n by simp
  finally show "bit (signed_drop_bit (64 - b) (push_bit (64 - b) (d AND mask b))) n = bit d n" unfolding sh .
qed

definition fits :: "nat \<Rightarrow> u64 \<Rightarrow> bool" where
  "fits b d \<longleftrightarrow> - (2 ^ (b - 1)) \<le> sint d \<and> sint d < 2 ^ (b - 1)"

lemma a64_rel_field:
  assumes "0 < b" "b \<le> 32" "fits b d"
  shows "a64_rel addr (ucast d AND mask b) b = addr + d * 4"
proof -
  have "ucast (ucast d AND mask b :: u32) = d AND (mask b :: u64)" using assms(2) by (rule ucast_and_mask)
  then show ?thesis
    using sign_extend_field [of b d] assms by (simp add: a64_rel_def fits_def Let_def)
qed

section \<open>The aarch64 encodings\<close>

text \<open>The instructions the emulator steers on, with the bits the decoder ignores as an arbitrary word.\<close>

datatype a64_insn = BL u64 | BLR u32 | RET u32 | SVC u32 | BCOND u64 u32 | CB u64 u32 | TB u64 u32

fun a64_encode :: "a64_insn \<Rightarrow> u32" where
  "a64_encode (BL d) = 0x94000000 OR (ucast d AND 0x3ffffff)"
| "a64_encode (BLR x) = 0xd63f0000 OR (x AND 0x3e0)"
| "a64_encode (RET x) = 0xd65f0000 OR (x AND 0x3e0)"
| "a64_encode (SVC x) = 0xd4000001 OR (x AND 0x1fffe0)"
| "a64_encode (BCOND d x) = 0x54000000 OR push_bit 5 (ucast d AND 0x7ffff) OR (x AND 0xf)"
| "a64_encode (CB d x) = 0x34000000 OR push_bit 5 (ucast d AND 0x7ffff) OR (x AND 0x8100001f)"
| "a64_encode (TB d x) = 0x36000000 OR push_bit 5 (ucast d AND 0x3fff) OR (x AND 0x81f8001f)"

fun a64_reach :: "a64_insn \<Rightarrow> bool" where
  "a64_reach (BL d) \<longleftrightarrow> fits 26 d"
| "a64_reach (BCOND d x) \<longleftrightarrow> fits 19 d"
| "a64_reach (CB d x) \<longleftrightarrow> fits 19 d"
| "a64_reach (TB d x) \<longleftrightarrow> fits 14 d"
| "a64_reach _ \<longleftrightarrow> True"

fun a64_meaning :: "u64 \<Rightarrow> a64_insn \<Rightarrow> Kind" where
  "a64_meaning a (BL d) = KCall (Some (a + d * 4)) True"
| "a64_meaning a (BLR x) = KCall None False"
| "a64_meaning a (RET x) = KRet"
| "a64_meaning a (SVC x) = KSyscall"
| "a64_meaning a (BCOND d x) = KBranch (Some (a + d * 4))"
| "a64_meaning a (CB d x) = KBranch (Some (a + d * 4))"
| "a64_meaning a (TB d x) = KBranch (Some (a + d * 4))"

lemma masked_ne: "w AND k = c \<Longrightarrow> m AND k = k \<Longrightarrow> v AND k \<noteq> c \<Longrightarrow> w AND m \<noteq> v" for w :: "'a::len word"
  by (metis and.assoc)

lemma field_at_5:
  assumes "w AND push_bit 5 (mask k) = push_bit 5 (f AND mask k)" and "k \<le> 27"
  shows "drop_bit 5 w AND mask k = f AND (mask k :: u32)"
proof -
  have "drop_bit 5 (push_bit 5 (mask k :: u32)) = mask k"
    using drop_push_mask [of k 5 "- 1 :: u32"] assms(2) by simp
  then have "drop_bit 5 w AND mask k = drop_bit 5 (w AND push_bit 5 (mask k))"
    by (intro drop_bit_masked)
  then show ?thesis using drop_push_mask [of k 5 f] assms by simp
qed

lemmas and_or = bit.conj_disj_distrib2 and.assoc

lemma mask_vals: "(0x3ffffff :: u32) = mask 26" "(0x3fff :: u32) = mask 14" "(0x7ffff :: u32) = mask 19"
  by (simp_all add: mask_eq_exp_minus_1)

lemma enc_BL: "a64_encode (BL d) AND 0xfc000000 = 0x94000000" "a64_encode (BL d) AND 0x03ffffff = ucast d AND 0x03ffffff"
  by (simp_all add: and_or)

lemma enc_BLR: "a64_encode (BLR x) AND 0xfffffc1f = 0xd63f0000" "a64_encode (BLR x) AND 0xfc000000 = 0xd4000000"
  by (simp_all add: and_or)

lemma enc_RET: "a64_encode (RET x) AND 0xfffffc1f = 0xd65f0000" "a64_encode (RET x) AND 0xfc000000 = 0xd4000000"
  by (simp_all add: and_or)

lemma enc_SVC: "a64_encode (SVC x) AND 0xffe0001f = 0xd4000001"
  by (simp_all add: and_or)

lemma enc_BCOND: "a64_encode (BCOND d x) AND 0xff000010 = 0x54000000"
    "drop_bit 5 (a64_encode (BCOND d x)) AND 0x7ffff = ucast d AND 0x7ffff"
  subgoal by (simp add: and_or)
  subgoal unfolding mask_vals by (rule field_at_5) (simp_all add: and_or mask_eq_exp_minus_1)
  done

lemma enc_CB: "a64_encode (CB d x) AND 0x7e000000 = 0x34000000"
    "drop_bit 5 (a64_encode (CB d x)) AND 0x7ffff = ucast d AND 0x7ffff"
  subgoal by (simp add: and_or)
  subgoal unfolding mask_vals by (rule field_at_5) (simp_all add: and_or mask_eq_exp_minus_1)
  done

lemma enc_TB: "a64_encode (TB d x) AND 0x7e000000 = 0x36000000"
    "drop_bit 5 (a64_encode (TB d x)) AND 0x3fff = ucast d AND 0x3fff"
  subgoal by (simp add: and_or)
  subgoal unfolding mask_vals by (rule field_at_5) (simp_all add: and_or mask_eq_exp_minus_1)
  done

lemma decode_a64_word: "decode_a64 addr (le32_bytes w @ rest) =
   ((if w AND 0xfc000000 = 0x94000000 then KCall (Some (a64_rel addr (w AND 0x03ffffff) 26)) True
     else if w AND 0xfffffc1f = 0xd63f0000 then KCall None False
     else if w AND 0xfffffc1f = 0xd65f0000 then KRet
     else if w AND 0xffe0001f = 0xd4000001 then KSyscall
     else if w AND 0xff000010 = 0x54000000 \<or> w AND 0x7e000000 = 0x34000000
     then KBranch (Some (a64_rel addr (drop_bit 5 w AND 0x7ffff) 19))
     else if w AND 0x7e000000 = 0x36000000
     then KBranch (Some (a64_rel addr (drop_bit 5 w AND 0x3fff) 14))
     else KPlain), 4)"
proof -
  have "take 4 (le32_bytes w @ rest) = le32_bytes w" by (simp add: le32_bytes_unfold)
  moreover have "\<not> length (le32_bytes w @ rest) < 4" by (simp add: le32_bytes_unfold)
  ultimately show ?thesis unfolding decode_a64_def Let_def by (simp only: le32_le32_bytes if_False)
qed

lemma decode_BL:
  assumes "a64_reach (BL d)"
  shows "decode_a64 addr (le32_bytes (a64_encode (BL d)) @ rest) = (a64_meaning addr (BL d), 4)"
proof -
  have "a64_rel addr (ucast d AND 0x03ffffff) 26 = addr + d * 4"
    using a64_rel_field [of 26 d addr] assms by (simp add: mask_vals)
  then show ?thesis unfolding decode_a64_word enc_BL by simp
qed

lemma decode_BLR:
  shows "decode_a64 addr (le32_bytes (a64_encode (BLR x)) @ rest) = (a64_meaning addr (BLR x), 4)"
proof -
  have "a64_encode (BLR x) AND 0xfc000000 \<noteq> 0x94000000" unfolding enc_BLR by simp
  then show ?thesis unfolding decode_a64_word by (simp only: enc_BLR(1) if_False if_True a64_meaning.simps) simp
qed

lemma decode_RET:
  shows "decode_a64 addr (le32_bytes (a64_encode (RET x)) @ rest) = (a64_meaning addr (RET x), 4)"
proof -
  have "a64_encode (RET x) AND 0xfc000000 \<noteq> 0x94000000" unfolding enc_RET by simp
  moreover have "a64_encode (RET x) AND 0xfffffc1f \<noteq> 0xd63f0000" unfolding enc_RET by simp
  ultimately show ?thesis unfolding decode_a64_word by (simp only: enc_RET(1) if_False if_True a64_meaning.simps) simp
qed

lemma decode_SVC:
  shows "decode_a64 addr (le32_bytes (a64_encode (SVC x)) @ rest) = (a64_meaning addr (SVC x), 4)"
proof -
  let ?w = "a64_encode (SVC x)"
  have "?w AND 0xfc000000 \<noteq> 0x94000000" by (rule masked_ne [where k = "0x40000000" and c = "0x40000000"]) (simp_all add: and_or)
  moreover have "?w AND 0xfffffc1f \<noteq> 0xd63f0000" "?w AND 0xfffffc1f \<noteq> 0xd65f0000"
    by (rule masked_ne [where k = 1 and c = 1]; simp add: and_or)+
  ultimately show ?thesis unfolding decode_a64_word
    by (simp only: enc_SVC if_False if_True simp_thms a64_meaning.simps)
qed

lemma decode_BCOND:
  assumes "a64_reach (BCOND d x)"
  shows "decode_a64 addr (le32_bytes (a64_encode (BCOND d x)) @ rest) = (a64_meaning addr (BCOND d x), 4)"
proof -
  let ?w = "a64_encode (BCOND d x)"
  have "?w AND 0xfc000000 \<noteq> 0x94000000" "?w AND 0xfffffc1f \<noteq> 0xd63f0000" "?w AND 0xfffffc1f \<noteq> 0xd65f0000"
      "?w AND 0xffe0001f \<noteq> 0xd4000001"
    by (rule masked_ne [where k = "0x80000000" and c = 0]; simp add: and_or)+
  moreover have "a64_rel addr (ucast d AND 0x7ffff) 19 = addr + d * 4"
    using a64_rel_field [of 19 d addr] assms by (simp add: mask_vals)
  ultimately show ?thesis unfolding decode_a64_word
    by (simp only: enc_BCOND if_False if_True simp_thms a64_meaning.simps)
qed

lemma decode_CB:
  assumes "a64_reach (CB d x)"
  shows "decode_a64 addr (le32_bytes (a64_encode (CB d x)) @ rest) = (a64_meaning addr (CB d x), 4)"
proof -
  let ?w = "a64_encode (CB d x)"
  have "?w AND 0xfc000000 \<noteq> 0x94000000" "?w AND 0xfffffc1f \<noteq> 0xd63f0000" "?w AND 0xfffffc1f \<noteq> 0xd65f0000"
      "?w AND 0xffe0001f \<noteq> 0xd4000001"
    by (rule masked_ne [where k = "0x60000000" and c = "0x20000000"]; simp add: and_or)+
  moreover have "a64_rel addr (ucast d AND 0x7ffff) 19 = addr + d * 4"
    using a64_rel_field [of 19 d addr] assms by (simp add: mask_vals)
  ultimately show ?thesis unfolding decode_a64_word
    by (simp only: enc_CB if_False if_True simp_thms a64_meaning.simps)
qed

lemma decode_TB:
  assumes "a64_reach (TB d x)"
  shows "decode_a64 addr (le32_bytes (a64_encode (TB d x)) @ rest) = (a64_meaning addr (TB d x), 4)"
proof -
  let ?w = "a64_encode (TB d x)"
  have "?w AND 0xfc000000 \<noteq> 0x94000000" "?w AND 0xfffffc1f \<noteq> 0xd63f0000" "?w AND 0xfffffc1f \<noteq> 0xd65f0000"
      "?w AND 0xffe0001f \<noteq> 0xd4000001" "?w AND 0xff000010 \<noteq> 0x54000000"
    by (rule masked_ne [where k = "0x60000000" and c = "0x20000000"]; simp add: and_or)+
  moreover have "?w AND 0x7e000000 \<noteq> 0x34000000" unfolding enc_TB by simp
  moreover have "a64_rel addr (ucast d AND 0x3fff) 14 = addr + d * 4"
    using a64_rel_field [of 14 d addr] assms by (simp add: mask_vals)
  ultimately show ?thesis unfolding decode_a64_word
    by (simp only: enc_TB if_False if_True simp_thms a64_meaning.simps)
qed

lemmas decode_encodings = decode_BL decode_BLR decode_RET decode_SVC decode_BCOND decode_CB decode_TB

text \<open>C39: The aarch64 decoder inverts the encodings of the architecture: for every address, every target in reach
  of the encoding and every value of the fields it ignores, a call, a return, a system call and the three
  families of conditional branches decode to their kind, their target and length 4.\<close>

theorem decode_a64_roundtrip:
  assumes "a64_reach i"
  shows "decode_a64 addr (le32_bytes (a64_encode i) @ rest) = (a64_meaning addr i, 4)"
  using assms by (cases i) (simp_all only: decode_encodings)

text \<open>At a backward \<open>bl\<close> and a forward \<open>tbnz x3, #33\<close>.\<close>

theorem decode_a64_roundtrip_witness:
  "decode_a64 0x401000 (le32_bytes (a64_encode (BL (- 16))) @ []) = (KCall (Some 0x400fc0) True, 4)
   \<and> decode_a64 0x401000 (le32_bytes (a64_encode (TB 8 0x81080003)) @ []) = (KBranch (Some 0x401020), 4)"
proof -
  have "a64_reach (BL (- 16))" "a64_reach (TB 8 0x81080003)" by (simp_all add: fits_def)
  then show ?thesis
    using decode_a64_roundtrip [where addr = "0x401000" and rest = "[]"] by (simp del: a64_encode.simps)
qed

section \<open>The call graph of a function\<close>

text \<open>What every instruction of the body contributes: its direct target, its GOT slot.\<close>

definition body_targets :: "disasm_all option \<Rightarrow> Image \<Rightarrow> Func \<Rightarrow> (u64 option \<times> u64 option) list option" where
  "body_targets dis im f =
     (case body_code im f of
        None \<Rightarrow> Some []
      | Some code \<Rightarrow>
          if im_arch im = Aarch64 then
            Some (map (\<lambda>k. (a64_target (fn_entry f) (fn_hi f) (fn_entry f + of_nat (4 * k)) (le32 (take 4 (drop (4 * k) code))), None))
              [0..<length code div 4])
          else case dis of
            None \<Rightarrow> Some []
          | Some d \<Rightarrow> map_option (map (x86_target (fn_entry f) (fn_hi f))) (sweep d (fn_entry f) code 0))"

definition named_by :: "(u64 \<rightharpoonup> string) \<Rightarrow> u64 option \<times> u64 option \<Rightarrow> string set" where
  "named_by imps ts = set_option (Option.bind (fst ts) imps) \<union> set_option (Option.bind (snd ts) imps)"

lemma note_target_sets:
  "set (fst (note_target imps rs t acc)) = set (fst acc) \<union> {u \<in> set_option t. imps u = None \<and> in_ranges rs u}"
  "set (snd (note_target imps rs t acc)) = set (snd acc) \<union> set_option (Option.bind t imps)"
  by (auto simp: note_target_def split: option.splits)

definition collect_step ::
  "(u64 \<rightharpoonup> string) \<Rightarrow> (u64 \<times> u64) list \<Rightarrow> u64 option \<times> u64 option \<Rightarrow> u64 list \<times> string list \<Rightarrow> u64 list \<times> string list" where
  "collect_step imps rs ts acc =
     note_target imps rs (fst ts) (case Option.bind (snd ts) imps of Some n \<Rightarrow> (fst acc, snd acc @ [n]) | None \<Rightarrow> acc)"

lemma collect_step_sets:
  "set (fst (collect_step imps rs ts acc)) = set (fst acc) \<union> {u \<in> set_option (fst ts). imps u = None \<and> in_ranges rs u}"
  "set (snd (collect_step imps rs ts acc)) = set (snd acc) \<union> named_by imps ts"
  by (auto simp: collect_step_def note_target_sets named_by_def bind_eq_Some_conv split: option.splits)

lemma collect_sets:
  "set (fst (fold (collect_step imps rs) tss acc))
     = set (fst acc) \<union> {u. \<exists>ts\<in>set tss. u \<in> set_option (fst ts) \<and> imps u = None \<and> in_ranges rs u}"
  "set (snd (fold (collect_step imps rs) tss acc)) = set (snd acc) \<union> (\<Union>ts\<in>set tss. named_by imps ts)"
  by (induction tss arbitrary: acc) (auto simp: collect_step_sets)

lemma static_calls_fold:
  "static_calls dis im f imps =
     map_option (\<lambda>tss. let acc = fold (collect_step imps (seg_ranges im)) tss ([], [])
       in (sort_dedup (fst acc), sort_dedup (snd acc))) (body_targets dis im f)"
proof -
  have x: "x86_step imps rs lo hi = collect_step imps rs \<circ> x86_target lo hi" for rs lo hi
    by (rule ext) (rule ext, simp add: x86_step_def collect_step_def split: prod.split)
  have a: "a64_step imps rs lo hi code (4 * k)
      = (collect_step imps rs \<circ> (\<lambda>k. (a64_target lo hi (lo + of_nat (4 * k)) (le32 (take 4 (drop (4 * k) code))), None))) k"
    for rs lo hi code k
    by (rule ext) (simp add: a64_step_def collect_step_def)
  show ?thesis
  proof (cases "body_code im f")
    case None
    then show ?thesis by (simp add: static_calls_def body_targets_def)
  next
    case (Some code)
    show ?thesis
    proof (cases "im_arch im = Aarch64")
      case True
      then show ?thesis using Some
        by (simp add: static_calls_def body_targets_def fold_map a case_prod_unfold Let_def comp_def del: of_nat_mult)
    next
      case False
      then show ?thesis using Some
        by (cases dis) (simp_all add: static_calls_def body_targets_def fold_map x case_prod_unfold Let_def option.map_comp comp_def)
    qed
  qed
qed

text \<open>The sweep comes back when the code ends below the top of the address space.\<close>

lemma code_at_length: "code_at im v n = Some bs \<Longrightarrow> length bs \<le> n"
proof -
  have "code_at_in ss v n = Some bs \<Longrightarrow> length bs \<le> n" for ss
    by (induction ss) (auto simp: Let_def split: if_splits option.splits)
  then show "code_at im v n = Some bs \<Longrightarrow> length bs \<le> n" by (simp add: code_at_def)
qed

lemma body_code_length: "body_code im f = Some code \<Longrightarrow> length code \<le> unat (fn_size f)"
proof -
  assume "body_code im f = Some code"
  then have "length code \<le> unat (min (fn_size f) SWEEP_CAP)" unfolding body_code_def by (rule code_at_length)
  also have "\<dots> \<le> unat (fn_size f)" by (simp add: word_le_nat_alt [symmetric])
  finally show ?thesis .
qed

lemma sweep_total: "unat lo + length code \<le> 2 ^ 64 \<Longrightarrow> \<exists>is. sweep dis lo code off = Some is"
proof (induction dis lo code off rule: sweep.induct)
  case (1 dis lo code off)
  show ?case
  proof (cases "off < length code \<and> dis (drop off code) (lo + of_nat off) \<noteq> None")
    case False
    then show ?thesis using 1(2) by (subst sweep.simps) (auto split: option.split)
  next
    case True
    then obtain "is" where i: "dis (drop off code) (lo + of_nat off) = Some is" and off: "off < length code" by auto
    have lt: "\<not> 2 ^ 64 \<le> unat lo + off" using off 1(2) by simp
    obtain js where "sweep dis lo code (off + advance is) = Some js" using 1(1) [OF off lt i 1(2)] by blast
    then show ?thesis using off lt i by (subst sweep.simps) simp
  qed
qed

lemma body_targets_total:
  assumes "unat (fn_entry f) + unat (fn_size f) \<le> 2 ^ 64"
  shows "\<exists>tss. body_targets dis im f = Some tss"
proof (cases "body_code im f")
  case (Some code)
  have "unat (fn_entry f) + length code \<le> 2 ^ 64" using body_code_length [OF Some] assms by linarith
  then show ?thesis using sweep_total [of "fn_entry f" code _ 0] Some
    by (cases dis) (fastforce simp: body_targets_def)+
qed (simp add: body_targets_def)

lemma insn_starts_total:
  assumes "unat (fn_entry f) + unat (fn_size f) \<le> 2 ^ 64"
  shows "\<exists>as. insn_starts dis im f = Some as"
proof (cases "body_code im f")
  case (Some code)
  have "unat (fn_entry f) + length code \<le> 2 ^ 64" using body_code_length [OF Some] assms by linarith
  then show ?thesis using sweep_total [of "fn_entry f" code _ 0] Some
    by (cases dis) (fastforce simp: insn_starts_def)+
qed (simp add: insn_starts_def split: option.split)

lemma static_calls_total:
  assumes "unat (fn_entry f) + unat (fn_size f) \<le> 2 ^ 64"
  shows "\<exists>sc. static_calls dis im f imps = Some sc"
  using body_targets_total [OF assms, of dis im] by (auto simp: static_calls_fold Let_def)


definition bl_image :: Image where
  "bl_image = \<lparr>segments = [\<lparr>seg_vaddr = 0x1000, seg_bytes = le32_bytes 0x94000001 @ le32_bytes 0x97fffc00, seg_exec = True,
     seg_write = False\<rparr>], im_entry = 0x1000, is_pie = False, im_arch = Aarch64\<rparr>"

definition bl_func :: Func where
  "bl_func = \<lparr>fn_name = None, fn_entry = 0x1000, fn_size = 8, fn_source = Symtab\<rparr>"


text \<open>A segment whose bytes run past the top of the address space passes the loader's checks (the saturating end hides
  the rest), and sweeping a function in it aborts the process.\<close>

definition nop_only :: disasm_all where
  "nop_only buf a = Some (case buf of [] \<Rightarrow> [] | b # _ \<Rightarrow> if b = 0x90 then [\<lparr>in_addr = a, in_bytes = [0x90], in_mnem = ''nop''\<rparr>] else [])"

lemma static_calls_overflow_aborts:
  "static_calls (Some nop_only)
     \<lparr>segments = [\<lparr>seg_vaddr = u64_max, seg_bytes = [0x90, 0x90], seg_exec = True, seg_write = False\<rparr>],
      im_entry = 0, is_pie = False, im_arch = X86_64\<rparr>
     \<lparr>fn_name = None, fn_entry = u64_max, fn_size = 2, fn_source = EhFrame\<rparr> Map.empty = None"
proof -
  have s: "sweep nop_only u64_max [0x90, 0x90] 0 = None"
    by (subst sweep.simps, subst sweep.simps) (simp add: nop_only_def advance_def)
  show ?thesis
    by (simp add: static_calls_def body_code_def code_at_def SWEEP_CAP_def checked_add64_def seg_len_def s)
qed

section \<open>Instruction starts\<close>

text \<open>What the program relies on of the disassembler: the instructions it gives are consecutive non-empty slices
  of the buffer from its start on, at consecutive addresses.\<close>

fun consecutive :: "u64 \<Rightarrow> nat \<Rightarrow> insn list \<Rightarrow> bool" where
  "consecutive a n [] \<longleftrightarrow> True"
| "consecutive a n (i # is) \<longleftrightarrow> in_addr i = a \<and> 0 < length (in_bytes i) \<and> length (in_bytes i) \<le> n
     \<and> consecutive (a + of_nat (length (in_bytes i))) (n - length (in_bytes i)) is"

definition disasm_ok :: "disasm_all \<Rightarrow> bool" where
  "disasm_ok dis \<longleftrightarrow> (\<forall>buf a is. dis buf a = Some is \<longrightarrow> consecutive a (length buf) is)"

lemma consecutive_starts:
  "consecutive (lo + of_nat k) n is \<Longrightarrow> unat lo + k + n < 2 ^ 64 \<Longrightarrow>
   sorted_wrt (<) (map in_addr is) \<and> sum_list (map (\<lambda>i. length (in_bytes i)) is) \<le> n
   \<and> (\<forall>i\<in>set is. unat lo + k \<le> unat (in_addr i)
        \<and> unat (in_addr i) < unat lo + k + sum_list (map (\<lambda>i. length (in_bytes i)) is))"
proof (induction "is" arbitrary: k n)
  case (Cons i "is")
  let ?m = "length (in_bytes i)"
  have c: "in_addr i = lo + of_nat k" "0 < ?m" "?m \<le> n" "consecutive (lo + of_nat (k + ?m)) (n - ?m) is"
    using Cons.prems(1) by (simp_all add: add.assoc)
  have ih: "sorted_wrt (<) (map in_addr is) \<and> sum_list (map (\<lambda>i. length (in_bytes i)) is) \<le> n - ?m
   \<and> (\<forall>i\<in>set is. unat lo + (k + ?m) \<le> unat (in_addr i)
        \<and> unat (in_addr i) < unat lo + (k + ?m) + sum_list (map (\<lambda>i. length (in_bytes i)) is))"
    by (rule Cons.IH [OF c(4)]) (use Cons.prems(2) c(3) in simp)
  have "unat (of_nat k :: u64) = k" using Cons.prems(2) by (simp add: unat_of_nat)
  then have a: "unat (in_addr i) = unat lo + k" using Cons.prems(2) c(1) by (simp add: unat_add64_no_wrap)
  have "in_addr i < in_addr j" if "j \<in> set is" for j
  proof -
    have "unat lo + (k + ?m) \<le> unat (in_addr j)" using ih that by blast
    then show ?thesis unfolding word_less_nat_alt using a c(2) by linarith
  qed
  moreover have "\<forall>j\<in>set is. unat lo + k \<le> unat (in_addr j)
      \<and> unat (in_addr j) < unat lo + k + (?m + sum_list (map (\<lambda>i. length (in_bytes i)) is))"
  proof
    fix j assume "j \<in> set is"
    then have "unat lo + (k + ?m) \<le> unat (in_addr j) \<and> unat (in_addr j)
        < unat lo + (k + ?m) + sum_list (map (\<lambda>i. length (in_bytes i)) is)" using ih by blast
    then show "unat lo + k \<le> unat (in_addr j)
      \<and> unat (in_addr j) < unat lo + k + (?m + sum_list (map (\<lambda>i. length (in_bytes i)) is))" by linarith
  qed
  moreover have "?m + sum_list (map (\<lambda>i. length (in_bytes i)) is) \<le> n" using ih c(3) by linarith
  ultimately show ?case using ih a c(2) by simp
qed simp

lemma sweep_starts:
  "disasm_ok dis \<Longrightarrow> unat lo + length code < 2 ^ 64 \<Longrightarrow> off \<le> length code \<Longrightarrow> sweep dis lo code off = Some js \<Longrightarrow> sorted_wrt (<) (map in_addr js)
    \<and> (\<forall>i\<in>set js. unat lo + off \<le> unat (in_addr i) \<and> unat (in_addr i) < unat lo + length code)"
proof (induction dis lo code off arbitrary: js rule: sweep.induct)
  case (1 dis lo code off)
  have small: "\<not> 2 ^ 64 \<le> unat lo + off" using 1(3,4) by linarith
  show ?case
  proof (cases "off < length code \<and> dis (drop off code) (lo + of_nat off) \<noteq> None")
    case False
    then have "sweep dis lo code off = Some []" using small by (subst sweep.simps) auto
    then show ?thesis using 1(5) by simp
  next
    case True
    then obtain "is" where i: "dis (drop off code) (lo + of_nat off) = Some is" and off: "off < length code" by auto
    have con: "consecutive (lo + of_nat off) (length code - off) is"
      using 1(2) i unfolding disasm_ok_def by (metis length_drop)
    have st: "sorted_wrt (<) (map in_addr is)" "sum_list (map (\<lambda>i. length (in_bytes i)) is) \<le> length code - off"
      "\<And>i. i \<in> set is \<Longrightarrow> unat lo + off \<le> unat (in_addr i) \<and> unat (in_addr i) < unat lo + off + sum_list (map (\<lambda>i. length (in_bytes i)) is)"
      using consecutive_starts [OF con] 1(3) off by auto
    have adv: "off + advance is \<le> length code" using st(2) off by (simp add: advance_def)
    obtain ks where ks: "sweep dis lo code (off + advance is) = Some ks" and js: "js = is @ ks"
      using off i small 1(5) by (subst (asm) sweep.simps) auto
    have ih: "sorted_wrt (<) (map in_addr ks)
      \<and> (\<forall>i\<in>set ks. unat lo + (off + advance is) \<le> unat (in_addr i) \<and> unat (in_addr i) < unat lo + length code)"
      by (rule 1(1) [OF off small i 1(2,3) adv ks])
    have lt: "in_addr x < in_addr y" if "x \<in> set is" "y \<in> set ks" for x y
    proof -
      have "unat lo + (off + advance is) \<le> unat (in_addr y)" using ih that(2) by blast
      moreover have "sum_list (map (\<lambda>i. length (in_bytes i)) is) \<le> advance is" by (simp add: advance_def)
      ultimately show ?thesis using st(3) [OF that(1)] by (simp add: word_less_nat_alt)
    qed
    have "unat lo + off \<le> unat (in_addr x) \<and> unat (in_addr x) < unat lo + length code" if "x \<in> set is" for x
      using st(2) st(3) [OF that] off by linarith
    then show ?thesis unfolding js using st(1) ih lt by (auto simp: sorted_wrt_append)
  qed
qed

text \<open>The restart points of blanket execution are sorted, distinct and inside the body, for both
  architectures, whenever the body does not wrap round the address space and the disassembler gives
  consecutive instructions.\<close>

theorem insn_starts_sorted:
  assumes "list_all disasm_ok (case dis of None \<Rightarrow> [] | Some d \<Rightarrow> [d])" and "unat (fn_entry f) + unat (fn_size f) < 2 ^ 64"
  shows "\<exists>as. insn_starts dis im f = Some as \<and> sorted_wrt (<) as \<and> set as \<subseteq> {a. fn_entry f \<le> a \<and> a < fn_hi f}"
proof (cases "im_arch im = Aarch64")
  case True
  let ?n = "unat (min (fn_size f) SWEEP_CAP) div 4"
  have m: "unat (min (fn_size f) SWEEP_CAP) \<le> unat (fn_size f)" by (simp add: word_le_nat_alt [symmetric])
  let ?as = "map (\<lambda>i. fn_entry f + of_nat i * 4) [0..<?n] :: u64 list"
  have as: "insn_starts dis im f = Some ?as" using True by (simp add: insn_starts_def)
  have u: "unat (fn_entry f + of_nat i * 4) = unat (fn_entry f) + 4 * i" if "i < ?n" for i
  proof -
    have "4 * i < unat (fn_size f)" using that m by linarith
    then have "unat (of_nat i * 4 :: u64) = 4 * i" "unat (fn_entry f) + 4 * i < 2 ^ 64"
      using assms(2) by (simp_all add: unat_word_ariths unat_of_nat)
    then show ?thesis by (simp add: unat_add64_no_wrap)
  qed
  have hi: "unat (fn_hi f) = unat (fn_entry f) + unat (fn_size f)" using assms(2) by (simp add: fn_hi_def unat_sat_add64)
  have "sorted_wrt (<) ?as"
    unfolding sorted_wrt_map by (rule sorted_wrt_mono_rel [OF _ sorted_wrt_upt]) (simp add: word_less_nat_alt u)
  moreover have "fn_entry f \<le> fn_entry f + of_nat i * 4 \<and> fn_entry f + of_nat i * 4 < fn_hi f" if i: "i < ?n" for i
    unfolding word_le_nat_alt word_less_nat_alt u [OF i] hi using i m by linarith
  ultimately show ?thesis using as by auto
next
  case False
  show ?thesis
  proof (cases "\<exists>d code. dis = Some d \<and> body_code im f = Some code")
    case True
    then obtain d code where d: "dis = Some d" and code: "body_code im f = Some code" by blast
    have le: "length code \<le> unat (fn_size f)" using code by (rule body_code_length)
    then have l: "unat (fn_entry f) + length code < 2 ^ 64" using assms(2) by simp
    then obtain js where js: "sweep d (fn_entry f) code 0 = Some js" using sweep_total [of "fn_entry f" code d 0] by auto
    have hi: "unat (fn_hi f) = unat (fn_entry f) + unat (fn_size f)" using assms(2) by (simp add: fn_hi_def unat_sat_add64)
    have "disasm_ok d" using assms(1) d by simp
    from sweep_starts [OF this l _ js] have "sorted_wrt (<) (map in_addr js)"
      and "\<forall>i\<in>set js. unat (fn_entry f) \<le> unat (in_addr i) \<and> unat (in_addr i) < unat (fn_entry f) + length code"
      by simp_all
    moreover have "insn_starts dis im f = Some (map in_addr js)" using False d code js by (simp add: insn_starts_def)
    ultimately show ?thesis
      using le hi by (fastforce simp: word_le_nat_alt word_less_nat_alt)
  qed (use False in \<open>auto simp: insn_starts_def split: option.split\<close>)
qed

text \<open>At a body of eight bytes of aarch64 code, and at one of x86-64 whose disassembler knows only \<open>nop\<close>.\<close>

definition nop_dis :: disasm_all where
  "nop_dis buf a = Some (map (\<lambda>i. \<lparr>in_addr = a + of_nat i, in_bytes = [0x90], in_mnem = ''nop''\<rparr>) [0..<length (takeWhile (\<lambda>b. b = 0x90) buf)])"

definition two_segment_image :: "Arch \<Rightarrow> Image" where
  "two_segment_image arch = \<lparr>segments = [\<lparr>seg_vaddr = 0x1000, seg_bytes = [0x90, 0x90, 0x06, 0x90, 0x90, 0x90, 0x90, 0xc3],
     seg_exec = True, seg_write = False\<rparr>], im_entry = 0x1000, is_pie = False, im_arch = arch\<rparr>"

definition eight_bytes :: Func where
  "eight_bytes = \<lparr>fn_name = None, fn_entry = 0x1000, fn_size = 8, fn_source = Symtab\<rparr>"

lemma nop_dis_ok: "disasm_ok nop_dis"
proof -
  have "consecutive (a + of_nat k) (n - k) (map (\<lambda>i. \<lparr>in_addr = a + of_nat i, in_bytes = [0x90], in_mnem = ''nop''\<rparr>) [k..<m])"
    if "m \<le> n" for a :: u64 and k m n
    using that
  proof (induction "m - k" arbitrary: k)
    case 0
    then show ?case by simp
  next
    case (Suc j)
    then have up: "[k..<m] = k # [Suc k..<m]" by (simp add: upt_rec)
    have "consecutive (a + of_nat (Suc k)) (n - Suc k) (map (\<lambda>i. \<lparr>in_addr = a + of_nat i, in_bytes = [0x90], in_mnem = ''nop''\<rparr>) [Suc k..<m])"
      by (rule Suc(1)) (use Suc(2,3) in auto)
    then show ?case using Suc by (simp add: up algebra_simps)
  qed
  note step = this
  show ?thesis
    unfolding disasm_ok_def
  proof (intro allI impI)
    fix buf :: "u8 list" and a :: u64 and "is"
    assume "nop_dis buf a = Some is"
    then show "consecutive a (length buf) is"
      using step [of "length (takeWhile (\<lambda>b. b = 0x90) buf)" "length buf" a 0] length_takeWhile_le [of "\<lambda>b. b = 0x90" buf]
      by (simp add: nop_dis_def)
  qed
qed

theorem insn_starts_sorted_witness:
  "(\<exists>as. insn_starts (Some nop_dis) (two_segment_image X86_64) eight_bytes = Some as \<and> sorted_wrt (<) as)
   \<and> (\<exists>as. insn_starts None (two_segment_image Aarch64) eight_bytes = Some as \<and> sorted_wrt (<) as)"
proof -
  have "unat (fn_entry eight_bytes) + unat (fn_size eight_bytes) < 2 ^ 64" by (simp add: eight_bytes_def)
  from insn_starts_sorted [OF _ this, of "Some nop_dis"] insn_starts_sorted [OF _ this, of None] nop_dis_ok
  show ?thesis by (simp, blast)
qed

end
