(* ===== verification/Recorder.thy ===== *)
theory Recorder
  imports Decode "HOL-Library.Signed_Division"
begin

text \<open>
  The recorder of the emulator (\<open>crates/fnprint-emu/src/lib.rs\<close>): the state \<open>Rec\<close> the hooks share, the
  classification of values and addresses, and the four hooks. A hook takes the state and what the engine tells it
  (addresses, bytes, registers, whether a page could be mapped) and gives the new state and what it asks of the
  engine: to stop, to refuse the access, to set the return register or the program counter.
\<close>

section \<open>Layout and configuration\<close>

definition PAGE :: u64 where "PAGE = 0x1000"
definition NARGS :: nat where "NARGS = 6"
definition ARG_BASE :: u64 where "ARG_BASE = 0x1000000000"
definition ARG_STRIDE :: u64 where "ARG_STRIDE = 0x0100000000"
definition ARG_SIZE :: u64 where "ARG_SIZE = 0x8000"
definition STACK_BASE :: u64 where "STACK_BASE = 0x2000000000"
definition STACK_SIZE :: u64 where "STACK_SIZE = 0x40000"
definition RSP0 :: u64 where "RSP0 = STACK_BASE + STACK_SIZE div 2"
definition RET_ADDR :: u64 where "RET_ADDR = 0x3000000000"
definition MAX_RUNTIME_MAPS :: nat where "MAX_RUNTIME_MAPS = 256"
definition MAX_SETUP_RUNS :: nat where "MAX_SETUP_RUNS = 64"
definition BLANKET_RESTARTS :: nat where "BLANKET_RESTARTS = 0"
definition BLANKET_ENOUGH :: flt where "BLANKET_ENOUGH = fl32 (9 / 10)"
definition MEM_OPS_PER_INSTR_CAP :: u64 where "MEM_OPS_PER_INSTR_CAP = 64"

record Config =
  instr_cap :: u64
  visit_cap :: u32
  timeout_us :: u64
  seed :: u64
  max_heapish :: nat
  max_effects :: nat
  explore_depth :: nat
  blanket_restarts :: nat

definition default_config :: Config where
  "default_config = \<lparr>instr_cap = 20000, visit_cap = 64, timeout_us = 3000000, seed = 0, max_heapish = 24,
     max_effects = 96, explore_depth = 0, blanket_restarts = BLANKET_RESTARTS\<rparr>"

text \<open>Hash sets are lists without duplicates; \<open>covered\<close> is an association list with distinct keys.\<close>

record Rec =
  rc_effects :: "Effect list"
  rc_visits :: "u64 \<rightharpoonup> u32"
  rc_instret :: u64
  rc_capped :: bool
  rc_seen_heapish :: "u64 list"
  rc_seen_reads :: "u64 list"
  rc_heapish_count :: nat
  rc_cs :: "disasm_one option"
  rc_isa :: Arch
  rc_symbols :: "u64 \<rightharpoonup> string"
  rc_ret_ctr :: u64
  rc_cfg :: Config
  rc_segs :: "(u64 \<times> u64) list"
  rc_force :: "bool list"
  rc_branch_seen :: nat
  rc_natural_dirs :: "bool list"
  rc_pending_branch :: "u64 option"
  rc_map_count :: nat
  rc_func_lo :: u64
  rc_func_hi :: u64
  rc_covered_bytes :: u64
  rc_covered :: "(u64 \<times> u64) list"
  rc_callees :: "u64 list"
  rc_mem_op_iters :: u64

definition arg_base :: "nat \<Rightarrow> u64" where
  "arg_base k = ARG_BASE + of_nat k * ARG_STRIDE"

section \<open>Classification\<close>

definition in_arg :: "u64 \<Rightarrow> nat \<Rightarrow> bool" where
  "in_arg v k \<longleftrightarrow> v \<ge> arg_base k \<and> v < arg_base k + ARG_SIZE"

fun value_of_args :: "nat list \<Rightarrow> u64 \<Rightarrow> ValueClass option" where
  "value_of_args [] v = None"
| "value_of_args (k # ks) v =
     (if v = arg_base k then Some (Input (of_nat k))
      else if in_arg v k then Some (InputDeriv (of_nat k))
      else value_of_args ks v)"

definition classify_value :: "u64 \<Rightarrow> ValueClass" where
  "classify_value v =
     (if v = 0 then Zero
      else case value_of_args [0..<NARGS] v of
        Some c \<Rightarrow> c
      | None \<Rightarrow> if -4096 \<le> sint v \<and> sint v \<le> 4096 then SmallConst v else BigConst)"

text \<open>The offset is an \<open>i64\<close>, as its bits.\<close>

definition classify_addr :: "(u64 \<times> u64) list \<Rightarrow> u64 \<Rightarrow> Region \<times> u64" where
  "classify_addr segs addr =
     (case List.find (in_arg addr) [0..<NARGS] of
        Some k \<Rightarrow> (Arg (of_nat k), addr - arg_base k)
      | None \<Rightarrow>
          if STACK_BASE \<le> addr \<and> addr < STACK_BASE + STACK_SIZE then (Stack, addr - RSP0)
          else if list_ex (\<lambda>(lo, hi). addr \<ge> lo \<and> addr < hi) segs then (Global, 0)
          else (Heapish, addr AND (PAGE - 1)))"

definition mask_to_size :: "u64 \<Rightarrow> nat \<Rightarrow> u64" where
  "mask_to_size v sz =
     (if sz = 1 then v AND 0xff else if sz = 2 then v AND 0xffff else if sz = 4 then v AND 0xffffffff else v)"

text \<open>Division of an \<open>i64\<close> truncates; the clamped offset is an \<open>i32\<close>, as its bits.\<close>

definition bucket_off :: "u64 \<Rightarrow> u32" where
  "bucket_off off = (let b = (sint off sdiv 8) * 8 in word_of_int (max (- 2048) (min b 2048)))"

definition push_effect :: "Effect \<Rightarrow> Rec \<Rightarrow> Rec" where
  "push_effect e rc = rc\<lparr>rc_effects := rc_effects rc @ [e]\<rparr>"

text \<open>\<open>HashSet::insert\<close> says whether the key was new.\<close>

definition see_heapish :: "u64 \<Rightarrow> Rec \<Rightarrow> Rec \<times> bool" where
  "see_heapish key rc =
     (if key \<in> set (rc_seen_heapish rc) then (rc, False)
      else (rc\<lparr>rc_seen_heapish := key # rc_seen_heapish rc\<rparr>, True))"

definition page_of :: "u64 \<Rightarrow> u64" where
  "page_of addr = addr AND NOT (PAGE - 1)"

definition note_new_region :: "u64 \<Rightarrow> Rec \<Rightarrow> Rec" where
  "note_new_region addr rc =
     (case fst (classify_addr (rc_segs rc) addr) of
        Arg k \<Rightarrow>
          let (rc', fresh) = see_heapish (0xA00 + ucast k) rc
          in if fresh then push_effect (NewRegion (Arg k)) rc' else rc'
      | Global \<Rightarrow>
          let (rc', fresh) = see_heapish 0xB00 rc
          in if fresh then push_effect (NewRegion Global) rc' else rc'
      | Heapish \<Rightarrow>
          let (rc', fresh) = see_heapish (page_of addr) rc
          in if fresh \<and> rc_heapish_count rc' < max_heapish (rc_cfg rc')
             then push_effect (NewRegion Heapish) (rc'\<lparr>rc_heapish_count := rc_heapish_count rc' + 1\<rparr>)
             else rc'
      | Stack \<Rightarrow> rc)"

section \<open>Memory hooks\<close>

text \<open>An access to an unmapped page: is it a fetch, at which address, and would \<open>mem_map\<close> succeed. The result says
  which page to map and fill; \<open>None\<close> refuses the access.\<close>

definition unmapped_hook :: "bool \<Rightarrow> u64 \<Rightarrow> bool \<Rightarrow> Rec \<Rightarrow> Rec \<times> u64 option" where
  "unmapped_hook is_fetch addr map_ok rc =
     (if is_fetch then (rc, None)
      else if rc_map_count rc \<ge> MAX_RUNTIME_MAPS then (rc\<lparr>rc_capped := True\<rparr>, None)
      else let rc = rc\<lparr>rc_map_count := rc_map_count rc + 1\<rparr>
        in if \<not> map_ok then (rc, None) else (note_new_region addr rc, Some (page_of addr)))"

definition mem_op_cap :: "Config \<Rightarrow> u64" where
  "mem_op_cap cfg = sat_mul64 (instr_cap cfg) MEM_OPS_PER_INSTR_CAP"

definition count_mem_op :: "Rec \<Rightarrow> Rec" where
  "count_mem_op rc = rc\<lparr>rc_mem_op_iters := rc_mem_op_iters rc + 1\<rparr>"

text \<open>The boolean asks the engine to stop.\<close>

definition read_hook :: "u64 \<Rightarrow> Rec \<Rightarrow> Rec \<times> bool" where
  "read_hook addr rc =
     (let rc = count_mem_op rc;
          rc = (if rc_mem_op_iters rc \<ge> mem_op_cap (rc_cfg rc) then rc\<lparr>rc_capped := True\<rparr> else rc)
      in if rc_capped rc then (rc, True)
         else
           let rc = note_new_region addr rc;
               (region, off) = classify_addr (rc_segs rc) addr
           in if region = Stack then (rc, False)
              else
                let e = Read region (bucket_off off); key = token e
                in if key \<in> set (rc_seen_reads rc) then (rc, False)
                   else
                     let rc = rc\<lparr>rc_seen_reads := key # rc_seen_reads rc\<rparr>
                     in (if length (rc_seen_reads rc) \<le> 64 then push_effect e rc else rc, False))"

definition write_hook :: "u64 \<Rightarrow> nat \<Rightarrow> u64 \<Rightarrow> Rec \<Rightarrow> Rec \<times> bool" where
  "write_hook addr sz val rc =
     (let rc = count_mem_op rc;
          rc = (if length (rc_effects rc) \<ge> max_effects (rc_cfg rc) \<or> rc_mem_op_iters rc \<ge> mem_op_cap (rc_cfg rc)
                then rc\<lparr>rc_capped := True\<rparr> else rc)
      in if rc_capped rc then (rc, True)
         else
           let rc = note_new_region addr rc;
               (region, off) = classify_addr (rc_segs rc) addr
           in if region = Stack then (rc, False)
              else (push_effect (Write region (bucket_off off) (classify_value (mask_to_size val sz))) rc, False))"

section \<open>The code hook\<close>

text \<open>The registers as the engine reads them, by name, \<open>None\<close> when a read fails; and what the hook asks of the engine: to
  stop, and which registers to write. Where the program counter, the return value and the system call number live
  depends on the architecture.\<close>

type_synonym regs = "string \<rightharpoonup> u64"

record steer =
  st_stop :: bool
  st_regs :: "(string \<times> u64) list"

definition go_on :: steer where
  "go_on = \<lparr>st_stop = False, st_regs = []\<rparr>"

definition or_0 :: "u64 option \<Rightarrow> u64" where
  "or_0 r = (case r of Some v \<Rightarrow> v | None \<Rightarrow> 0)"

definition pc_reg :: "Arch \<Rightarrow> string" where
  "pc_reg isa = (case isa of X86_64 \<Rightarrow> ''RIP'' | Aarch64 \<Rightarrow> ''PC'')"

definition ret_reg :: "Arch \<Rightarrow> string" where
  "ret_reg isa = (case isa of X86_64 \<Rightarrow> ''RAX'' | Aarch64 \<Rightarrow> ''X0'')"

definition pc_of :: "Arch \<Rightarrow> regs \<Rightarrow> u64" where
  "pc_of isa rs = or_0 (rs (pc_reg isa))"

definition set_pc :: "Arch \<Rightarrow> u64 \<Rightarrow> steer \<Rightarrow> steer" where
  "set_pc isa v st = st\<lparr>st_regs := st_regs st @ [(pc_reg isa, v)]\<rparr>"

definition retval :: "Arch \<Rightarrow> regs \<Rightarrow> u64" where
  "retval isa rs = or_0 (rs (ret_reg isa))"

definition set_retval :: "Arch \<Rightarrow> u64 \<Rightarrow> steer \<Rightarrow> steer" where
  "set_retval isa v st = st\<lparr>st_regs := st_regs st @ [(ret_reg isa, v)]\<rparr>"

definition syscall_nr :: "Arch \<Rightarrow> regs \<Rightarrow> u32" where
  "syscall_nr isa rs = (case isa of X86_64 \<Rightarrow> ucast (or_0 (rs ''RAX'')) | Aarch64 \<Rightarrow> ucast (or_0 (rs ''X8'')))"

lemma set_stops [simp]: "st_stop (set_pc isa v st) = st_stop st" "st_stop (set_retval isa v st) = st_stop st"
  by (simp_all add: set_pc_def set_retval_def)

definition resolve_branch :: "u64 \<Rightarrow> Rec \<Rightarrow> Rec" where
  "resolve_branch addr rc =
     (case rc_pending_branch rc of
        None \<Rightarrow> rc
      | Some t \<Rightarrow> rc\<lparr>rc_pending_branch := None, rc_natural_dirs := rc_natural_dirs rc @ [addr = t]\<rparr>)"

definition visit :: "u64 \<Rightarrow> Rec \<Rightarrow> u32" where
  "visit addr rc = (case rc_visits rc addr of Some c \<Rightarrow> c | None \<Rightarrow> 0)"

definition count_insn :: "u64 \<Rightarrow> Rec \<Rightarrow> Rec" where
  "count_insn addr rc =
     rc\<lparr>rc_instret := rc_instret rc + 1, rc_visits := (rc_visits rc)(addr \<mapsto> visit addr rc + 1)\<rparr>"

definition over_caps :: "u64 \<Rightarrow> Rec \<Rightarrow> bool" where
  "over_caps addr rc \<longleftrightarrow> visit addr rc > visit_cap (rc_cfg rc) \<or> rc_instret rc > instr_cap (rc_cfg rc)
     \<or> length (rc_effects rc) \<ge> max_effects (rc_cfg rc)"

definition cover :: "u64 \<Rightarrow> u64 \<Rightarrow> Rec \<Rightarrow> Rec" where
  "cover addr ilen rc =
     (if visit addr rc = 1 \<and> addr \<ge> rc_func_lo rc \<and> addr < rc_func_hi rc
      then rc\<lparr>rc_covered_bytes := sat_add64 (rc_covered_bytes rc) ilen,
              rc_covered := AList.update addr ilen (rc_covered rc)\<rparr>
      else rc)"

definition add_callee :: "u64 \<Rightarrow> Rec \<Rightarrow> Rec" where
  "add_callee t rc = rc\<lparr>rc_callees := List.insert t (rc_callees rc)\<rparr>"

definition do_call :: "u64 option \<Rightarrow> bool \<Rightarrow> u64 \<Rightarrow> Rec \<Rightarrow> Rec \<times> steer" where
  "do_call target direct next_ip rc =
     (let name = Option.bind target (rc_symbols rc);
          rc = (case target of
                  Some t \<Rightarrow> if direct \<and> name = None \<and> in_ranges (rc_segs rc) t then add_callee t rc else rc
                | None \<Rightarrow> rc);
          rc = rc\<lparr>rc_ret_ctr := rc_ret_ctr rc + 1\<rparr>;
          rc = push_effect (Call (case name of Some n \<Rightarrow> Sym n | None \<Rightarrow> Anon)) rc;
          tag = 0x5555000000000000 XOR (rc_ret_ctr rc * 0x9e3779b97f4a7c15)
      in (rc, set_pc (rc_isa rc) next_ip (set_retval (rc_isa rc) tag go_on)))"

definition do_syscall :: "regs \<Rightarrow> u64 \<Rightarrow> Rec \<Rightarrow> Rec \<times> steer" where
  "do_syscall rs next_ip rc =
     (let rc = push_effect (Syscall (syscall_nr (rc_isa rc) rs)) rc;
          rc = rc\<lparr>rc_ret_ctr := rc_ret_ctr rc + 1\<rparr>;
          tag = 0x6666000000000000 XOR rc_ret_ctr rc
      in (rc, set_pc (rc_isa rc) next_ip (set_retval (rc_isa rc) tag go_on)))"

definition do_branch :: "u64 option \<Rightarrow> u64 \<Rightarrow> Rec \<Rightarrow> Rec \<times> steer" where
  "do_branch target next_ip rc =
     (let rc = push_effect Branch rc;
          idx = rc_branch_seen rc;
          rc = rc\<lparr>rc_branch_seen := idx + 1\<rparr>;
          forced = (if idx < length (rc_force rc) then Some (rc_force rc ! idx) else None)
      in case (forced, target) of
           (Some dir, Some t) \<Rightarrow> (rc, set_pc (rc_isa rc) (if dir then t else next_ip) go_on)
         | _ \<Rightarrow> (rc\<lparr>rc_pending_branch := target\<rparr>, go_on))"

definition code_hook :: "u64 \<Rightarrow> u8 list \<Rightarrow> regs \<Rightarrow> Rec \<Rightarrow> Rec \<times> steer" where
  "code_hook addr buf rs rc =
     (let (kind, ilen) = decode (rc_cs rc) addr buf;
          rc = resolve_branch addr rc;
          rc = count_insn addr rc
      in if over_caps addr rc then (rc\<lparr>rc_capped := True\<rparr>, go_on\<lparr>st_stop := True\<rparr>)
         else
           let rc = cover addr ilen rc; next_ip = addr + ilen
           in case kind of
                KCall target direct \<Rightarrow> do_call target direct next_ip rc
              | KSyscall \<Rightarrow> do_syscall rs next_ip rc
              | KRet \<Rightarrow> (push_effect (Ret (classify_value (retval (rc_isa rc) rs))) rc, go_on)
              | KBranch target \<Rightarrow> do_branch target next_ip rc
              | KPlain \<Rightarrow> (rc, go_on))"

lemma isa_kept [simp]: "rc_isa (push_effect e rc) = rc_isa rc" "rc_isa (count_insn a rc) = rc_isa rc"
  "rc_isa (cover a n rc) = rc_isa rc" "rc_isa (resolve_branch a rc) = rc_isa rc"
  by (simp_all add: push_effect_def count_insn_def cover_def resolve_branch_def split: option.split)

section \<open>The classification is exact\<close>

lemma unat_arg_base: "k < NARGS \<Longrightarrow> unat (arg_base k) = 0x1000000000 + 0x100000000 * k"
proof -
  assume "k < NARGS"
  then have k: "k < 6" by (simp add: NARGS_def)
  then have "unat (of_nat k * ARG_STRIDE) = 0x100000000 * k"
    by (simp add: ARG_STRIDE_def unat_word_ariths unat_of_nat)
  then show ?thesis
    using unat_add64_no_wrap [of ARG_BASE "of_nat k * ARG_STRIDE"] k by (simp add: arg_base_def ARG_BASE_def)
qed

lemma in_arg_iff:
  assumes "k < NARGS"
  shows "in_arg v k \<longleftrightarrow> 0x1000000000 + 0x100000000 * k \<le> unat v \<and> unat v < 0x1000008000 + 0x100000000 * k"
proof -
  have "unat (arg_base k + ARG_SIZE) = 0x1000008000 + 0x100000000 * k"
    using unat_add64_no_wrap [of "arg_base k" ARG_SIZE] assms unat_arg_base [OF assms] by (simp add: ARG_SIZE_def NARGS_def)
  then show ?thesis by (simp add: in_arg_def word_le_nat_alt word_less_nat_alt unat_arg_base [OF assms])
qed

lemma in_arg_unique: "in_arg v j \<Longrightarrow> in_arg v k \<Longrightarrow> j < NARGS \<Longrightarrow> k < NARGS \<Longrightarrow> j = k"
proof (rule ccontr)
  assume a: "in_arg v j" "in_arg v k" "j < NARGS" "k < NARGS" and "j \<noteq> k"
  then consider "j + 1 \<le> k" | "k + 1 \<le> j" by fastforce
  then show False using a(1,2) in_arg_iff [OF a(3)] in_arg_iff [OF a(4)] by cases auto
qed

lemma in_arg_base: "k < NARGS \<Longrightarrow> in_arg (arg_base k) k"
  by (simp add: in_arg_iff unat_arg_base)

lemma u16_nat_inj: "(of_nat j :: u16) = of_nat k \<Longrightarrow> j < NARGS \<Longrightarrow> k < NARGS \<Longrightarrow> j = k"
proof -
  assume e: "(of_nat j :: u16) = of_nat k" and l: "j < NARGS" "k < NARGS"
  have "unat (of_nat i :: u16) = i" if "i < NARGS" for i using that by (simp add: unat_of_nat NARGS_def)
  then show "j = k" using e l by metis
qed

lemma find_in_arg:
  "List.find (in_arg v) [0..<NARGS] = Some k \<longleftrightarrow> k < NARGS \<and> in_arg v k"
proof
  assume "List.find (in_arg v) [0..<NARGS] = Some k"
  then show "k < NARGS \<and> in_arg v k" by (auto simp: find_Some_iff)
next
  assume k: "k < NARGS \<and> in_arg v k"
  then obtain j where j: "List.find (in_arg v) [0..<NARGS] = Some j"
    by (cases "List.find (in_arg v) [0..<NARGS]") (auto simp: find_None_iff)
  then have "j < NARGS \<and> in_arg v j" by (auto simp: find_Some_iff)
  then show "List.find (in_arg v) [0..<NARGS] = Some k" using j k in_arg_unique by blast
qed

lemma value_of_args_find:
  "(\<And>j k. j \<in> set ks \<Longrightarrow> k \<in> set ks \<Longrightarrow> in_arg v j \<Longrightarrow> in_arg v k \<Longrightarrow> j = k) \<Longrightarrow> (\<And>k. k \<in> set ks \<Longrightarrow> in_arg (arg_base k) k) \<Longrightarrow>
   value_of_args ks v = map_option (\<lambda>k. if v = arg_base k then Input (of_nat k) else InputDeriv (of_nat k)) (List.find (in_arg v) ks)"
  by (induction ks) auto

lemma value_of_args_NARGS:
  "value_of_args [0..<NARGS] v
     = map_option (\<lambda>k. if v = arg_base k then Input (of_nat k) else InputDeriv (of_nat k)) (List.find (in_arg v) [0..<NARGS])"
  by (rule value_of_args_find) (auto intro: in_arg_unique in_arg_base)

lemma in_arg_nonzero: "k < NARGS \<Longrightarrow> in_arg v k \<Longrightarrow> v \<noteq> 0"
  by (auto simp: in_arg_iff)

text \<open>The six argument windows are told apart exactly: a value is \<open>Input k\<close> iff it is the base of window
  \<open>k\<close> and \<open>InputDeriv k\<close> iff it lies further inside it, an address is in region \<open>Arg k\<close> iff it lies in window \<open>k\<close>, and
  its offset is then the distance from the base. The windows do not meet.\<close>

theorem classification_exact:
  assumes "k < NARGS"
  shows "(classify_value v = Input (of_nat k) \<longleftrightarrow> v = arg_base k)
    \<and> (classify_value v = InputDeriv (of_nat k) \<longleftrightarrow> in_arg v k \<and> v \<noteq> arg_base k)
    \<and> (fst (classify_addr segs v) = Arg (of_nat k) \<longleftrightarrow> in_arg v k)
    \<and> (in_arg v k \<longrightarrow> snd (classify_addr segs v) = v - arg_base k)
    \<and> (in_arg v j \<longrightarrow> in_arg v k \<longrightarrow> j < NARGS \<longrightarrow> j = k)"
proof (cases "List.find (in_arg v) [0..<NARGS]")
  case None
  then have "\<not> in_arg v k" using find_in_arg [of v k] assms by simp
  moreover from this have "v \<noteq> arg_base k" using in_arg_base assms by blast
  ultimately show ?thesis
    using None by (simp add: classify_value_def classify_addr_def value_of_args_NARGS)
next
  case (Some i)
  then have i: "i < NARGS" "in_arg v i" using find_in_arg [of v i] by simp_all
  have ik: "(of_nat i :: u16) = of_nat k \<longleftrightarrow> i = k" using u16_nat_inj i(1) assms by blast
  have inn: "in_arg v k \<longleftrightarrow> i = k" using in_arg_unique i assms by blast
  have b: "v = arg_base k \<Longrightarrow> i = k" using inn in_arg_base [OF assms] by blast
  show ?thesis
    using Some in_arg_nonzero [OF i] ik inn b in_arg_unique assms
    by (auto simp: classify_value_def classify_addr_def value_of_args_NARGS)
qed

theorem classification_exact_witness:
  "fst (classify_addr [] 0x1300000010) = Arg 3 \<and> snd (classify_addr [] 0x1300000010) = 0x10"
proof -
  have k: "3 < NARGS" by (simp add: NARGS_def)
  have "in_arg 0x1300000010 3" using in_arg_iff [OF k] by simp
  moreover have "arg_base 3 = 0x1300000000" by (simp add: arg_base_def ARG_BASE_def ARG_STRIDE_def)
  ultimately show ?thesis using classification_exact [OF k, where v = "0x1300000010" and segs = "[]"] by simp
qed

lemma sint_u32: "- (2 ^ 31) \<le> x \<Longrightarrow> x < 2 ^ 31 \<Longrightarrow> sint (word_of_int x :: u32) = x"
  by (simp add: sint_sbintrunc' signed_take_bit_int_eq_self)

lemma sint_bucket_off: "sint (bucket_off off) = max (- 2048) (min ((sint off sdiv 8) * 8) 2048)"
  unfolding bucket_off_def Let_def by (rule sint_u32) auto

lemma sdiv8_bounds:
  fixes s :: int
  shows "8 dvd (s sdiv 8) * 8" and "0 \<le> s \<Longrightarrow> 0 \<le> (s sdiv 8) * 8 \<and> (s sdiv 8) * 8 \<le> s \<and> s \<le> (s sdiv 8) * 8 + 7"
    and "s \<le> 0 \<Longrightarrow> s \<le> (s sdiv 8) * 8 \<and> (s sdiv 8) * 8 \<le> 0 \<and> (s sdiv 8) * 8 \<le> s + 7"
    and "s \<le> t \<Longrightarrow> (s sdiv 8) * 8 \<le> (t sdiv 8) * 8"
proof -
  have d: "s sdiv 8 = (if 0 \<le> s then s div 8 else - (- s div 8))" for s :: int
    by (auto simp: signed_divide_int_def sgn_if)
  show "8 dvd (s sdiv 8) * 8" by simp
  show p: "0 \<le> s \<Longrightarrow> 0 \<le> (s sdiv 8) * 8 \<and> (s sdiv 8) * 8 \<le> s \<and> s \<le> (s sdiv 8) * 8 + 7" for s :: int
    unfolding d by simp presburger
  show n: "s \<le> 0 \<Longrightarrow> s \<le> (s sdiv 8) * 8 \<and> (s sdiv 8) * 8 \<le> 0 \<and> (s sdiv 8) * 8 \<le> s + 7" for s :: int
    unfolding d by (cases "s = 0") (simp, presburger)
  show "s \<le> t \<Longrightarrow> (s sdiv 8) * 8 \<le> (t sdiv 8) * 8"
  proof -
    assume le: "s \<le> t"
    consider "0 \<le> s" | "t \<le> 0" | "s \<le> 0" "0 \<le> t" by linarith
    then show ?thesis
    proof cases
      case 1
      then show ?thesis using le unfolding d by (simp add: zdiv_mono1)
    next
      case 2
      then show ?thesis using le unfolding d by (auto simp: zdiv_mono1)
    next
      case 3
      then show ?thesis using p [of t] n [of s] by linarith
    qed
  qed
qed

text \<open>A field offset is bucketed towards zero to a multiple of eight within 2048 bytes: offsets less than
  2056 bytes away move by at most seven, the sign is never swapped, and the order of offsets is kept.\<close>

theorem bucket_off_spec:
  "8 dvd sint (bucket_off off) \<and> \<bar>sint (bucket_off off)\<bar> \<le> 2048 \<and> \<bar>sint (bucket_off off)\<bar> \<le> \<bar>sint off\<bar>
   \<and> (\<bar>sint off\<bar> < 2056 \<longrightarrow> \<bar>sint off - sint (bucket_off off)\<bar> \<le> 7)
   \<and> 0 \<le> sint off * sint (bucket_off off)
   \<and> (sint off \<le> sint off' \<longrightarrow> sint (bucket_off off) \<le> sint (bucket_off off'))"
proof -
  define b b' where "b = (sint off sdiv 8) * 8" and "b' = (sint off' sdiv 8) * 8"
  have d: "8 dvd b" using sdiv8_bounds(1) by (simp add: b_def)
  have c: "sint (bucket_off off) = max (- 2048) (min b 2048)" "sint (bucket_off off') = max (- 2048) (min b' 2048)"
    by (simp_all add: sint_bucket_off b_def b'_def)
  have "8 dvd max (- 2048) (min b 2048)" using d by (simp add: max_def min_def)
  moreover have "\<bar>sint (bucket_off off)\<bar> \<le> 2048 \<and> \<bar>sint (bucket_off off)\<bar> \<le> \<bar>sint off\<bar>
      \<and> (\<bar>sint off\<bar> < 2056 \<longrightarrow> \<bar>sint off - sint (bucket_off off)\<bar> \<le> 7)"
    unfolding c using sdiv8_bounds(2,3) [of "sint off"] by (fold b_def) (cases "0 \<le> sint off"; auto)
  moreover have "0 \<le> sint off * sint (bucket_off off)"
  proof (cases "0 \<le> sint off")
    case True
    then have "0 \<le> sint (bucket_off off)" unfolding c using sdiv8_bounds(2) [of "sint off"] by (simp add: b_def)
    then show ?thesis using True by simp
  next
    case False
    then have "sint (bucket_off off) \<le> 0" unfolding c using sdiv8_bounds(3) [of "sint off"] by (simp add: b_def)
    then show ?thesis using False by (simp add: mult_nonpos_nonpos)
  qed
  moreover have "sint (bucket_off off) \<le> sint (bucket_off off')" if "sint off \<le> sint off'"
    unfolding c using sdiv8_bounds(4) [OF that] by (simp add: b_def b'_def max_def min_def)
  ultimately show ?thesis unfolding c by blast
qed

theorem bucket_off_spec_witness: "\<bar>sint (0x13 :: u64) - sint (bucket_off 0x13)\<bar> \<le> 7"
  using bucket_off_spec [where off = "0x13"] by simp

end
