(* ===== verification/Emu.thy ===== *)
theory Emu
  imports Recorder
begin

text \<open>
  Micro-execution (\<open>crates/fnprint-emu/src/lib.rs\<close>): setting up a fresh machine, the run under the hooks of theory
  \<open>Recorder\<close>, and the traces that path exploration and blanket execution produce.

  The CPU is \<open>unicorn\<close>'s, a parameter: after a setup and the hooks' replies so far it gives the next event, a hook
  call or the end of the run. What \<open>unicorn\<close> documents and the program relies on is that a region cannot be
  mapped over another one, that the hooks are called one at a time, and, for termination, that a run ends
  soon after a hook asks it to stop or refuses an access.
\<close>

section \<open>Pages\<close>

datatype uc_error = UcNoMem | UcMap | UcException | UcOther

text \<open>The engine's regions and the program's own mirror of the mapped pages.\<close>

record space =
  sp_regions :: "(u64 \<times> u64) list"
  sp_mapped :: "u64 set"

definition overlaps :: "u64 \<Rightarrow> u64 \<Rightarrow> u64 \<times> u64 \<Rightarrow> bool" where
  "overlaps a n r \<longleftrightarrow> unat a < unat (fst r) + unat (snd r) \<and> unat (fst r) < unat a + unat n"

text \<open>\<open>mem_map\<close> fails over an existing region, and may refuse for reasons of its own.\<close>

type_synonym refusal = "(u64 \<times> u64) list \<Rightarrow> u64 \<Rightarrow> u64 \<Rightarrow> bool"

definition mem_map :: "refusal \<Rightarrow> u64 \<Rightarrow> u64 \<Rightarrow> (u64 \<times> u64) list \<Rightarrow> (u64 \<times> u64) list option" where
  "mem_map refuse a n rs = (if list_ex (overlaps a n) rs \<or> refuse rs a n then None else Some (rs @ [(a, n)]))"

definition page_at :: "u64 \<Rightarrow> nat \<Rightarrow> u64" where
  "page_at start i = start + of_nat i * PAGE"

definition pages :: "u64 \<Rightarrow> nat \<Rightarrow> nat \<Rightarrow> u64 set" where
  "pages start i j = page_at start ` {i..<j}"

text \<open>The end of the run of unmapped pages from index \<open>i\<close>.\<close>

definition run_end :: "u64 set \<Rightarrow> u64 \<Rightarrow> nat \<Rightarrow> nat \<Rightarrow> nat" where
  "run_end mapped start n i = i + length (takeWhile (\<lambda>k. page_at start k \<notin> mapped) [i..<n])"

lemma run_end_bounds: "i < n \<Longrightarrow> page_at start i \<notin> mapped \<Longrightarrow> i < run_end mapped start n i \<and> run_end mapped start n i \<le> n"
proof -
  assume "i < n" "page_at start i \<notin> mapped"
  then have "takeWhile (\<lambda>k. page_at start k \<notin> mapped) [i..<n] = i # takeWhile (\<lambda>k. page_at start k \<notin> mapped) [Suc i..<n]"
    by (simp add: upt_rec [of i n])
  then have "i < run_end mapped start n i" by (simp add: run_end_def)
  moreover have "run_end mapped start n i \<le> n"
    using length_takeWhile_le [of "\<lambda>k. page_at start k \<notin> mapped" "[i..<n]"] \<open>i < n\<close> by (simp add: run_end_def)
  ultimately show ?thesis by simp
qed

function map_runs :: "refusal \<Rightarrow> u64 \<Rightarrow> nat \<Rightarrow> nat \<Rightarrow> nat \<Rightarrow> space \<Rightarrow> uc_error + space" where
  "map_runs refuse start n i runs sp =
     (if i < n then
        if page_at start i \<in> sp_mapped sp then map_runs refuse start n (i + 1) runs sp
        else
          let j = run_end (sp_mapped sp) start n i in
          if runs + 1 > MAX_SETUP_RUNS then Inl UcNoMem
          else case mem_map refuse (page_at start i) (page_at start j - page_at start i) (sp_regions sp) of
            None \<Rightarrow> Inl UcMap
          | Some rs \<Rightarrow>
              map_runs refuse start n j (runs + 1)
                \<lparr>sp_regions = rs, sp_mapped = sp_mapped sp \<union> pages start i j\<rparr>
      else Inr sp)"
  by pat_completeness auto
termination
  by (relation "measure (\<lambda>(_, _, n, i, _, _). n - i)") (use run_end_bounds in \<open>force intro: diff_less_mono2\<close>)+

declare map_runs.simps [simp del]

definition ensure_pages :: "refusal \<Rightarrow> u64 \<Rightarrow> u64 \<Rightarrow> space \<Rightarrow> uc_error + space" where
  "ensure_pages refuse start len sp =
     (let first = page_of start;
          last = sat_add64 (sat_add64 start len) (PAGE - 1) AND NOT (PAGE - 1)
      in if last \<le> first then Inr sp
         else
           let span = last - first; n = unat span div unat PAGE in
           case mem_map refuse first span (sp_regions sp) of
             Some rs \<Rightarrow> Inr \<lparr>sp_regions = rs, sp_mapped = sp_mapped sp \<union> pages first 0 n\<rparr>
           | None \<Rightarrow> map_runs refuse first n 0 0 sp)"

text \<open>\<open>fill_bytes\<close> of a zeroed buffer of \<open>len\<close> bytes.\<close>

definition fill_word :: "u64 \<Rightarrow> u64 \<Rightarrow> nat \<Rightarrow> u64" where
  "fill_word base sd i =
     (let x = base + push_bit 3 (of_nat i) + sd * 0x9e3779b97f4a7c15;
          x = (x XOR drop_bit 30 x) * 0xbf58476d1ce4e5b9;
          x = (x XOR drop_bit 27 x) * 0x94d049bb133111eb
      in x XOR drop_bit 31 x)"

definition fill_bytes :: "nat \<Rightarrow> u64 \<Rightarrow> u64 \<Rightarrow> u8 list" where
  "fill_bytes len base sd =
     concat (map (\<lambda>i. le64 (fill_word base sd i)) [0..<len div 8]) @ replicate (len mod 8) 0"

section \<open>Setting up\<close>

datatype setup_op = SNew | SWrite u64 | SReg string | SHooks

record machine =
  su_space :: space
  su_writes :: "(u64 \<times> u8 list) list"
  su_regs :: "(string \<times> u64) list"
  su_isa :: Arch
  su_start :: u64
  su_until :: u64
  su_timeout :: u64
  su_count :: nat

definition map_and_write :: "(setup_op \<Rightarrow> bool) \<Rightarrow> refusal \<Rightarrow> u64 \<Rightarrow> u64 \<Rightarrow> u8 list \<Rightarrow> machine \<Rightarrow> uc_error + machine" where
  "map_and_write fails refuse base len bs su =
     bindR (ensure_pages refuse base len (su_space su)) (\<lambda>sp.
       if fails (SWrite base) then Inl UcOther
       else Inr (su\<lparr>su_space := sp, su_writes := su_writes su @ [(base, bs)]\<rparr>))"

fun map_segments :: "(setup_op \<Rightarrow> bool) \<Rightarrow> refusal \<Rightarrow> Segment list \<Rightarrow> machine \<Rightarrow> uc_error + machine" where
  "map_segments fails refuse [] su = Inr su"
| "map_segments fails refuse (s # ss) su =
     bindR (map_and_write fails refuse (seg_vaddr s) (of_nat (seg_len s)) (seg_bytes s) su) (map_segments fails refuse ss)"

fun map_args :: "(setup_op \<Rightarrow> bool) \<Rightarrow> refusal \<Rightarrow> u64 \<Rightarrow> nat list \<Rightarrow> machine \<Rightarrow> uc_error + machine" where
  "map_args fails refuse sd [] su = Inr su"
| "map_args fails refuse sd (k # ks) su =
     bindR (map_and_write fails refuse (arg_base k) ARG_SIZE (fill_bytes (unat ARG_SIZE) (arg_base k) sd) su)
       (map_args fails refuse sd ks)"

definition arg_regs :: "Arch \<Rightarrow> string list" where
  "arg_regs isa = (case isa of
     X86_64 \<Rightarrow> [''RDI'', ''RSI'', ''RDX'', ''RCX'', ''R8'', ''R9'']
   | Aarch64 \<Rightarrow> [''X0'', ''X1'', ''X2'', ''X3'', ''X4'', ''X5''])"

definition init_regs :: "Arch \<Rightarrow> (string \<times> u64) list" where
  "init_regs isa =
     (case isa of X86_64 \<Rightarrow> [(''RSP'', RSP0), (''RBP'', RSP0)] | Aarch64 \<Rightarrow> [(''SP'', RSP0), (''X29'', RSP0), (''X30'', RET_ADDR)])
     @ map (\<lambda>(k, r). (r, arg_base k)) (enumerated (arg_regs isa))"

definition write_regs :: "(setup_op \<Rightarrow> bool) \<Rightarrow> (string \<times> u64) list \<Rightarrow> machine \<Rightarrow> uc_error + machine" where
  "write_regs fails rs su = (if list_ex (\<lambda>(r, _). fails (SReg r)) rs then Inl UcOther else Inr (su\<lparr>su_regs := rs\<rparr>))"

definition prepare :: "(setup_op \<Rightarrow> bool) \<Rightarrow> refusal \<Rightarrow> Config \<Rightarrow> Image \<Rightarrow> u64 \<Rightarrow> uc_error + machine" where
  "prepare fails refuse cfg im start =
     (if fails SNew then Inl UcOther
      else
        let su = \<lparr>su_space = \<lparr>sp_regions = [], sp_mapped = {}\<rparr>, su_writes = [], su_regs = [],
                  su_isa = im_arch im, su_start = start, su_until = RET_ADDR, su_timeout = timeout_us cfg,
                  su_count = unat (instr_cap cfg)\<rparr> in
        bindR (map_segments fails refuse (segments im) su) (\<lambda>su.
        bindR (map_args fails refuse (seed cfg) [0..<NARGS] su) (\<lambda>su.
        bindR (ensure_pages refuse STACK_BASE STACK_SIZE (su_space su)) (\<lambda>sp.
        if fails (SWrite RSP0) then Inl UcOther
        else
          let su = su\<lparr>su_space := sp, su_writes := su_writes su @ [(RSP0, le64 RET_ADDR)]\<rparr> in
          bindR (write_regs fails (init_regs (im_arch im)) su) (\<lambda>su.
          if fails SHooks then Inl UcOther else Inr su)))))"

section \<open>The run\<close>

datatype event =
    EvUnmapped bool u64 bool
  | EvRead u64
  | EvWrite u64 nat u64
  | EvInsn u64 "u8 list" regs
  | EvEnd bool regs

datatype reply = RAccess "(u64 \<times> u8 list) option" | RMem bool | RSteer steer

type_synonym engine = "reply list \<Rightarrow> event"

fun handle :: "event \<Rightarrow> Rec \<Rightarrow> Rec \<times> reply" where
  "handle (EvUnmapped f a ok) rc =
     (let (rc, p) = unmapped_hook f a ok rc
      in (rc, RAccess (map_option (\<lambda>p. (p, fill_bytes (unat PAGE) p (seed (rc_cfg rc)))) p)))"
| "handle (EvRead a) rc = (let (rc, b) = read_hook a rc in (rc, RMem b))"
| "handle (EvWrite a sz v) rc = (let (rc, b) = write_hook a sz v rc in (rc, RMem b))"
| "handle (EvInsn a buf rs) rc = (let (rc, s) = code_hook a buf rs rc in (rc, RSteer s))"
| "handle (EvEnd ok p) rc = (rc, RMem True)"

text \<open>The run may not end: then there is no result.\<close>

partial_function (option) emu_start :: "engine \<Rightarrow> reply list \<Rightarrow> Rec \<Rightarrow> (Rec \<times> bool \<times> u64) option" where
  "emu_start eng h rc =
     (case eng h of
        EvEnd ok rs \<Rightarrow> Some (rc, ok, pc_of (rc_isa rc) rs)
      | ev \<Rightarrow> emu_start eng (h @ [snd (handle ev rc)]) (fst (handle ev rc)))"

type_synonym RunOut = "EffectTrace \<times> bool list \<times> (u64 \<times> u64) list"

definition init_rec :: "Config \<Rightarrow> disasm_one option \<Rightarrow> (u64 \<rightharpoonup> string) \<Rightarrow> Image \<Rightarrow> Func \<Rightarrow> bool list \<Rightarrow> Rec" where
  "init_rec cfg cs symbols im f force =
     \<lparr>rc_effects = [], rc_visits = Map.empty, rc_instret = 0, rc_capped = False, rc_seen_heapish = [],
      rc_seen_reads = [], rc_heapish_count = 0, rc_cs = cs, rc_isa = im_arch im, rc_symbols = symbols, rc_ret_ctr = 0,
      rc_cfg = cfg, rc_segs = seg_ranges im, rc_force = force, rc_branch_seen = 0, rc_natural_dirs = [],
      rc_pending_branch = None, rc_map_count = 0, rc_func_lo = fn_entry f, rc_func_hi = fn_hi f,
      rc_covered_bytes = 0, rc_covered = [], rc_callees = [], rc_mem_op_iters = 0\<rparr>"

definition ratio32 :: "u64 \<Rightarrow> u64 \<Rightarrow> flt" where
  "ratio32 a b = fdiv binary32 (f32_of_nat (unat a)) (f32_of_nat (unat b))"

definition finish_run :: "Func \<Rightarrow> Rec \<Rightarrow> bool \<Rightarrow> u64 \<Rightarrow> RunOut" where
  "finish_run f rc ok rip =
     (let capd = rc_capped rc \<or> rc_instret rc \<ge> instr_cap (rc_cfg rc);
          capd = (if \<not> capd \<and> (\<not> ok \<or> rip \<noteq> RET_ADDR) then True else capd);
          cov = (if fn_size f = 0 then Fin 1 else fclamp (Fin 0) (Fin 1) (ratio32 (rc_covered_bytes rc) (fn_size f)))
      in (\<lparr>effects = rc_effects rc @ (if capd then [Capped] else []), instret = rc_instret rc, capped = capd,
           coverage = cov, callees = sort (rc_callees rc)\<rparr>, rc_natural_dirs rc, rc_covered rc))"

text \<open>The world a run finds: the disassemblers (\<open>None\<close> when building one fails), the failing calls, the engine.\<close>

record uworld =
  uw_one :: "disasm_one option"
  uw_all :: "disasm_all option"
  uw_fails :: "setup_op \<Rightarrow> bool"
  uw_refuse :: refusal
  uw_engine :: "machine \<Rightarrow> engine"

definition try_run ::
  "uworld \<Rightarrow> Config \<Rightarrow> Image \<Rightarrow> Func \<Rightarrow> (u64 \<rightharpoonup> string) \<Rightarrow> bool list \<Rightarrow> u64 \<Rightarrow> (uc_error + RunOut) option" where
  "try_run w cfg im f symbols force start =
     (if im_arch im = X86_64 \<and> uw_one w = None then Some (Inl UcException)
      else
        let cs = (if im_arch im = X86_64 then uw_one w else None) in
        case prepare (uw_fails w) (uw_refuse w) cfg im start of
          Inl e \<Rightarrow> Some (Inl e)
        | Inr su \<Rightarrow>
            map_option (\<lambda>(rc, ok, rip). Inr (finish_run f rc ok rip))
              (emu_start (uw_engine w su) [] (init_rec cfg cs symbols im f force)))"

definition failed_run :: RunOut where
  "failed_run = (\<lparr>effects = [Capped], instret = 0, capped = True, coverage = Fin 0, callees = []\<rparr>, [], [])"

definition run_from ::
  "uworld \<Rightarrow> Config \<Rightarrow> Image \<Rightarrow> Func \<Rightarrow> (u64 \<rightharpoonup> string) \<Rightarrow> bool list \<Rightarrow> u64 \<Rightarrow> RunOut option" where
  "run_from w cfg im f symbols force start =
     map_option (\<lambda>r. case r of Inl e \<Rightarrow> failed_run | Inr x \<Rightarrow> x) (try_run w cfg im f symbols force start)"

definition run_forced ::
  "uworld \<Rightarrow> Config \<Rightarrow> Image \<Rightarrow> Func \<Rightarrow> (u64 \<rightharpoonup> string) \<Rightarrow> bool list \<Rightarrow> (EffectTrace \<times> bool list) option" where
  "run_forced w cfg im f symbols force =
     map_option (\<lambda>(t, d, _). (t, d)) (run_from w cfg im f symbols force (fn_entry f))"

definition run :: "uworld \<Rightarrow> Config \<Rightarrow> Image \<Rightarrow> Func \<Rightarrow> (u64 \<rightharpoonup> string) \<Rightarrow> EffectTrace option" where
  "run w cfg im f symbols = map_option fst (run_forced w cfg im f symbols [])"

section \<open>Path exploration and blanket execution\<close>

definition extend :: "(u64 \<times> u64) list \<Rightarrow> (u64 \<times> u64) list \<Rightarrow> (u64 \<times> u64) list" where
  "extend covered newly = fold (\<lambda>(a, n). AList.update a n) newly covered"

text \<open>\<open>covered.values().sum()\<close>.\<close>

definition covered_sum :: "(u64 \<times> u64) list \<Rightarrow> u64" where
  "covered_sum covered = sum_list (map snd covered)"

fun stable_effect :: "Effect \<Rightarrow> bool" where
  "stable_effect (Call (Sym _)) = True"
| "stable_effect (Syscall _) = True"
| "stable_effect Capped = True"
| "stable_effect _ = False"

definition body_size :: "Func \<Rightarrow> u64" where
  "body_size f = max (fn_size f) 1"

text \<open>What one restart leaves behind: the covered instructions and the trace it contributes.\<close>

definition after_restart :: "Func \<Rightarrow> u64 \<Rightarrow> (u64 \<times> u64) list \<Rightarrow> RunOut \<Rightarrow> (u64 \<times> u64) list \<times> EffectTrace" where
  "after_restart f start covered r =
     (let (t, _, newly) = r;
          covered' = extend covered newly;
          covered' = (if length covered' = length covered then AList.update start 0 covered' else covered')
      in (covered', t\<lparr>coverage := fclamp (Fin 0) (Fin 1) (ratio32 (covered_sum covered') (body_size f)),
                      effects := filter stable_effect (effects t)\<rparr>))"

fun blanket ::
  "uworld \<Rightarrow> Config \<Rightarrow> Image \<Rightarrow> Func \<Rightarrow> (u64 \<rightharpoonup> string) \<Rightarrow> u64 list \<Rightarrow> nat \<Rightarrow> (u64 \<times> u64) list
    \<Rightarrow> EffectTrace list option" where
  "blanket w cfg im f symbols starts 0 covered = Some []"
| "blanket w cfg im f symbols starts (Suc n) covered =
     (if flt_le BLANKET_ENOUGH (ratio32 (covered_sum covered) (body_size f)) then Some []
      else case List.find (\<lambda>a. a \<notin> fst ` set covered) starts of
        None \<Rightarrow> Some []
      | Some start \<Rightarrow>
          Option.bind (run_from w cfg im f symbols [] start) (\<lambda>r.
            let (covered', t) = after_restart f start covered r
            in map_option (\<lambda>ts. t # ts) (blanket w cfg im f symbols starts n covered')))"

definition flip_plan :: "bool list \<Rightarrow> nat \<Rightarrow> bool list" where
  "flip_plan dirs i = take i dirs @ [\<not> dirs ! i]"

definition explore_seed ::
  "uworld \<Rightarrow> Config \<Rightarrow> Image \<Rightarrow> Func \<Rightarrow> (u64 \<rightharpoonup> string) \<Rightarrow> u64 list \<Rightarrow> u64 \<Rightarrow> EffectTrace list option" where
  "explore_seed w cfg im f symbols starts sd =
     (let cfg = cfg\<lparr>seed := sd\<rparr> in
      Option.bind (run_from w cfg im f symbols [] (fn_entry f)) (\<lambda>(base, dirs, covered).
      Option.bind (those (map (\<lambda>i. map_option fst (run_forced w cfg im f symbols (flip_plan dirs i)))
                         [0..<min (length dirs) (explore_depth cfg)])) (\<lambda>flipped.
      map_option (\<lambda>ts. base # flipped @ ts)
        (blanket w cfg im f symbols starts (blanket_restarts cfg) covered))))"

definition run_explore ::
  "uworld \<Rightarrow> Config \<Rightarrow> Image \<Rightarrow> Func \<Rightarrow> (u64 \<rightharpoonup> string) \<Rightarrow> u64 list \<Rightarrow> EffectTrace list option" where
  "run_explore w cfg im f symbols seeds =
     Option.bind (if blanket_restarts cfg > 0 then insn_starts (uw_all w) im f else Some []) (\<lambda>starts.
       map_option concat (those (map (explore_seed w cfg im f symbols starts) seeds)))"

end
