(* ===== verification/Budget.thy ===== *)
theory Budget
  imports Emu
begin

text \<open>
  Every run ends: the counters the hooks keep (instructions, memory callbacks, mapped pages) bound the hook
  calls of a run, so that on an engine that ends soon after a hook asks it to, \<open>emu_start\<close>, a run, a blanket and
  an exploration give a result.
\<close>

section \<open>What the hooks keep\<close>

lemma push_effect_simps [simp]:
  "rc_cfg (push_effect e rc) = rc_cfg rc" "rc_instret (push_effect e rc) = rc_instret rc"
  "rc_mem_op_iters (push_effect e rc) = rc_mem_op_iters rc" "rc_map_count (push_effect e rc) = rc_map_count rc"
  "rc_capped (push_effect e rc) = rc_capped rc" "rc_segs (push_effect e rc) = rc_segs rc"
  "rc_seen_heapish (push_effect e rc) = rc_seen_heapish rc" "rc_seen_reads (push_effect e rc) = rc_seen_reads rc"
  "rc_heapish_count (push_effect e rc) = rc_heapish_count rc" "rc_callees (push_effect e rc) = rc_callees rc"
  "rc_symbols (push_effect e rc) = rc_symbols rc" "rc_effects (push_effect e rc) = rc_effects rc @ [e]"
  by (simp_all add: push_effect_def)

definition same_counters :: "Rec \<Rightarrow> Rec \<Rightarrow> bool" where
  "same_counters rc rc' \<longleftrightarrow> rc_cfg rc' = rc_cfg rc \<and> rc_instret rc' = rc_instret rc
     \<and> rc_mem_op_iters rc' = rc_mem_op_iters rc \<and> rc_map_count rc' = rc_map_count rc \<and> rc_capped rc' = rc_capped rc
     \<and> rc_segs rc' = rc_segs rc \<and> rc_symbols rc' = rc_symbols rc \<and> rc_callees rc' = rc_callees rc
     \<and> rc_seen_reads rc' = rc_seen_reads rc"

lemma see_heapish_simps:
  "see_heapish k rc = (rc', b) \<Longrightarrow> same_counters rc rc' \<and> rc_effects rc' = rc_effects rc
     \<and> rc_heapish_count rc' = rc_heapish_count rc \<and> b = (k \<notin> set (rc_seen_heapish rc))
     \<and> set (rc_seen_heapish rc') = insert k (set (rc_seen_heapish rc))"
  by (auto simp: see_heapish_def same_counters_def split: if_splits)

lemma note_new_region_counters: "same_counters rc (note_new_region addr rc)"
  using see_heapish_simps
  by (auto simp: note_new_region_def same_counters_def split: Region.split prod.split)

section \<open>Every run ends\<close>

text \<open>A reply asks for the end of the run when it stops the engine or refuses an access.\<close>

fun asks :: "reply \<Rightarrow> bool" where
  "asks (RAccess p) \<longleftrightarrow> p = None"
| "asks (RMem b) \<longleftrightarrow> b"
| "asks (RSteer s) \<longleftrightarrow> st_stop s"

text \<open>What the program relies on of the engine: at most \<open>L\<close> more hook calls after the first such reply.\<close>

definition ends :: "event \<Rightarrow> bool" where
  "ends ev \<longleftrightarrow> (case ev of EvEnd _ _ \<Rightarrow> True | _ \<Rightarrow> False)"

definition stops_within :: "nat \<Rightarrow> engine \<Rightarrow> bool" where
  "stops_within L eng \<longleftrightarrow> (\<forall>h1 r h2. asks r \<longrightarrow> L \<le> length h2 \<longrightarrow> ends (eng (h1 @ r # h2)))"

lemma emu_start_end: "ends (eng h) \<Longrightarrow> \<exists>ok p. emu_start eng h rc = Some (rc, ok, p)"
  by (subst emu_start.simps) (auto simp: ends_def split: event.splits)

lemma emu_start_step:
  "\<not> ends (eng h) \<Longrightarrow> emu_start eng h rc = emu_start eng (h @ [snd (handle (eng h) rc)]) (fst (handle (eng h) rc))"
  by (subst emu_start.simps) (auto simp: ends_def split: event.splits)

lemma emu_start_asked:
  assumes "stops_within L eng" and "asks r"
  shows "\<exists>x. emu_start eng (h1 @ r # h2) rc = Some x"
proof (induction "L - length h2" arbitrary: h2 rc)
  case 0
  then have "ends (eng (h1 @ r # h2))" using assms by (auto simp: stops_within_def)
  then show ?case using emu_start_end by blast
next
  case (Suc n)
  show ?case
  proof (cases "ends (eng (h1 @ r # h2))")
    case True
    then show ?thesis using emu_start_end by blast
  next
    case False
    let ?s = "snd (handle (eng (h1 @ r # h2)) rc)"
    have "n = L - length (h2 @ [?s])" using Suc(2) by simp
    from Suc(1) [OF this] show ?thesis
      using emu_start_step [of eng "h1 @ r # h2" rc] False by simp
  qed
qed

text \<open>The budget left: instructions, memory callbacks, pages.\<close>

definition in_budget :: "Rec \<Rightarrow> bool" where
  "in_budget rc \<longleftrightarrow> unat (rc_instret rc) \<le> unat (instr_cap (rc_cfg rc))
     \<and> (rc_mem_op_iters rc = 0 \<or> unat (rc_mem_op_iters rc) < unat (mem_op_cap (rc_cfg rc)))
     \<and> rc_map_count rc \<le> MAX_RUNTIME_MAPS"

definition budget :: "Rec \<Rightarrow> nat" where
  "budget rc = (unat (instr_cap (rc_cfg rc)) - unat (rc_instret rc))
     + (unat (mem_op_cap (rc_cfg rc)) - unat (rc_mem_op_iters rc)) + (MAX_RUNTIME_MAPS - rc_map_count rc)"

lemma step_unmapped:
  assumes "in_budget rc" and "\<not> asks (snd (handle (EvUnmapped f a ok) rc))"
  shows "in_budget (fst (handle (EvUnmapped f a ok) rc)) \<and> budget (fst (handle (EvUnmapped f a ok) rc)) < budget rc
    \<and> rc_cfg (fst (handle (EvUnmapped f a ok) rc)) = rc_cfg rc"
  using assms note_new_region_counters [of "rc\<lparr>rc_map_count := rc_map_count rc + 1\<rparr>" a]
  by (auto simp: unmapped_hook_def in_budget_def budget_def same_counters_def Let_def split: if_splits)

lemma iters_step:
  assumes "in_budget rc" and "\<not> rc_mem_op_iters rc + 1 \<ge> mem_op_cap (rc_cfg rc)"
  shows "unat (rc_mem_op_iters rc + 1) = unat (rc_mem_op_iters rc) + 1"
    and "unat (rc_mem_op_iters rc + 1) < unat (mem_op_cap (rc_cfg rc))"
proof -
  have "unat (rc_mem_op_iters rc) + 1 < 2 ^ 64"
    using assms(1) unat64_lt [of "mem_op_cap (rc_cfg rc)"] by (auto simp: in_budget_def)
  then show "unat (rc_mem_op_iters rc + 1) = unat (rc_mem_op_iters rc) + 1"
    using unat_add64_no_wrap [of "rc_mem_op_iters rc" 1] by simp
  show "unat (rc_mem_op_iters rc + 1) < unat (mem_op_cap (rc_cfg rc))"
    using assms(2) by (simp add: word_le_nat_alt)
qed

lemma read_hook_counters:
  assumes "read_hook a rc = (rc', False)"
  shows "rc_cfg rc' = rc_cfg rc \<and> rc_instret rc' = rc_instret rc \<and> rc_map_count rc' = rc_map_count rc
    \<and> rc_mem_op_iters rc' = rc_mem_op_iters rc + 1 \<and> \<not> rc_mem_op_iters rc + 1 \<ge> mem_op_cap (rc_cfg rc)"
  using assms note_new_region_counters [of "count_mem_op rc" a]
  by (auto simp: read_hook_def count_mem_op_def same_counters_def Let_def split: if_splits prod.splits)

lemma write_hook_counters:
  assumes "write_hook a sz v rc = (rc', False)"
  shows "rc_cfg rc' = rc_cfg rc \<and> rc_instret rc' = rc_instret rc \<and> rc_map_count rc' = rc_map_count rc
    \<and> rc_mem_op_iters rc' = rc_mem_op_iters rc + 1 \<and> \<not> rc_mem_op_iters rc + 1 \<ge> mem_op_cap (rc_cfg rc)"
  using assms note_new_region_counters [of "count_mem_op rc" a]
  by (auto simp: write_hook_def count_mem_op_def same_counters_def Let_def split: if_splits prod.splits)


lemma step_mem:
  assumes "in_budget rc" and "rc_cfg rc' = rc_cfg rc \<and> rc_instret rc' = rc_instret rc \<and> rc_map_count rc' = rc_map_count rc
    \<and> rc_mem_op_iters rc' = rc_mem_op_iters rc + 1 \<and> \<not> rc_mem_op_iters rc + 1 \<ge> mem_op_cap (rc_cfg rc)"
  shows "in_budget rc' \<and> budget rc' < budget rc"
proof -
  have "\<not> rc_mem_op_iters rc + 1 \<ge> mem_op_cap (rc_cfg rc)" using assms(2) by blast
  note it = iters_step [OF assms(1) this]
  then show ?thesis using assms unfolding in_budget_def budget_def by (auto simp del: word_less_no)
qed

lemma code_hook_counters:
  assumes "code_hook addr buf rs rc = (rc', s)" and "\<not> st_stop s"
  shows "rc_cfg rc' = rc_cfg rc \<and> rc_instret rc' = rc_instret rc + 1 \<and> rc_map_count rc' = rc_map_count rc
    \<and> rc_mem_op_iters rc' = rc_mem_op_iters rc \<and> \<not> rc_instret rc + 1 > instr_cap (rc_cfg rc)"
proof -
  have r: "rc_cfg (resolve_branch addr rc) = rc_cfg rc" "rc_instret (resolve_branch addr rc) = rc_instret rc"
      "rc_map_count (resolve_branch addr rc) = rc_map_count rc" "rc_mem_op_iters (resolve_branch addr rc) = rc_mem_op_iters rc"
    by (simp_all add: resolve_branch_def split: option.split)
  have c: "rc_cfg (cover a n x) = rc_cfg x" "rc_instret (cover a n x) = rc_instret x"
      "rc_map_count (cover a n x) = rc_map_count x" "rc_mem_op_iters (cover a n x) = rc_mem_op_iters x" for a n x
    by (simp_all add: cover_def)
  show ?thesis
    using assms r
    by (auto simp: code_hook_def Let_def over_caps_def count_insn_def c go_on_def do_call_def do_syscall_def do_branch_def
      add_callee_def split: prod.splits if_splits Kind.splits option.splits bool.splits)
qed

lemma step_insn:
  assumes "in_budget rc" and "code_hook addr buf rs rc = (rc', s)" and "\<not> st_stop s" and "instr_cap (rc_cfg rc) < u64_max"
  shows "in_budget rc' \<and> budget rc' < budget rc \<and> rc_cfg rc' = rc_cfg rc"
proof -
  note c = code_hook_counters [OF assms(2,3)]
  have "unat (instr_cap (rc_cfg rc)) < 2 ^ 64 - 1" using assms(4) by (simp add: word_less_nat_alt)
  then have i: "unat (rc_instret rc + 1) = unat (rc_instret rc) + 1"
    using assms(1) unat_add64_no_wrap [of "rc_instret rc" 1] by (simp add: in_budget_def)
  have le: "unat (rc_instret rc + 1) \<le> unat (instr_cap (rc_cfg rc))" using c by (simp add: word_less_nat_alt)
  then have lt: "unat (instr_cap (rc_cfg rc)) - unat (rc_instret rc + 1) < unat (instr_cap (rc_cfg rc)) - unat (rc_instret rc)"
    using i by linarith
  have "in_budget rc'" using c le assms(1) by (simp add: in_budget_def)
  moreover have "budget rc' < budget rc"
    unfolding budget_def using c lt by (simp only: add_less_cancel_right)
  ultimately show ?thesis using c by blast
qed

lemma handle_budget:
  assumes "in_budget rc" and "\<not> ends ev" and "\<not> asks (snd (handle ev rc))" and "instr_cap (rc_cfg rc) < u64_max"
  shows "in_budget (fst (handle ev rc)) \<and> budget (fst (handle ev rc)) < budget rc \<and> rc_cfg (fst (handle ev rc)) = rc_cfg rc"
proof (cases ev)
  case (EvUnmapped f a ok)
  then show ?thesis using step_unmapped [of rc f a ok] assms by simp
next
  case (EvRead a)
  then obtain rc' where r: "read_hook a rc = (rc', False)" using assms(3) by (cases "read_hook a rc") auto
  then show ?thesis using EvRead step_mem [OF assms(1) read_hook_counters [OF r]] read_hook_counters [OF r] by simp
next
  case (EvWrite a sz v)
  then obtain rc' where r: "write_hook a sz v rc = (rc', False)" using assms(3) by (cases "write_hook a sz v rc") auto
  then show ?thesis using EvWrite step_mem [OF assms(1) write_hook_counters [OF r]] write_hook_counters [OF r] by simp
next
  case (EvInsn a buf rs)
  then obtain rc' s where r: "code_hook a buf rs rc = (rc', s)" "\<not> st_stop s" using assms(3) by (cases "code_hook a buf rs rc") auto
  then show ?thesis using EvInsn step_insn [OF assms(1) r assms(4)] by simp
next
  case (EvEnd ok p)
  then show ?thesis using assms(2) by (simp add: ends_def)
qed

lemma emu_start_total:
  assumes "stops_within L eng"
  shows "in_budget rc \<Longrightarrow> instr_cap (rc_cfg rc) < u64_max \<Longrightarrow> \<exists>x. emu_start eng h rc = Some x"
proof (induction "budget rc" arbitrary: h rc rule: less_induct)
  case less
  show ?case
  proof (cases "ends (eng h)")
    case True
    then show ?thesis using emu_start_end by blast
  next
    case False
    let ?r = "snd (handle (eng h) rc)" and ?rc = "fst (handle (eng h) rc)"
    note step = emu_start_step [of eng h rc, OF False]
    show ?thesis
    proof (cases "asks ?r")
      case True
      then show ?thesis unfolding step using emu_start_asked [OF assms True, of h "[]"] by simp
    next
      case no: False
      note b = handle_budget [OF less(2) False no less(3)]
      then show ?thesis unfolding step using less(1) [of ?rc] less(3) by simp
    qed
  qed
qed

lemma init_in_budget: "in_budget (init_rec cfg cs symbols im f force)"
  by (simp add: in_budget_def init_rec_def)

lemma try_run_total:
  assumes "\<And>su. stops_within L (uw_engine w su)" and "instr_cap cfg < u64_max"
  shows "\<exists>x. try_run w cfg im f symbols force start = Some x"
proof (cases "im_arch im = X86_64 \<and> uw_one w = None")
  case False
  show ?thesis
  proof (cases "prepare (uw_fails w) (uw_refuse w) cfg im start")
    case (Inr su)
    let ?rc = "init_rec cfg (if im_arch im = X86_64 then uw_one w else None) symbols im f force"
    have "instr_cap (rc_cfg ?rc) < u64_max" using assms(2) by (simp add: init_rec_def)
    with emu_start_total [OF assms(1), of ?rc su "[]"] init_in_budget
    obtain rc ok rip where "emu_start (uw_engine w su) [] ?rc = Some (rc, ok, rip)" by force
    then show ?thesis using False Inr by (auto simp: try_run_def Let_def)
  qed (use False in \<open>auto simp: try_run_def Let_def\<close>)
qed (auto simp: try_run_def)

lemma run_from_total:
  assumes "\<And>su. stops_within L (uw_engine w su)" and "instr_cap cfg < u64_max"
  shows "\<exists>x. run_from w cfg im f symbols force start = Some x"
proof -
  obtain r where "try_run w cfg im f symbols force start = Some r" using try_run_total [OF assms] by blast
  then have "run_from w cfg im f symbols force start = Some (case r of Inl e \<Rightarrow> failed_run | Inr x \<Rightarrow> x)"
    by (simp add: run_from_def)
  then show ?thesis by blast
qed

lemma blanket_total:
  assumes "\<And>su. stops_within L (uw_engine w su)" and "instr_cap cfg < u64_max"
  shows "\<exists>ts. blanket w cfg im f symbols starts n covered = Some ts \<and> length ts \<le> n"
proof (induction n arbitrary: covered)
  case (Suc n)
  show ?case
  proof (cases "flt_le BLANKET_ENOUGH (ratio32 (covered_sum covered) (body_size f))
      \<or> List.find (\<lambda>a. a \<notin> fst ` set covered) starts = None")
    case False
    then obtain start where s: "List.find (\<lambda>a. a \<notin> fst ` set covered) starts = Some start" by auto
    obtain r where r: "run_from w cfg im f symbols [] start = Some r" using run_from_total [OF assms] by blast
    obtain cv t where ct: "after_restart f start covered r = (cv, t)" by fastforce
    obtain ts where "blanket w cfg im f symbols starts n cv = Some ts" "length ts \<le> n" using Suc by blast
    then show ?thesis using False s r ct by simp
  qed auto
qed simp

lemma those_total: "(\<And>x. x \<in> set xs \<Longrightarrow> \<exists>y. f x = Some y) \<Longrightarrow> \<exists>ys. those (map f xs) = Some ys \<and> length ys = length xs"
  by (induction xs) fastforce+

lemma explore_seed_total:
  assumes "\<And>su. stops_within L (uw_engine w su)" and "instr_cap cfg < u64_max"
  shows "\<exists>ts. explore_seed w cfg im f symbols starts sd = Some ts
    \<and> 1 \<le> length ts \<and> length ts \<le> 1 + explore_depth cfg + blanket_restarts cfg"
proof -
  let ?c = "cfg\<lparr>seed := sd\<rparr>"
  have c: "instr_cap ?c < u64_max" using assms(2) by simp
  obtain base dirs cov where b: "run_from w ?c im f symbols [] (fn_entry f) = Some (base, dirs, cov)"
    using run_from_total [OF assms(1) c] by (metis prod_cases3)
  let ?d = "min (length dirs) (explore_depth ?c)"
  have "\<exists>y. map_option fst (run_forced w ?c im f symbols (flip_plan dirs i)) = Some y" for i
    using run_from_total [OF assms(1) c, of im f symbols "flip_plan dirs i" "fn_entry f"] by (auto simp: run_forced_def)
  then obtain fl where fl: "those (map (\<lambda>i. map_option fst (run_forced w ?c im f symbols (flip_plan dirs i))) [0..<?d]) = Some fl"
      "length fl = ?d"
    using those_total [of "[0..<?d]" "\<lambda>i. map_option fst (run_forced w ?c im f symbols (flip_plan dirs i))"] by auto
  obtain ts where ts: "blanket w ?c im f symbols starts (blanket_restarts ?c) cov = Some ts" "length ts \<le> blanket_restarts ?c"
    using blanket_total [OF assms(1) c] by blast
  then show ?thesis using b fl by (auto simp: explore_seed_def Let_def)
qed


end
