(* ===== verification/Pages.thy ===== *)
theory Pages
  imports Emu
begin

text \<open>
  The setup of a run: what \<open>ensure_pages\<close> promises of the engine's regions and of the program's mirror of
  the mapped pages, and what a prepared machine holds.
\<close>

section \<open>Regions as sets of pages\<close>

definition region_pages :: "u64 \<times> u64 \<Rightarrow> u64 set" where
  "region_pages r = {p. 4096 dvd unat p \<and> unat (fst r) \<le> unat p \<and> unat p < unat (fst r) + unat (snd r)}"

definition wf_region :: "u64 \<times> u64 \<Rightarrow> bool" where
  "wf_region r \<longleftrightarrow> 4096 dvd unat (fst r) \<and> 4096 dvd unat (snd r) \<and> 0 < unat (snd r)
     \<and> unat (fst r) + unat (snd r) < 2 ^ 64"

text \<open>Regions are aligned and disjoint, and the mirror holds exactly their pages.\<close>

definition space_ok :: "space \<Rightarrow> bool" where
  "space_ok sp \<longleftrightarrow> (\<forall>r\<in>set (sp_regions sp). wf_region r)
     \<and> sorted_wrt (\<lambda>r s. region_pages r \<inter> region_pages s = {}) (sp_regions sp)
     \<and> sp_mapped sp = (\<Union>r\<in>set (sp_regions sp). region_pages r)"

lemma overlaps_iff:
  assumes "wf_region (a, n)" and "wf_region r"
  shows "overlaps a n r \<longleftrightarrow> region_pages (a, n) \<inter> region_pages r \<noteq> {}"
proof
  assume o: "overlaps a n r"
  let ?p = "if unat a \<ge> unat (fst r) then a else fst r"
  have "?p \<in> region_pages (a, n) \<inter> region_pages r"
    using assms o by (auto simp: overlaps_def region_pages_def wf_region_def)
  then show "region_pages (a, n) \<inter> region_pages r \<noteq> {}" by blast
next
  assume "region_pages (a, n) \<inter> region_pages r \<noteq> {}"
  then obtain p where "p \<in> region_pages (a, n)" "p \<in> region_pages r" by blast
  then show "overlaps a n r" unfolding overlaps_def region_pages_def by auto
qed

lemma mem_map_ok:
  assumes "space_ok sp" and "wf_region (a, n)" and "mem_map refuse a n (sp_regions sp) = Some rs"
  shows "rs = sp_regions sp @ [(a, n)] \<and> space_ok \<lparr>sp_regions = rs, sp_mapped = sp_mapped sp \<union> region_pages (a, n)\<rparr>"
proof -
  have rs: "rs = sp_regions sp @ [(a, n)]" and "\<not> list_ex (overlaps a n) (sp_regions sp)"
    using assms(3) by (simp_all add: mem_map_def split: if_splits)
  then have "\<forall>r\<in>set (sp_regions sp). region_pages r \<inter> region_pages (a, n) = {}"
    using overlaps_iff [OF assms(2)] assms(1) by (auto simp: space_ok_def list_ex_iff)
  then show ?thesis using rs assms(1,2) by (auto simp: space_ok_def sorted_wrt_append)
qed

text \<open>A page the mirror does not hold is free: only the engine's own refusal can stop its mapping.\<close>

lemma mem_map_free:
  assumes "space_ok sp" and "wf_region (a, n)" and "region_pages (a, n) \<inter> sp_mapped sp = {}"
    and "mem_map refuse a n (sp_regions sp) = None"
  shows "refuse (sp_regions sp) a n"
proof -
  have "\<not> overlaps a n r" if "r \<in> set (sp_regions sp)" for r
    using overlaps_iff [OF assms(2), of r] that assms(1,3) by (auto simp: space_ok_def)
  then show ?thesis using assms(4) by (auto simp: mem_map_def list_ex_iff split: if_splits)
qed

definition span_ok :: "u64 \<Rightarrow> nat \<Rightarrow> bool" where
  "span_ok start n \<longleftrightarrow> 4096 dvd unat start \<and> unat start + 4096 * n < 2 ^ 64"

lemma unat_page_at:
  assumes "span_ok start n" and "i \<le> n"
  shows "unat (page_at start i) = unat start + 4096 * i"
proof -
  have "4096 * i < 2 ^ 64" "unat start + 4096 * i < 2 ^ 64" using assms by (auto simp: span_ok_def)
  then have "unat (of_nat i * PAGE) = 4096 * i"
    by (simp add: PAGE_def unat_word_ariths unat_of_nat)
  then show ?thesis
    using \<open>unat start + 4096 * i < 2 ^ 64\<close> unat_add64_no_wrap [of start "of_nat i * PAGE"] by (simp add: page_at_def)
qed

lemma unat_page_diff:
  assumes "span_ok start n" and "i \<le> j" and "j \<le> n"
  shows "unat (page_at start j - page_at start i) = 4096 * (j - i)"
proof -
  have "page_at start i \<le> page_at start j"
    using assms unat_page_at [OF assms(1)] by (simp add: word_le_nat_alt)
  then have "unat (page_at start j - page_at start i) = unat (page_at start j) - unat (page_at start i)"
    by (rule unat_sub)
  then show ?thesis using assms unat_page_at [OF assms(1)] by (simp add: diff_mult_distrib2)
qed

lemma pages_region:
  assumes "span_ok start n" and "i \<le> j" and "j \<le> n"
  shows "region_pages (page_at start i, page_at start j - page_at start i) = pages start i j"
proof (intro set_eqI iffI)
  fix p assume "p \<in> region_pages (page_at start i, page_at start j - page_at start i)"
  then have p: "4096 dvd unat p" "unat start + 4096 * i \<le> unat p" "unat p < unat start + 4096 * i + 4096 * (j - i)"
    using assms by (auto simp: region_pages_def unat_page_at [OF assms(1)] unat_page_diff [OF assms])
  have "4096 dvd unat start" using assms(1) by (simp add: span_ok_def)
  then obtain k where k: "unat p = unat start + 4096 * k"
    using p(1,2) by (metis add_leD1 dvd_diff_nat dvdE le_add_diff_inverse)
  have "i \<le> k" "k < j" using p k assms(2) by auto
  moreover have "p = page_at start k"
    using k unat_page_at [OF assms(1), of k] \<open>k < j\<close> assms(3) by (simp add: word_unat_eq_iff)
  ultimately show "p \<in> pages start i j" by (auto simp: pages_def)
next
  fix p assume "p \<in> pages start i j"
  then obtain k where k: "p = page_at start k" "i \<le> k" "k < j" by (auto simp: pages_def)
  then have "unat p = unat start + 4096 * k" using unat_page_at [OF assms(1), of k] assms(3) by simp
  moreover have "4096 dvd unat start + 4096 * k" using assms(1) by (simp add: span_ok_def)
  moreover have "unat start + 4096 * k < unat start + 4096 * i + 4096 * (j - i)" using k assms(2) by auto
  ultimately show "p \<in> region_pages (page_at start i, page_at start j - page_at start i)"
    using assms k(2) by (simp add: region_pages_def unat_page_at [OF assms(1)] unat_page_diff [OF assms])
qed

lemma wf_run:
  assumes "span_ok start n" and "i < j" and "j \<le> n"
  shows "wf_region (page_at start i, page_at start j - page_at start i)"
proof -
  have "i \<le> j" using assms(2) by simp
  then show ?thesis
    using assms unat_page_at [OF assms(1), of i] unat_page_diff [OF assms(1) \<open>i \<le> j\<close> assms(3)]
    by (auto simp: wf_region_def span_ok_def)
qed

section \<open>What \<open>ensure_pages\<close> promises\<close>

lemma map_runs_ok:
  "space_ok sp \<Longrightarrow> span_ok start n \<Longrightarrow> i \<le> n \<Longrightarrow> runs \<le> MAX_SETUP_RUNS \<Longrightarrow>
   (case map_runs refuse start n i runs sp of
      Inr sp' \<Rightarrow> space_ok sp' \<and> sp_mapped sp' = sp_mapped sp \<union> pages start i n
        \<and> (\<exists>new. sp_regions sp' = sp_regions sp @ new \<and> runs + length new \<le> MAX_SETUP_RUNS)
    | Inl e \<Rightarrow> e = UcNoMem \<or> e = UcMap \<and> (\<exists>rs a k. refuse rs a k))"
proof (induction refuse start n i runs sp rule: map_runs.induct)
  case (1 refuse start n i runs sp)
  note prems = 1(3-6)
  consider (fin) "i = n" | (held) "i < n" "page_at start i \<in> sp_mapped sp" | (free) "i < n" "page_at start i \<notin> sp_mapped sp"
    using prems(3) by fastforce
  then show ?case
  proof cases
    case fin
    then have "map_runs refuse start n i runs sp = Inr sp" by (subst map_runs.simps) simp
    then show ?thesis using fin prems by (auto simp: pages_def)
  next
    case held
    have "pages start i n = insert (page_at start i) (pages start (i + 1) n)"
    proof -
      have "{i..<n} = insert i {i + 1..<n}" using held(1) by auto
      then show ?thesis by (simp add: pages_def)
    qed
    moreover have "map_runs refuse start n i runs sp = map_runs refuse start n (i + 1) runs sp"
      using held by (subst map_runs.simps) simp
    moreover note 1(1) [OF held prems(1,2) _ prems(4)] held
    ultimately show ?thesis by (auto split: sum.splits)
  next
    case free
    let ?j = "run_end (sp_mapped sp) start n i"
    let ?a = "page_at start i" and ?k = "page_at start ?j - page_at start i"
    have j: "i < ?j" "?j \<le> n" using run_end_bounds free by auto
    note wf = wf_run [OF prems(2) j] and pr = pages_region [OF prems(2) less_imp_le [OF j(1)] j(2)]
    have fresh: "region_pages (?a, ?k) \<inter> sp_mapped sp = {}"
    proof -
      have "page_at start k \<notin> sp_mapped sp" if "i \<le> k" "k < ?j" for k
      proof -
        let ?t = "takeWhile (\<lambda>k. page_at start k \<notin> sp_mapped sp) [i..<n]"
        have l: "k - i < length ?t" using that by (simp add: run_end_def)
        then have "?t ! (k - i) = [i..<n] ! (k - i)" by (rule takeWhile_nth)
        moreover have "k - i < length [i..<n]" using l length_takeWhile_le less_le_trans by blast
        ultimately have "?t ! (k - i) = k" using that(1) by simp
        then have "k \<in> set ?t" using l by (metis nth_mem)
        then show ?thesis by (metis set_takeWhileD)
      qed
      then show ?thesis unfolding pr by (auto simp: pages_def)
    qed
    show ?thesis
    proof (cases "runs + 1 > MAX_SETUP_RUNS")
      case True
      then have "map_runs refuse start n i runs sp = Inl UcNoMem" using free by (subst map_runs.simps) (simp add: Let_def)
      then show ?thesis by simp
    next
      case room: False
      show ?thesis
      proof (cases "mem_map refuse ?a ?k (sp_regions sp)")
        case None
        then have "map_runs refuse start n i runs sp = Inl UcMap" using free room by (subst map_runs.simps) (simp add: Let_def)
        then show ?thesis using mem_map_free [OF prems(1) wf fresh None] by auto
      next
        case (Some rs)
        let ?sp = "\<lparr>sp_regions = rs, sp_mapped = sp_mapped sp \<union> pages start i ?j\<rparr>"
        have ok: "rs = sp_regions sp @ [(?a, ?k)]" "space_ok ?sp" using mem_map_ok [OF prems(1) wf Some] unfolding pr by blast+
        have eq: "map_runs refuse start n i runs sp = map_runs refuse start n ?j (runs + 1) ?sp"
          using free room Some by (subst map_runs.simps) (simp add: Let_def)
        have un: "pages start i n = pages start i ?j \<union> pages start ?j n"
        proof -
          have "{i..<n} = {i..<?j} \<union> {?j..<n}" using j by auto
          then show ?thesis unfolding pages_def by blast
        qed
        have "runs + 1 \<le> MAX_SETUP_RUNS" using room by simp
        from 1(2) [OF free refl room Some ok(2) prems(2) j(2) this] ok(1) un show ?thesis
          unfolding eq by (auto split: sum.splits)
      qed
    qed
  qed
qed

lemma floor_4096: "4096 dvd p \<Longrightarrow> p < m - m mod 4096 \<longleftrightarrow> p + 4096 \<le> m" for p m :: nat
proof -
  assume "4096 dvd p"
  then obtain k where k: "p = 4096 * k" by (rule dvdE)
  have "m - m mod 4096 = 4096 * (m div 4096)" by (simp add: minus_mod_eq_mult_div)
  then have "p < m - m mod 4096 \<longleftrightarrow> k + 1 \<le> m div 4096" using k by auto
  also have "\<dots> \<longleftrightarrow> (k + 1) * 4096 \<le> m" by (simp add: less_eq_div_iff_mult_less_eq)
  finally show ?thesis using k by (simp add: mult.commute add.commute)
qed

lemma unat_page_of: "unat (a AND NOT (PAGE - 1)) = unat a - unat a mod 4096"
proof -
  have m: "PAGE - 1 = mask 12" by (simp add: PAGE_def mask_eq_exp_minus_1)
  have lo: "unat (a AND mask 12) = unat a mod 4096"
    by (simp flip: take_bit_eq_mask add: unsigned_take_bit_eq take_bit_eq_mod [of 12 "unat a"])
  have "(a AND NOT (mask 12)) = a - (a AND mask 12)"
  proof -
    have "NOT a AND (a AND mask 12) = 0" by (simp add: bit_eq_iff bit_simps)
    then have "a - (a AND mask 12) = a AND NOT (a AND mask 12)" by (rule disjunctive_diff_eq_and_not)
    also have "\<dots> = a AND NOT (mask 12)" by (auto simp: bit_eq_iff bit_simps)
    finally show ?thesis by simp
  qed
  moreover have "a AND mask 12 \<le> a" by (simp add: word_le_nat_alt lo)
  ultimately show ?thesis unfolding m by (simp add: unat_sub lo)
qed

text \<open>The pages that meet the byte range, without the topmost page of the address space, which the saturating
  rounding leaves out.\<close>

definition span_pages :: "u64 \<Rightarrow> u64 \<Rightarrow> u64 set" where
  "span_pages start len = {p. 4096 dvd unat p \<and> unat start < unat p + 4096 \<and> unat p < unat start + unat len
     \<and> unat p < 2 ^ 64 - 4096}"

lemma ensure_pages_ok:
  assumes "space_ok sp"
  shows "case ensure_pages refuse start len sp of
      Inr sp' \<Rightarrow> space_ok sp' \<and> sp_mapped sp' = sp_mapped sp \<union> span_pages start len
        \<and> (\<exists>new. sp_regions sp' = sp_regions sp @ new \<and> length new \<le> MAX_SETUP_RUNS)
    | Inl e \<Rightarrow> e = UcNoMem \<or> e = UcMap \<and> (\<exists>rs a k. refuse rs a k)"
proof -
  let ?f = "page_of start" and ?l = "sat_add64 (sat_add64 start len) (PAGE - 1) AND NOT (PAGE - 1)"
  let ?m = "min (min (unat start + unat len) (2 ^ 64 - 1) + 4095) (2 ^ 64 - 1)"
  have f: "unat ?f = unat start - unat start mod 4096" unfolding page_of_def by (rule unat_page_of)
  have pm: "unat (PAGE - 1) = 4095" by (simp add: PAGE_def)
  have l: "unat ?l = ?m - ?m mod 4096" unfolding unat_page_of unat_sat_add64 pm ..
  have fd: "4096 dvd unat ?f" "4096 dvd unat ?l" unfolding f l by (rule dvd_minus_mod)+
  have below: "unat p < unat ?l \<longleftrightarrow> unat p < unat start + unat len \<and> unat p < 2 ^ 64 - 4096" if "4096 dvd unat p" for p :: u64
    unfolding l floor_4096 [OF that] by auto
  have above: "unat ?f \<le> unat p \<longleftrightarrow> unat start < unat p + 4096" if "4096 dvd unat p" for p :: u64
    using floor_4096 [OF that, of "unat start"] unfolding f by auto
  have span: "span_pages start len = {p. 4096 dvd unat p \<and> unat ?f \<le> unat p \<and> unat p < unat ?l}"
    unfolding span_pages_def using above below by blast
  show ?thesis
  proof (cases "?l \<le> ?f")
    case True
    then have "span_pages start len = {}" unfolding span by (auto simp: word_le_nat_alt)
    moreover have "ensure_pages refuse start len sp = Inr sp" using True by (simp add: ensure_pages_def Let_def)
    ultimately show ?thesis using assms by simp
  next
    case False
    let ?n = "unat (?l - ?f) div unat PAGE"
    have lt: "unat ?f < unat ?l" using False by (simp add: word_le_nat_alt)
    then have d: "unat (?l - ?f) = unat ?l - unat ?f" by (simp add: unat_sub word_le_nat_alt)
    have n: "4096 * ?n = unat ?l - unat ?f"
      unfolding d using fd by (simp add: PAGE_def dvd_diff_nat)
    have so: "span_ok ?f ?n"
      using fd(1) n lt unat64_lt [of ?l] by (simp add: span_ok_def)
    have "unat ?f + 4096 * ?n = unat ?l" using n lt by simp
    then have last: "page_at ?f ?n = ?l" using unat_page_at [OF so, of ?n] by (simp add: word_unat_eq_iff)
    have first: "page_at ?f 0 = ?f" by (simp add: page_at_def)
    have np: "0 < ?n" using n lt by (cases ?n) simp_all
    have pg: "pages ?f 0 ?n = region_pages (?f, ?l - ?f)"
      using pages_region [OF so, of 0 ?n] by (simp add: last first)
    have sp: "span_pages start len = region_pages (?f, ?l - ?f)"
      unfolding span region_pages_def using d lt by auto
    have wf: "wf_region (?f, ?l - ?f)" using wf_run [OF so np] by (simp add: last first)
    have ens: "ensure_pages refuse start len sp = (case mem_map refuse ?f (?l - ?f) (sp_regions sp) of
        Some rs \<Rightarrow> Inr \<lparr>sp_regions = rs, sp_mapped = sp_mapped sp \<union> pages ?f 0 ?n\<rparr> | None \<Rightarrow> map_runs refuse ?f ?n 0 0 sp)"
      using False by (simp add: ensure_pages_def Let_def)
    show ?thesis
    proof (cases "mem_map refuse ?f (?l - ?f) (sp_regions sp)")
      case None
      then show ?thesis using map_runs_ok [OF assms so, of 0 0 refuse] unfolding ens None pg sp by (auto split: sum.splits)
    next
      case (Some rs)
      from mem_map_ok [OF assms wf Some] have rs: "rs = sp_regions sp @ [(?f, ?l - ?f)]"
        and ok: "space_ok \<lparr>sp_regions = rs, sp_mapped = sp_mapped sp \<union> region_pages (?f, ?l - ?f)\<rparr>" by blast+
      have "ensure_pages refuse start len sp = Inr \<lparr>sp_regions = rs, sp_mapped = sp_mapped sp \<union> region_pages (?f, ?l - ?f)\<rparr>"
        unfolding ens Some pg by simp
      then show ?thesis using ok rs by (simp add: sp MAX_SETUP_RUNS_def)
    qed
  qed
qed

text \<open>\<open>ensure_pages\<close> keeps the setup's memory map consistent: from aligned, disjoint regions whose pages are
  exactly those of the mirror, it either maps precisely the missing pages of the span, in at most 64 new
  regions, and keeps that invariant, or fails, with \<open>NOMEM\<close> for a span too fragmented or because the engine
  itself refuses a mapping that overlaps nothing. A page absent from the mirror is genuinely free.\<close>

theorem ensure_pages_spec:
  assumes "space_ok sp"
  shows "case ensure_pages refuse start len sp of
      Inr sp' \<Rightarrow> space_ok sp' \<and> sp_mapped sp' = sp_mapped sp \<union> span_pages start len
        \<and> (\<exists>new. sp_regions sp' = sp_regions sp @ new \<and> length new \<le> MAX_SETUP_RUNS)
    | Inl e \<Rightarrow> e = UcNoMem \<or> e = UcMap \<and> (\<exists>rs a k. refuse rs a k)"
  using assms by (rule ensure_pages_ok)

theorem ensure_pages_spec_witness:
  "case ensure_pages (\<lambda>_ _ _. False) 0x1800 0x2000 \<lparr>sp_regions = [(0x2000, 0x1000)], sp_mapped = {0x2000}\<rparr> of
      Inr sp' \<Rightarrow> space_ok sp' \<and> sp_mapped sp' = {0x2000} \<union> span_pages 0x1800 0x2000
    | Inl e \<Rightarrow> e = UcNoMem"
proof -
  have "region_pages (0x2000, 0x1000) = {0x2000}"
  proof (intro set_eqI iffI)
    fix p :: u64 assume "p \<in> region_pages (0x2000, 0x1000)"
    then have "unat p = 8192" by (auto simp: region_pages_def elim!: dvdE)
    then show "p \<in> {0x2000}" by (simp add: word_unat_eq_iff)
  qed (simp add: region_pages_def)
  then have "space_ok \<lparr>sp_regions = [(0x2000, 0x1000)], sp_mapped = {0x2000}\<rparr>"
    by (simp add: space_ok_def wf_region_def)
  from ensure_pages_spec [OF this, of "\<lambda>_ _ _. False" "0x1800" "0x2000"] show ?thesis by (auto split: sum.splits)
qed

section \<open>A prepared machine\<close>

definition written_ok :: "machine \<Rightarrow> bool" where
  "written_ok su \<longleftrightarrow> space_ok (su_space su)
     \<and> (\<forall>(a, bs)\<in>set (su_writes su). span_pages a (of_nat (length bs)) \<subseteq> sp_mapped (su_space su))"

text \<open>A step of the setup that makes some writes and at most 64 regions for each.\<close>

definition extends :: "machine \<Rightarrow> (u64 \<times> u8 list) list \<Rightarrow> machine \<Rightarrow> bool" where
  "extends su ws su' \<longleftrightarrow> (written_ok su \<longrightarrow> written_ok su') \<and> su_writes su' = su_writes su @ ws
     \<and> (written_ok su \<longrightarrow> length (sp_regions (su_space su')) \<le> length (sp_regions (su_space su)) + MAX_SETUP_RUNS * length ws)"

lemma extends_refl: "extends su [] su"
  by (simp add: extends_def)

lemma extends_trans: "extends a ws b \<Longrightarrow> extends b vs c \<Longrightarrow> extends a (ws @ vs) c"
  by (auto simp: extends_def distrib_left)

lemma ensure_pages_Inr:
  assumes "space_ok sp" and "ensure_pages refuse start len sp = Inr sp'"
  shows "space_ok sp'" and "sp_mapped sp' = sp_mapped sp \<union> span_pages start len"
    and "length (sp_regions sp') \<le> length (sp_regions sp) + MAX_SETUP_RUNS"
  using ensure_pages_ok [OF assms(1), of refuse start len] assms(2) by auto

lemma map_and_write_extends:
  assumes "map_and_write fails refuse a (of_nat (length bs)) bs su = Inr su'"
  shows "extends su [(a, bs)] su'"
proof -
  obtain sp where sp: "ensure_pages refuse a (of_nat (length bs)) (su_space su) = Inr sp"
    and su': "su' = su\<lparr>su_space := sp, su_writes := su_writes su @ [(a, bs)]\<rparr>"
    using assms by (auto simp: map_and_write_def bindR_Inr split: if_splits)
  show ?thesis
    using ensure_pages_Inr [OF _ sp] unfolding su' by (fastforce simp: extends_def written_ok_def)
qed

lemma map_segments_extends:
  "map_segments fails refuse ss su = Inr su' \<Longrightarrow> extends su (map (\<lambda>s. (seg_vaddr s, seg_bytes s)) ss) su'"
proof (induction ss arbitrary: su)
  case (Cons s ss)
  then obtain su1 where 1: "map_and_write fails refuse (seg_vaddr s) (of_nat (length (seg_bytes s))) (seg_bytes s) su = Inr su1"
    and 2: "map_segments fails refuse ss su1 = Inr su'" by (auto simp: seg_len_def bindR_Inr)
  from extends_trans [OF map_and_write_extends [OF 1] Cons.IH [OF 2]] show ?case by simp
qed (simp add: extends_refl)

definition arg_fill :: "u64 \<Rightarrow> nat \<Rightarrow> u64 \<times> u8 list" where
  "arg_fill sd k = (arg_base k, fill_bytes (unat ARG_SIZE) (arg_base k) sd)"

lemma length_fill_bytes [simp]: "length (fill_bytes n a sd) = n"
proof -
  have "length (concat (map (\<lambda>i. le64 (fill_word a sd i)) is)) = 8 * length is" for "is"
    by (induction "is") (simp_all add: le64_def)
  then show ?thesis by (simp add: fill_bytes_def)
qed

lemma map_args_extends:
  "map_args fails refuse sd ks su = Inr su' \<Longrightarrow> extends su (map (arg_fill sd) ks) su'"
proof (induction ks arbitrary: su)
  case (Cons k ks)
  let ?bs = "fill_bytes (unat ARG_SIZE) (arg_base k) sd"
  from Cons.prems obtain su1 where 1: "map_and_write fails refuse (arg_base k) (of_nat (length ?bs)) ?bs su = Inr su1"
    and 2: "map_args fails refuse sd ks su1 = Inr su'" by (auto simp: bindR_Inr)
  from extends_trans [OF map_and_write_extends [OF 1] Cons.IH [OF 2]] show ?case by (simp add: arg_fill_def)
qed (simp add: extends_refl)

lemma sentinel_in_stack: "span_pages RSP0 8 \<subseteq> span_pages STACK_BASE STACK_SIZE"
proof -
  have "unat RSP0 = 0x2000020000" "unat STACK_BASE = 0x2000000000" "unat STACK_SIZE = 0x40000"
    by (simp_all add: RSP0_def STACK_BASE_def STACK_SIZE_def)
  then show ?thesis by (auto simp: span_pages_def)
qed

text \<open>C38: A prepared machine is what the run counts on: the segments' bytes, the filled windows of the six
  arguments and the return sentinel are written, in this order, each write inside mapped memory (up to the top
  page of the address space); the regions are aligned and disjoint, no more than 64 for each segment, window
  and the stack; and the registers hold the stack pointer and the argument windows.\<close>

theorem prepare_spec:
  assumes "prepare fails refuse cfg im start = Inr su"
  shows "space_ok (su_space su)
    \<and> su_writes su = map (\<lambda>s. (seg_vaddr s, seg_bytes s)) (segments im) @ map (arg_fill (seed cfg)) [0..<NARGS] @ [(RSP0, le64 RET_ADDR)]
    \<and> (\<Union>(a, bs)\<in>set (su_writes su). span_pages a (of_nat (length bs))) \<subseteq> sp_mapped (su_space su)
    \<and> length (sp_regions (su_space su)) \<le> MAX_SETUP_RUNS * (length (segments im) + NARGS + 1)
    \<and> su_regs su = init_regs (im_arch im) \<and> su_start su = start \<and> su_until su = RET_ADDR"
proof -
  let ?su0 = "\<lparr>su_space = \<lparr>sp_regions = [], sp_mapped = {}\<rparr>, su_writes = [], su_regs = [], su_isa = im_arch im,
    su_start = start, su_until = RET_ADDR, su_timeout = timeout_us cfg, su_count = unat (instr_cap cfg)\<rparr>"
  obtain su1 su2 sp where 1: "map_segments fails refuse (segments im) ?su0 = Inr su1"
    and 2: "map_args fails refuse (seed cfg) [0..<NARGS] su1 = Inr su2"
    and 3: "ensure_pages refuse STACK_BASE STACK_SIZE (su_space su2) = Inr sp"
    and su: "su = su2\<lparr>su_space := sp, su_writes := su_writes su2 @ [(RSP0, le64 RET_ADDR)], su_regs := init_regs (im_arch im)\<rparr>"
    using assms by (auto simp: prepare_def Let_def write_regs_def bindR_Inr split: if_splits)
  have keeps: "su_start x' = su_start x \<and> su_until x' = su_until x"
    if "map_segments fails refuse ss x = Inr x' \<or> map_args fails refuse sd ks x = Inr x'" for ss sd ks x x'
  proof -
    have "map_segments fails refuse ss x = Inr x' \<Longrightarrow> su_start x' = su_start x \<and> su_until x' = su_until x" for x
      by (induction ss arbitrary: x) (fastforce simp: map_and_write_def bindR_Inr split: if_splits)+
    moreover have "map_args fails refuse sd ks x = Inr x' \<Longrightarrow> su_start x' = su_start x \<and> su_until x' = su_until x" for x
      by (induction ks arbitrary: x) (fastforce simp: map_and_write_def bindR_Inr split: if_splits)+
    ultimately show ?thesis using that by blast
  qed
  have e: "extends ?su0 (map (\<lambda>s. (seg_vaddr s, seg_bytes s)) (segments im) @ map (arg_fill (seed cfg)) [0..<NARGS]) su2"
    using extends_trans [OF map_segments_extends [OF 1] map_args_extends [OF 2]] .
  have w0: "written_ok ?su0" by (simp add: written_ok_def space_ok_def)
  have w2: "written_ok su2" and ws: "su_writes su2 = map (\<lambda>s. (seg_vaddr s, seg_bytes s)) (segments im) @ map (arg_fill (seed cfg)) [0..<NARGS]"
    and len: "length (sp_regions (su_space su2)) \<le> MAX_SETUP_RUNS * (length (segments im) + NARGS)"
    using e w0 by (simp_all add: extends_def)
  have s2: "space_ok (su_space su2)" using w2 by (simp add: written_ok_def)
  note 4 = ensure_pages_Inr [OF s2 3]
  have "length (sp_regions sp) \<le> MAX_SETUP_RUNS * (length (segments im) + NARGS + 1)" using 4(3) len by simp
  moreover have "(\<Union>(a, bs)\<in>set (su_writes su2). span_pages a (of_nat (length bs))) \<subseteq> sp_mapped sp"
    using w2 4(2) by (auto simp: written_ok_def)
  moreover have "span_pages RSP0 (of_nat (length (le64 RET_ADDR))) \<subseteq> sp_mapped sp"
    using sentinel_in_stack 4(2) by (auto simp: le64_def)
  ultimately show ?thesis
    using 4(1) ws keeps [of "segments im" ?su0 su1 0 "[]"] keeps [of "[]" su1 su2 "seed cfg" "[0..<NARGS]"] 1 2 by (auto simp: su)
qed


text \<open>At an aarch64 image of one \<open>ret\<close>.\<close>

definition ret_image :: Image where
  "ret_image = \<lparr>segments = [\<lparr>seg_vaddr = 0x1000, seg_bytes = [0xc0, 0x03, 0x5f, 0xd6], seg_exec = True, seg_write = False\<rparr>],
     im_entry = 0x1000, is_pie = False, im_arch = Aarch64\<rparr>"

text \<open>Nothing fails in this world, and its regions do not meet, so the setup succeeds.\<close>

lemma NARGS_list: "[0..<NARGS] = [0, 1, 2, 3, 4, 5]" by code_simp

lemma ret_prepares: "\<exists>su. prepare (\<lambda>_. False) (\<lambda>_ _ _. False) default_config ret_image 0x1000 = Inr su"
  by (simp add: prepare_def ret_image_def Let_def map_and_write_def ensure_pages_def mem_map_def page_of_def overlaps_def NARGS_list
    arg_base_def ARG_BASE_def ARG_STRIDE_def ARG_SIZE_def STACK_BASE_def STACK_SIZE_def PAGE_def sat_add64_def write_regs_def
    seg_len_def list_ex_iff)

theorem prepare_spec_witness:
  "\<exists>su. prepare (\<lambda>_. False) (\<lambda>_ _ _. False) default_config ret_image 0x1000 = Inr su
     \<and> space_ok (su_space su) \<and> length (sp_regions (su_space su)) \<le> 512 \<and> length (su_writes su) = 8"
proof -
  obtain su where su: "prepare (\<lambda>_. False) (\<lambda>_ _ _. False) default_config ret_image 0x1000 = Inr su" using ret_prepares by blast
  have n: "length (segments ret_image) = 1" "NARGS = 6" "MAX_SETUP_RUNS = 64"
    by (simp_all add: ret_image_def NARGS_def MAX_SETUP_RUNS_def)
  note p = prepare_spec [OF su]
  have "length (sp_regions (su_space su)) \<le> 512" using p unfolding n by simp
  moreover have "space_ok (su_space su)" "length (su_writes su) = 8" using p by (auto simp: n)
  ultimately show ?thesis using su by blast
qed

end
