(* ===== verification/Runs.thy ===== *)
theory Runs
  imports Budget Pages
begin

text \<open>
  What the traces of a run look like: the invariant of the recorder that every hook call keeps, and the properties
  of runs and explorations.
\<close>

section \<open>Traces are bounded\<close>

fun is_read :: "Effect \<Rightarrow> bool" where
  "is_read (Read _ _) = True"
| "is_read _ = False"

fun is_heap_note :: "Effect \<Rightarrow> bool" where
  "is_heap_note (NewRegion Heapish) = True"
| "is_heap_note _ = False"

fun is_keyed_note :: "Effect \<Rightarrow> bool" where
  "is_keyed_note (NewRegion Heapish) = False"
| "is_keyed_note (NewRegion _) = True"
| "is_keyed_note _ = False"

definition is_core :: "Effect \<Rightarrow> bool" where
  "is_core e \<longleftrightarrow> \<not> is_read e \<and> \<not> is_heap_note e \<and> \<not> is_keyed_note e"

abbreviation count_of :: "(Effect \<Rightarrow> bool) \<Rightarrow> Effect list \<Rightarrow> nat" where
  "count_of P es \<equiv> length (filter P es)"

lemma count_split: "length es = count_of is_read es + count_of is_heap_note es + count_of is_keyed_note es + count_of is_core es"
proof (induction es)
  case (Cons e es)
  then show ?case by (cases e rule: is_keyed_note.cases) (auto simp: is_core_def)
qed simp

text \<open>The keys under which the argument windows and the globals are noted; no page has one of them.\<close>

definition note_keys :: "u64 set" where
  "note_keys = {0xA00, 0xA01, 0xA02, 0xA03, 0xA04, 0xA05, 0xB00}"

lemma page_not_key: "page_of a \<notin> note_keys"
proof -
  have "page_of a AND 0xF00 = 0"
    by (simp add: page_of_def PAGE_def and.assoc)
  then show ?thesis by (auto simp: note_keys_def)
qed

definition trace_inv :: "Rec \<Rightarrow> bool" where
  "trace_inv rc \<longleftrightarrow> count_of is_read (rc_effects rc) \<le> min 64 (length (rc_seen_reads rc))
     \<and> count_of is_heap_note (rc_effects rc) = rc_heapish_count rc \<and> rc_heapish_count rc \<le> max_heapish (rc_cfg rc)
     \<and> count_of is_keyed_note (rc_effects rc) \<le> card (set (rc_seen_heapish rc) \<inter> note_keys)
     \<and> count_of is_core (rc_effects rc) \<le> max_effects (rc_cfg rc) \<and> Capped \<notin> set (rc_effects rc)"

lemma trace_inv_bound:
  assumes "trace_inv rc"
  shows "length (rc_effects rc) \<le> max_effects (rc_cfg rc) + max_heapish (rc_cfg rc) + 71"
proof -
  have "card (set (rc_seen_heapish rc) \<inter> note_keys) \<le> card note_keys" by (rule card_mono) (simp_all add: note_keys_def)
  also have "\<dots> \<le> 7" by (simp add: note_keys_def)
  finally show ?thesis using assms count_split [of "rc_effects rc"] by (simp add: trace_inv_def)
qed

lemma classify_addr_arg:
  assumes "fst (classify_addr segs a) = Arg k"
  shows "0xA00 + ucast k \<in> note_keys"
proof -
  obtain i where "i \<in> set [0..<NARGS]" "k = of_nat i"
    using assms by (auto simp: classify_addr_def find_Some_iff split: option.splits if_splits)
  then have "k \<in> {0, 1, 2, 3, 4, 5}" by (auto simp: NARGS_def upt_rec)
  then show ?thesis by (auto simp: note_keys_def)
qed

lemma keyed_step:
  assumes "key \<in> note_keys" and "key \<notin> set seen"
  shows "card (insert key (set seen) \<inter> note_keys) = Suc (card (set seen \<inter> note_keys))"
  using assms by (simp add: Int_insert_left)

lemma card_keys_mono: "card (set seen \<inter> note_keys) \<le> card (insert key (set seen) \<inter> note_keys)"
  by (rule card_mono) auto

lemma note_new_region_inv:
  assumes "trace_inv rc"
  shows "trace_inv (note_new_region a rc)"
    and "count_of is_core (rc_effects (note_new_region a rc)) = count_of is_core (rc_effects rc)"
proof -
  have "trace_inv (note_new_region a rc) \<and> count_of is_core (rc_effects (note_new_region a rc)) = count_of is_core (rc_effects rc)"
  proof (cases "fst (classify_addr (rc_segs rc) a)")
    case (Arg k)
    then show ?thesis
      using assms keyed_step [OF classify_addr_arg [OF Arg], of "rc_seen_heapish rc"]
      by (auto simp: note_new_region_def see_heapish_def trace_inv_def push_effect_def is_core_def)
  next
    case Stack
    then show ?thesis using assms by (simp add: note_new_region_def)
  next
    case Global
    have "0xB00 \<in> note_keys" by (simp add: note_keys_def)
    then show ?thesis
      using assms Global keyed_step [of "0xB00" "rc_seen_heapish rc"]
      by (auto simp: note_new_region_def see_heapish_def trace_inv_def push_effect_def is_core_def)
  next
    case Heapish
    then show ?thesis
      using assms card_keys_mono [of "rc_seen_heapish rc" "page_of a"]
      by (auto simp: note_new_region_def see_heapish_def trace_inv_def push_effect_def is_core_def)
  qed
  then show "trace_inv (note_new_region a rc)"
    and "count_of is_core (rc_effects (note_new_region a rc)) = count_of is_core (rc_effects rc)" by blast+
qed

lemma trace_inv_cong:
  "trace_inv rc \<Longrightarrow> rc_effects rc' = rc_effects rc \<Longrightarrow> rc_seen_reads rc' = rc_seen_reads rc \<Longrightarrow>
   rc_seen_heapish rc' = rc_seen_heapish rc \<Longrightarrow> rc_heapish_count rc' = rc_heapish_count rc \<Longrightarrow> rc_cfg rc' = rc_cfg rc \<Longrightarrow>
   trace_inv rc'"
  by (simp add: trace_inv_def)

lemma unmapped_hook_inv: "trace_inv rc \<Longrightarrow> trace_inv (fst (unmapped_hook f a ok rc))"
  by (auto simp: unmapped_hook_def Let_def intro!: note_new_region_inv(1) elim: trace_inv_cong)

lemma push_read_inv:
  assumes "trace_inv rc" and "key \<notin> set (rc_seen_reads rc)"
  shows "trace_inv (let rc = rc\<lparr>rc_seen_reads := key # rc_seen_reads rc\<rparr>
    in if length (rc_seen_reads rc) \<le> 64 then push_effect (Read r off) rc else rc)"
  using assms by (auto simp: trace_inv_def push_effect_def is_core_def Let_def)

lemma read_hook_inv:
  assumes "trace_inv rc"
  shows "trace_inv (fst (read_hook a rc))"
proof -
  let ?c = "count_mem_op rc"
  have c: "trace_inv ?c" using assms by (rule trace_inv_cong) (simp_all add: count_mem_op_def)
  show ?thesis
  proof (cases "rc_mem_op_iters ?c \<ge> mem_op_cap (rc_cfg ?c)")
    case True
    have "trace_inv (?c\<lparr>rc_capped := True\<rparr>)" using c by (rule trace_inv_cong) simp_all
    then show ?thesis using True by (simp add: read_hook_def Let_def)
  next
    case False
    obtain r off where cl: "classify_addr (rc_segs (note_new_region a ?c)) a = (r, off)" by fastforce
    show ?thesis
      using False c note_new_region_inv(1) [OF c, of a] cl push_read_inv [of "note_new_region a ?c" "token (Read r (bucket_off off))" r "bucket_off off"]
      by (auto simp: read_hook_def Let_def split: if_splits)
  qed
qed

lemma write_hook_inv:
  assumes "trace_inv rc"
  shows "trace_inv (fst (write_hook a sz v rc))"
proof -
  let ?c = "count_mem_op rc"
  have c: "trace_inv ?c" using assms by (rule trace_inv_cong) (simp_all add: count_mem_op_def)
  have cap: "trace_inv (?c\<lparr>rc_capped := True\<rparr>)" using c by (rule trace_inv_cong) simp_all
  let ?n = "note_new_region a ?c"
  obtain r off where cl: "classify_addr (rc_segs ?n) a = (r, off)" by fastforce
  have "count_of is_core (rc_effects ?n) < max_effects (rc_cfg ?n)" if "length (rc_effects ?c) < max_effects (rc_cfg ?c)"
  proof -
    have "count_of is_core (rc_effects ?c) < max_effects (rc_cfg ?c)" by (rule le_less_trans [OF length_filter_le that])
    then show ?thesis using note_new_region_inv(2) [OF c, of a] note_new_region_counters [of ?c a] by (simp add: same_counters_def)
  qed
  then have "trace_inv (push_effect (Write r off' x) ?n)" if "length (rc_effects ?c) < max_effects (rc_cfg ?c)" for off' x
    using that note_new_region_inv(1) [OF c, of a] by (auto simp: trace_inv_def push_effect_def is_core_def)
  then show ?thesis
    using c cap cl note_new_region_inv(1) [OF c, of a]
    by (auto simp: write_hook_def Let_def not_le split: if_splits)
qed

lemma push_core_inv:
  assumes "trace_inv rc" and "count_of is_core (rc_effects rc) < max_effects (rc_cfg rc)" and "is_core e" and "e \<noteq> Capped"
  shows "trace_inv (push_effect e rc)"
  using assms by (auto simp: trace_inv_def push_effect_def is_core_def)

lemma code_hook_inv:
  assumes "trace_inv rc"
  shows "trace_inv (fst (code_hook addr buf rs rc))"
proof -
  let ?r = "count_insn addr (resolve_branch addr rc)"
  obtain kind ilen where d: "decode (rc_cs rc) addr buf = (kind, ilen)" by fastforce
  have r: "trace_inv ?r"
    using assms by (rule trace_inv_cong) (simp_all add: count_insn_def resolve_branch_def split: option.split)
  show ?thesis
  proof (cases "over_caps addr ?r")
    case True
    have "trace_inv (?r\<lparr>rc_capped := True\<rparr>)" using r by (rule trace_inv_cong) simp_all
    then show ?thesis using True d by (simp add: code_hook_def Let_def)
  next
    case False
    let ?c = "cover addr ilen ?r"
    have c: "trace_inv ?c" using r by (rule trace_inv_cong) (simp_all add: cover_def)
    have len: "length (rc_effects ?c) < max_effects (rc_cfg ?c)" using False by (simp add: over_caps_def cover_def)
    have lt: "count_of is_core (rc_effects ?c) < max_effects (rc_cfg ?c)" by (rule le_less_trans [OF length_filter_le len])
    have push: "trace_inv (push_effect e rc')" if "rc_effects rc' = rc_effects ?c" "rc_cfg rc' = rc_cfg ?c"
      "rc_seen_reads rc' = rc_seen_reads ?c" "rc_seen_heapish rc' = rc_seen_heapish ?c"
      "rc_heapish_count rc' = rc_heapish_count ?c" "is_core e" "e \<noteq> Capped" for e rc'
      by (rule push_core_inv [OF trace_inv_cong [OF c]]) (use that lt in simp_all)
    have "trace_inv (fst (do_call t dr n ?c))" for t dr n
      by (auto simp: do_call_def Let_def add_callee_def is_core_def intro!: push split: option.split)
    moreover have "trace_inv (fst (do_syscall rs n ?c))" for n
      by (rule trace_inv_cong [OF push [of ?c "Syscall (syscall_nr (rc_isa ?c) rs)"]]) (simp_all add: do_syscall_def Let_def is_core_def)
    moreover have "trace_inv (fst (do_branch t n ?c))" for t n
      by (rule trace_inv_cong [OF push [of ?c Branch]]) (auto simp: do_branch_def Let_def is_core_def split: option.split)
    moreover have "trace_inv (push_effect (Ret x) ?c)" for x by (rule push) (simp_all add: is_core_def)
    ultimately show ?thesis using False d c by (auto simp: code_hook_def Let_def split: Kind.split)
  qed
qed

lemma handle_inv: "trace_inv rc \<Longrightarrow> trace_inv (fst (handle ev rc))"
  using unmapped_hook_inv read_hook_inv write_hook_inv code_hook_inv
  by (cases ev) (auto simp: case_prod_unfold Let_def)

text \<open>The contract between the hooks and a run: what every hook call keeps, the run keeps.\<close>

locale hook_invariant =
  fixes P :: "Rec \<Rightarrow> bool"
  assumes keeps: "P rc \<Longrightarrow> P (fst (handle ev rc))"
begin

lemma emu_start_keeps:
  assumes "emu_start eng h rc = Some y" and "P rc"
  shows "P (fst y)"
proof -
  have "P rc \<longrightarrow> P (fst y)"
  proof (rule emu_start.raw_induct [where P = "\<lambda>eng h rc y. P rc \<longrightarrow> P (fst y)", OF _ assms(1)])
    fix go :: "engine \<Rightarrow> reply list \<Rightarrow> Rec \<Rightarrow> (Rec \<times> bool \<times> u64) option" and eng h rc y
    assume ih: "\<And>eng h rc y. go eng h rc = Some y \<Longrightarrow> P rc \<longrightarrow> P (fst y)"
      and b: "(case eng h of EvEnd ok rs \<Rightarrow> Some (rc, ok, pc_of (rc_isa rc) rs)
        | ev \<Rightarrow> go eng (h @ [snd (handle ev rc)]) (fst (handle ev rc))) = Some y"
    show "P rc \<longrightarrow> P (fst y)"
    proof (cases "ends (eng h)")
      case True
      then show ?thesis using b by (auto simp: ends_def split: event.splits)
    next
      case False
      then have "go eng (h @ [snd (handle (eng h) rc)]) (fst (handle (eng h) rc)) = Some y"
        using b by (auto simp: ends_def split: event.splits)
      from ih [OF this] show ?thesis using keeps by blast
    qed
  qed
  then show ?thesis using assms(2) by blast
qed

end


section \<open>The traces of a run\<close>

definition callees_inv :: "Rec \<Rightarrow> bool" where
  "callees_inv rc \<longleftrightarrow> distinct (rc_callees rc)
     \<and> set (rc_callees rc) \<subseteq> {t. in_ranges (rc_segs rc) t \<and> rc_symbols rc t = None}"

lemma callees_inv_cong:
  "callees_inv rc \<Longrightarrow> rc_callees rc' = rc_callees rc \<Longrightarrow> rc_segs rc' = rc_segs rc \<Longrightarrow> rc_symbols rc' = rc_symbols rc \<Longrightarrow>
   callees_inv rc'"
  by (simp add: callees_inv_def)

definition same_edges :: "Rec \<Rightarrow> Rec \<Rightarrow> bool" where
  "same_edges rc rc' \<longleftrightarrow> rc_callees rc' = rc_callees rc \<and> rc_segs rc' = rc_segs rc \<and> rc_symbols rc' = rc_symbols rc
     \<and> rc_cfg rc' = rc_cfg rc"

lemma same_edges_trans: "same_edges a b \<Longrightarrow> same_edges b c \<Longrightarrow> same_edges a c"
  by (simp add: same_edges_def)

lemma note_same_edges: "same_edges rc rc' \<Longrightarrow> same_edges rc (note_new_region a rc')"
  using note_new_region_counters [of rc' a] by (simp add: same_counters_def same_edges_def)

lemma mem_hooks_edges:
  "same_edges rc (fst (unmapped_hook f a ok rc))" "same_edges rc (fst (read_hook a rc))" "same_edges rc (fst (write_hook a sz v rc))"
proof -
  have c: "same_edges rc (count_mem_op rc)" "same_edges rc ((count_mem_op rc)\<lparr>rc_capped := True\<rparr>)"
    "same_edges rc (rc\<lparr>rc_capped := True\<rparr>)" "same_edges rc rc" "same_edges rc (rc\<lparr>rc_map_count := k\<rparr>)" for k
    by (simp_all add: same_edges_def count_mem_op_def)
  have p: "same_edges rc rc' \<Longrightarrow> same_edges rc (push_effect e rc')"
    "same_edges rc rc' \<Longrightarrow> same_edges rc (rc'\<lparr>rc_seen_reads := ks\<rparr>)" for rc' e ks
    by (simp_all add: same_edges_def)
  show "same_edges rc (fst (unmapped_hook f a ok rc))"
    by (auto simp: unmapped_hook_def Let_def intro!: note_same_edges c)
  show "same_edges rc (fst (read_hook a rc))"
    by (auto simp: read_hook_def Let_def split: prod.split intro!: p note_same_edges c)
  show "same_edges rc (fst (write_hook a sz v rc))"
    by (auto simp: write_hook_def Let_def split: prod.split intro!: p note_same_edges c)
qed

lemma code_hook_edges:
  assumes "callees_inv rc"
  shows "callees_inv (fst (code_hook addr buf rs rc))" and "rc_segs (fst (code_hook addr buf rs rc)) = rc_segs rc"
    and "rc_symbols (fst (code_hook addr buf rs rc)) = rc_symbols rc" and "rc_cfg (fst (code_hook addr buf rs rc)) = rc_cfg rc"
proof -
  let ?r = "count_insn addr (resolve_branch addr rc)"
  obtain kind ilen where d: "decode (rc_cs rc) addr buf = (kind, ilen)" by fastforce
  have r: "same_edges rc ?r" by (simp add: same_edges_def count_insn_def resolve_branch_def split: option.split)
  let ?c = "cover addr ilen ?r"
  have c: "same_edges rc ?c" using r by (simp add: same_edges_def cover_def)
  have dc: "callees_inv (fst (do_call t dr n x)) \<and> rc_segs (fst (do_call t dr n x)) = rc_segs x
      \<and> rc_symbols (fst (do_call t dr n x)) = rc_symbols x \<and> rc_cfg (fst (do_call t dr n x)) = rc_cfg x"
    if "callees_inv x" for t dr n x
    using that by (auto simp: do_call_def Let_def add_callee_def callees_inv_def split: option.split)
  have sy: "same_edges x (fst (do_syscall rs n x))" "same_edges x (fst (do_branch t n x))" "same_edges x (push_effect e x)"
    "same_edges x (x\<lparr>rc_capped := True\<rparr>)" for n t x e
    by (auto simp: do_syscall_def do_branch_def Let_def same_edges_def split: option.split)
  have ci: "callees_inv ?c" using c assms by (auto simp: same_edges_def intro: callees_inv_cong)
  have "callees_inv (fst (code_hook addr buf rs rc)) \<and> rc_segs (fst (code_hook addr buf rs rc)) = rc_segs rc
    \<and> rc_symbols (fst (code_hook addr buf rs rc)) = rc_symbols rc \<and> rc_cfg (fst (code_hook addr buf rs rc)) = rc_cfg rc"
  proof (cases "over_caps addr ?r")
    case True
    then have "code_hook addr buf rs rc = (?r\<lparr>rc_capped := True\<rparr>, go_on\<lparr>st_stop := True\<rparr>)"
      using d by (simp add: code_hook_def Let_def)
    then show ?thesis using same_edges_trans [OF r sy(4)] assms by (auto simp: same_edges_def intro: callees_inv_cong)
  next
    case False
    show ?thesis
    proof (cases "\<exists>t dr. kind = KCall t dr")
      case True
      then obtain t dr where k: "kind = KCall t dr" by blast
      have "code_hook addr buf rs rc = do_call t dr (addr + ilen) ?c"
        using d k False by (simp add: code_hook_def Let_def)
      then show ?thesis using dc [OF ci, of t dr "addr + ilen"] c by (simp add: same_edges_def)
    next
      case no: False
      have "same_edges ?c (fst (code_hook addr buf rs rc))"
        using d False no sy by (cases kind) (auto simp: code_hook_def Let_def same_edges_def)
      from same_edges_trans [OF c this] show ?thesis using assms by (auto simp: same_edges_def intro: callees_inv_cong)
    qed
  qed
  then show "callees_inv (fst (code_hook addr buf rs rc))" and "rc_segs (fst (code_hook addr buf rs rc)) = rc_segs rc"
    and "rc_symbols (fst (code_hook addr buf rs rc)) = rc_symbols rc" and "rc_cfg (fst (code_hook addr buf rs rc)) = rc_cfg rc"
    by blast+
qed

definition run_inv :: "Config \<Rightarrow> (u64 \<rightharpoonup> string) \<Rightarrow> (u64 \<times> u64) list \<Rightarrow> Rec \<Rightarrow> bool" where
  "run_inv cfg symbols segs rc \<longleftrightarrow> trace_inv rc \<and> callees_inv rc \<and> rc_cfg rc = cfg \<and> rc_symbols rc = symbols \<and> rc_segs rc = segs"

lemma handle_run_inv:
  assumes "run_inv cfg symbols segs rc"
  shows "run_inv cfg symbols segs (fst (handle ev rc))"
proof -
  have t: "trace_inv (fst (handle ev rc))" using assms handle_inv by (simp add: run_inv_def)
  have e: "same_edges rc (fst (handle ev rc))" if "\<nexists>a buf rs. ev = EvInsn a buf rs"
    using that mem_hooks_edges [of rc] by (cases ev) (auto simp: case_prod_unfold Let_def same_edges_def)
  show ?thesis
  proof (cases "\<exists>a buf rs. ev = EvInsn a buf rs")
    case True
    then obtain a buf rs where "ev = EvInsn a buf rs" by blast
    then show ?thesis using t assms code_hook_edges [of rc a buf rs] by (simp add: run_inv_def case_prod_unfold Let_def)
  next
    case False
    then show ?thesis using t e assms by (auto simp: run_inv_def same_edges_def intro: callees_inv_cong)
  qed
qed

interpretation run_hooks: hook_invariant "run_inv cfg symbols segs" for cfg symbols segs
  by unfold_locales (rule handle_run_inv)

lemma init_run_inv: "run_inv cfg symbols (seg_ranges im) (init_rec cfg cs symbols im f force)"
  by (simp add: run_inv_def init_rec_def trace_inv_def callees_inv_def)

lemma fl32_nat_Fin:
  assumes "n < 2 ^ 64" and "0 < n"
  shows "\<exists>r. f32_of_nat n = Fin r \<and> 1 \<le> r"
proof -
  have "repr binary32 (2 ^ 64)"
    unfolding repr_def by (rule exI [of _ 1], rule exI [of _ 64]) (simp add: binary32_def)
  then have top: "fl32 (2 ^ 64) = Fin (2 ^ 64)" by (intro fl_repr) (simp_all add: binary32_def)
  have "repr binary32 1" using repr_int [of 1 binary32] by (simp add: binary32_def)
  then have one: "fl32 1 = Fin 1" by (intro fl_repr) (simp_all add: binary32_def)
  have "(of_nat n :: rat) \<le> 2 ^ 64" using assms(1) by (metis less_imp_le of_nat_le_iff of_nat_numeral of_nat_power)
  moreover have "(1 :: rat) \<le> of_nat n" using assms(2) by simp
  ultimately have "Fin 1 \<le> fl32 (of_nat n)" "fl32 (of_nat n) \<le> Fin (2 ^ 64)"
    using fl_mono [of 1 "of_nat n" binary32] fl_mono [of "of_nat n" "2 ^ 64" binary32] one top by simp_all
  then show ?thesis by (cases "fl32 (of_nat n)") (simp_all add: f32_of_nat_def)
qed

lemma ratio32_not_NaN: "b \<noteq> 0 \<Longrightarrow> ratio32 a b \<noteq> NaN"
proof -
  assume "b \<noteq> 0"
  then have "0 < unat b" by (simp add: unat_gt_0)
  then obtain y where y: "f32_of_nat (unat b) = Fin y" "1 \<le> y" using fl32_nat_Fin [OF unat64_lt] by blast
  then show ?thesis by (cases "f32_of_nat (unat a)") (auto simp: ratio32_def f32_of_nat_def finf_def)
qed

lemma fclamp_unit: "x \<noteq> NaN \<Longrightarrow> flt_le (Fin 0) (fclamp (Fin 0) (Fin 1) x) \<and> flt_le (fclamp (Fin 0) (Fin 1) x) (Fin 1)"
  by (cases x) (auto simp: fclamp_def flt_le_def flt_less_def)

definition trace_ok :: "Config \<Rightarrow> (u64 \<rightharpoonup> string) \<Rightarrow> Image \<Rightarrow> EffectTrace \<Rightarrow> bool" where
  "trace_ok cfg symbols im t \<longleftrightarrow>
     length (effects t) \<le> max_effects cfg + max_heapish cfg + 72
     \<and> count_of is_read (effects t) \<le> 64 \<and> count_of is_heap_note (effects t) \<le> max_heapish cfg
     \<and> (capped t \<longleftrightarrow> Capped \<in> set (effects t)) \<and> Capped \<notin> set (butlast (effects t))
     \<and> flt_le (Fin 0) (coverage t) \<and> flt_le (coverage t) (Fin 1)
     \<and> sorted (callees t) \<and> distinct (callees t)
     \<and> set (callees t) \<subseteq> {a. in_ranges (seg_ranges im) a \<and> symbols a = None}"

lemma finish_run_ok:
  assumes "run_inv cfg symbols (seg_ranges im) rc"
  shows "trace_ok cfg symbols im (fst (finish_run f rc ok rip))"
proof -
  let ?t = "fst (finish_run f rc ok rip)"
  have inv: "trace_inv rc" "callees_inv rc" "rc_cfg rc = cfg" "rc_symbols rc = symbols" "rc_segs rc = seg_ranges im"
    using assms by (simp_all add: run_inv_def)
  have cov: "flt_le (Fin 0) (coverage ?t) \<and> flt_le (coverage ?t) (Fin 1)"
  proof (cases "fn_size f = 0")
    case True
    then show ?thesis by (simp add: finish_run_def Let_def flt_le_def)
  next
    case False
    then show ?thesis using fclamp_unit [OF ratio32_not_NaN] by (simp add: finish_run_def Let_def)
  qed
  have e: "effects ?t = rc_effects rc \<or> effects ?t = rc_effects rc @ [Capped]"
    "capped ?t \<longleftrightarrow> effects ?t = rc_effects rc @ [Capped]"
    by (auto simp: finish_run_def Let_def)
  have "callees ?t = sort (rc_callees rc)" by (simp add: finish_run_def Let_def)
  moreover have "\<not> is_read Capped" "\<not> is_heap_note Capped" by simp_all
  moreover have "x \<notin> set xs \<Longrightarrow> x \<notin> set (butlast xs)" for x :: Effect and xs by (meson in_set_butlastD)
  ultimately show ?thesis
    using inv(1,2) trace_inv_bound [OF inv(1)] inv(3-5) cov e
    unfolding trace_ok_def by (auto simp: trace_inv_def callees_inv_def)
qed

lemma run_from_cases:
  assumes "run_from w cfg im f symbols force start = Some r"
  shows "r = failed_run \<or> (\<exists>su cs rc ok rip. r = finish_run f rc ok rip \<and> run_inv cfg symbols (seg_ranges im) rc
    \<and> emu_start (uw_engine w su) [] (init_rec cfg cs symbols im f force) = Some (rc, ok, rip))"
proof -
  obtain x where x: "try_run w cfg im f symbols force start = Some x" and r: "r = (case x of Inl e \<Rightarrow> failed_run | Inr x \<Rightarrow> x)"
    using assms by (auto simp: run_from_def)
  show ?thesis
  proof (cases x)
    case (Inl e)
    then show ?thesis using r by simp
  next
    case (Inr out)
    then obtain su cs rc ok rip where out: "out = finish_run f rc ok rip"
      and e: "emu_start (uw_engine w su) [] (init_rec cfg cs symbols im f force) = Some (rc, ok, rip)"
      using x by (auto simp: try_run_def Let_def split: if_splits sum.splits)
    have "run_inv cfg symbols (seg_ranges im) (fst (rc, ok, rip))"
      by (rule run_hooks.emu_start_keeps [OF e init_run_inv])
    then show ?thesis using r Inr out e by auto
  qed
qed

lemma run_from_ok:
  assumes "run_from w cfg im f symbols force start = Some r"
  shows "trace_ok cfg symbols im (fst r)"
  using run_from_cases [OF assms]
proof
  assume "r = failed_run"
  then show ?thesis by (simp add: failed_run_def trace_ok_def flt_le_def)
next
  assume "\<exists>su cs rc ok rip. r = finish_run f rc ok rip \<and> run_inv cfg symbols (seg_ranges im) rc
    \<and> emu_start (uw_engine w su) [] (init_rec cfg cs symbols im f force) = Some (rc, ok, rip)"
  then show ?thesis using finish_run_ok by blast
qed

section \<open>Properties of runs\<close>

text \<open>A world for the witnesses: an aarch64 function of one \<open>ret\<close>, on an engine that runs it and stops at once when
  asked.\<close>

definition ret_func :: Func where
  "ret_func = \<lparr>fn_name = None, fn_entry = 0x1000, fn_size = 4, fn_source = EhFrame\<rparr>"

definition ret_engine :: "machine \<Rightarrow> engine" where
  "ret_engine su h = (if h = [] then EvInsn 0x1000 ([0xc0, 0x03, 0x5f, 0xd6] @ replicate 12 0) [''X0'' \<mapsto> 0]
     else EvEnd True [''PC'' \<mapsto> RET_ADDR])"

definition ret_world :: uworld where
  "ret_world = \<lparr>uw_one = None, uw_all = None, uw_fails = (\<lambda>_. False), uw_refuse = (\<lambda>_ _ _. False), uw_engine = ret_engine\<rparr>"

lemma ret_engine_stops: "stops_within 0 (ret_engine su)"
  by (simp add: stops_within_def ret_engine_def ends_def)

lemma explore_total:
  assumes "\<And>su. stops_within L (uw_engine w su)" and "instr_cap cfg < u64_max"
    and "unat (fn_entry f) + unat (fn_size f) \<le> 2 ^ 64"
  shows "\<exists>ts. run_explore w cfg im f symbols seeds = Some ts \<and> length seeds \<le> length ts
    \<and> length ts \<le> length seeds * (1 + explore_depth cfg + blanket_restarts cfg)"
proof -
  obtain starts where starts: "(if blanket_restarts cfg > 0 then insn_starts (uw_all w) im f else Some []) = Some starts"
    using insn_starts_total [OF assms(3)] by (cases "blanket_restarts cfg > 0") auto
  have "\<exists>tss. those (map (explore_seed w cfg im f symbols starts) sds) = Some tss
      \<and> length sds \<le> length (concat tss) \<and> length (concat tss) \<le> length sds * (1 + explore_depth cfg + blanket_restarts cfg)" for sds
  proof (induction sds)
    case (Cons sd sds)
    then obtain tss where tss: "those (map (explore_seed w cfg im f symbols starts) sds) = Some tss"
      "length sds \<le> length (concat tss)" "length (concat tss) \<le> length sds * (1 + explore_depth cfg + blanket_restarts cfg)" by blast
    obtain ts where ts: "explore_seed w cfg im f symbols starts sd = Some ts" "1 \<le> length ts"
      "length ts \<le> 1 + explore_depth cfg + blanket_restarts cfg"
      using explore_seed_total [OF assms(1,2)] by blast
    have "those (map (explore_seed w cfg im f symbols starts) (sd # sds)) = Some (ts # tss)" using tss(1) ts(1) by simp
    moreover have "length (sd # sds) \<le> length (concat (ts # tss))" using ts(2) tss(2) by simp
    moreover have "length (concat (ts # tss)) \<le> length (sd # sds) * (1 + explore_depth cfg + blanket_restarts cfg)"
    proof -
      have "length (concat (ts # tss)) = length ts + length (concat tss)" by simp
      also have "\<dots> \<le> (1 + explore_depth cfg + blanket_restarts cfg) + length sds * (1 + explore_depth cfg + blanket_restarts cfg)"
        using ts(3) tss(3) by (rule add_mono)
      finally show ?thesis by simp
    qed
    ultimately show ?case by blast
  qed simp
  from this [of seeds] show ?thesis by (auto simp: run_explore_def starts)
qed

text \<open>C8: Micro-execution always comes back: on any engine that ends a run within some number of hook calls after a
  hook asked it to, exploring a function ends, whatever the code does, with at least one trace and at most one
  natural run, \<open>explore_depth\<close> flipped runs and \<open>blanket_restarts\<close> restarts per seed. The hooks' own counters
  guarantee that a hook asks: the instruction cap, the cap on memory callbacks, and the cap on mapped pages.
  The sweep for restart points needs the body to end below the top of the address space.\<close>

theorem explore_terminates:
  assumes "\<And>su. stops_within L (uw_engine w su)" and "instr_cap cfg < u64_max"
    and "unat (fn_entry f) + unat (fn_size f) \<le> 2 ^ 64"
  shows "\<exists>ts. run_explore w cfg im f symbols seeds = Some ts \<and> length seeds \<le> length ts
    \<and> length ts \<le> length seeds * (1 + explore_depth cfg + blanket_restarts cfg)"
  using assms by (rule explore_total)

theorem explore_terminates_witness:
  "\<exists>ts. run_explore ret_world (default_config\<lparr>explore_depth := 3, blanket_restarts := 2\<rparr>) ret_image ret_func Map.empty [0, 7] = Some ts
     \<and> 2 \<le> length ts \<and> length ts \<le> 12"
proof -
  let ?c = "default_config\<lparr>explore_depth := 3, blanket_restarts := 2\<rparr>"
  have "\<And>su. stops_within 0 (uw_engine ret_world su)" by (simp add: ret_world_def ret_engine_stops)
  moreover have "instr_cap ?c < u64_max" by (simp add: default_config_def word_less_nat_alt)
  moreover have "unat (fn_entry ret_func) + unat (fn_size ret_func) \<le> 2 ^ 64" by (simp add: ret_func_def)
  ultimately obtain ts where "run_explore ret_world ?c ret_image ret_func Map.empty [0, 7] = Some ts"
    "length [0, 7 :: u64] \<le> length ts" "length ts \<le> length [0, 7 :: u64] * (1 + explore_depth ?c + blanket_restarts ?c)"
    using explore_terminates by blast
  then show ?thesis by (auto simp: default_config_def)
qed

lemma filter_stable_ok:
  assumes "trace_ok cfg symbols im t"
  shows "trace_ok cfg symbols im (snd (after_restart f start cov (t, x)))"
proof -
  obtain d newly where x: "x = (d, newly)" by fastforce
  have b: "body_size f \<noteq> 0"
  proof -
    have "1 \<le> body_size f" by (simp add: body_size_def)
    then show ?thesis by auto
  qed
  let ?es = "effects t" and ?fs = "filter stable_effect (effects t)"
  have cnt: "count_of P ?fs \<le> count_of P ?es" for P
  proof -
    have "count_of P (filter stable_effect es) \<le> count_of P es" for es by (induction es) auto
    then show ?thesis .
  qed
  have last: "Capped \<notin> set (butlast (filter P es))" if nl: "Capped \<notin> set (butlast es)" for es P
  proof (cases es rule: rev_cases)
    case (snoc ys y)
    then have "Capped \<notin> set ys" using nl by simp
    then have "Capped \<notin> set (filter P ys)" by simp
    then show ?thesis using snoc by (auto simp: butlast_append dest: in_set_butlastD)
  qed simp
  let ?t = "snd (after_restart f start cov (t, x))"
  have es: "effects ?t = ?fs" "capped ?t = capped t" "callees ?t = callees t"
    by (simp_all add: after_restart_def x Let_def)
  have "length ?fs \<le> max_effects cfg + max_heapish cfg + 72"
    by (rule le_trans [OF length_filter_le]) (use assms in \<open>simp add: trace_ok_def\<close>)
  moreover have "count_of is_read ?fs \<le> 64"
    by (rule le_trans [OF cnt]) (use assms in \<open>simp add: trace_ok_def\<close>)
  moreover have "count_of is_heap_note ?fs \<le> max_heapish cfg"
    by (rule le_trans [OF cnt]) (use assms in \<open>simp add: trace_ok_def\<close>)
  moreover have "Capped \<in> set ?fs \<longleftrightarrow> Capped \<in> set ?es" by simp
  moreover have "Capped \<notin> set (butlast ?fs)" using assms last unfolding trace_ok_def by blast
  moreover have "flt_le (Fin 0) (coverage ?t) \<and> flt_le (coverage ?t) (Fin 1)"
    using fclamp_unit [OF ratio32_not_NaN [OF b]] by (simp add: after_restart_def x Let_def)
  ultimately show ?thesis using assms unfolding trace_ok_def es by blast
qed

lemma blanket_traces:
  "blanket w cfg im f symbols starts n cov = Some ts \<Longrightarrow> list_all (\<lambda>t. trace_ok cfg symbols im t \<and> list_all stable_effect (effects t)) ts"
proof (induction w cfg im f symbols starts n cov arbitrary: ts rule: blanket.induct)
  case (2 w cfg im f symbols starts n cov)
  show ?case
  proof (cases "flt_le BLANKET_ENOUGH (ratio32 (covered_sum cov) (body_size f))
      \<or> List.find (\<lambda>a. a \<notin> fst ` set cov) starts = None")
    case True
    then show ?thesis using 2(2) by (auto split: if_splits)
  next
    case False
    then obtain start where s: "List.find (\<lambda>a. a \<notin> fst ` set cov) starts = Some start"
      and fl: "\<not> flt_le BLANKET_ENOUGH (ratio32 (covered_sum cov) (body_size f))" by auto
    obtain r where r: "run_from w cfg im f symbols [] start = Some r"
      using 2(2) s fl by (cases "run_from w cfg im f symbols [] start") auto
    obtain cv t where ct: "after_restart f start cov r = (cv, t)" by fastforce
    obtain us where us: "blanket w cfg im f symbols starts n cv = Some us" "ts = t # us"
      using 2(2) s fl r ct by auto
    have "list_all (\<lambda>t. trace_ok cfg symbols im t \<and> list_all stable_effect (effects t)) us"
      using 2(1) [OF fl s r ct [symmetric] refl us(1)] by simp
    moreover have "trace_ok cfg symbols im t"
      using filter_stable_ok [OF run_from_ok [OF r], of f start cov "snd r"] ct by simp
    moreover have "list_all stable_effect (effects t)"
      using ct by (auto simp: after_restart_def Let_def list_all_iff split: prod.splits)
    ultimately show ?thesis using us(2) by simp
  qed
qed simp

lemma those_SomeD: "those xs = Some ys \<Longrightarrow> xs = map Some ys"
proof (induction xs arbitrary: ys)
  case (Cons x xs)
  then show ?case by (auto split: option.splits)
qed simp

lemma explore_ok:
  assumes "run_explore w cfg im f symbols seeds = Some ts"
  shows "list_all (trace_ok cfg symbols im) ts"
proof -
  obtain starts tss where tss: "those (map (explore_seed w cfg im f symbols starts) seeds) = Some tss" "ts = concat tss"
    using assms unfolding run_explore_def by (auto simp: bind_eq_Some_conv simp del: split_paired_Ex)
  have ok_seed: "trace_ok (cfg\<lparr>seed := sd\<rparr>) symbols im t \<longleftrightarrow> trace_ok cfg symbols im t" for sd t
    by (simp add: trace_ok_def)
  have one: "list_all (trace_ok cfg symbols im) us" if "explore_seed w cfg im f symbols starts sd = Some us" for sd us
  proof -
    let ?c = "cfg\<lparr>seed := sd\<rparr>"
    note e = that [unfolded explore_seed_def Let_def]
    obtain base dirs cov where b: "run_from w ?c im f symbols [] (fn_entry f) = Some (base, dirs, cov)"
      using e by (cases "run_from w ?c im f symbols [] (fn_entry f)") auto
    obtain fl bl where fl: "those (map (\<lambda>i. map_option fst (run_forced w ?c im f symbols (flip_plan dirs i)))
        [0..<min (length dirs) (explore_depth ?c)]) = Some fl"
      and bl: "blanket w ?c im f symbols starts (blanket_restarts ?c) cov = Some bl" and us: "us = base # fl @ bl"
      using e unfolding b by (auto simp: bind_eq_Some_conv simp del: upt_Suc)
    have "trace_ok cfg symbols im base" using run_from_ok [OF b] ok_seed by simp
    moreover have "list_all (trace_ok cfg symbols im) bl"
      using blanket_traces [OF bl] ok_seed by (auto simp: list_all_iff)
    moreover have "list_all (trace_ok cfg symbols im) fl"
    proof -
      have "trace_ok cfg symbols im t" if t: "t \<in> set fl" for t
      proof -
        have "Some t \<in> set (map (\<lambda>i. map_option fst (run_forced w ?c im f symbols (flip_plan dirs i)))
            [0..<min (length dirs) (explore_depth ?c)])"
          unfolding those_SomeD [OF fl] using t by simp
        then obtain i where "map_option fst (run_forced w ?c im f symbols (flip_plan dirs i)) = Some t" by (auto simp only: set_map image_iff)
        then obtain r where "run_from w ?c im f symbols (flip_plan dirs i) (fn_entry f) = Some r" "fst r = t"
          by (auto simp: run_forced_def)
        then show ?thesis using run_from_ok ok_seed by blast
      qed
      then show ?thesis by (simp add: list_all_iff)
    qed
    ultimately show ?thesis using us by simp
  qed
  have "list_all (trace_ok cfg symbols im) us" if "us \<in> set tss" for us
  proof -
    have "Some us \<in> set (map (explore_seed w cfg im f symbols starts) seeds)"
      unfolding those_SomeD [OF tss(1)] using that by simp
    then show ?thesis using one by fastforce
  qed
  then show ?thesis unfolding tss(2) by (auto simp: list_all_iff)
qed

text \<open>C36: Every trace that exploration returns is well-formed: at most \<open>max_effects\<close> plus \<open>max_heapish\<close> plus 72 effects,
  at most 64 of them field reads; the capped flag set exactly when the trace holds the effect \<open>Capped\<close>, which is
  then its last; a coverage in the unit interval; and call edges sorted, without duplicates, inside the image
  and none of them an import.\<close>

theorem explore_traces_ok:
  assumes "run_explore w cfg im f symbols seeds = Some ts"
  shows "list_all (trace_ok cfg symbols im) ts"
  using assms by (rule explore_ok)

theorem explore_traces_ok_witness:
  "\<exists>ts. run_explore ret_world default_config ret_image ret_func Map.empty [0] = Some ts
     \<and> list_all (trace_ok default_config Map.empty ret_image) ts"
proof -
  have s: "\<And>su. stops_within 0 (uw_engine ret_world su)" by (simp add: ret_world_def ret_engine_stops)
  have "instr_cap default_config < u64_max" by (simp add: default_config_def word_less_nat_alt)
  then have "\<exists>x. explore_seed ret_world default_config ret_image ret_func Map.empty [] 0 = Some x"
    using explore_seed_total [OF s] by blast
  then obtain ts where "run_explore ret_world default_config ret_image ret_func Map.empty [0] = Some ts"
    by (auto simp: run_explore_def default_config_def BLANKET_RESTARTS_def)
  then show ?thesis using explore_traces_ok by blast
qed

text \<open>C37: A trace that does not say it was capped is complete: the setup and the run succeeded, the function came
  back to the return sentinel, no hook asked for an end, and the instruction cap was not reached.\<close>

theorem uncapped_run_returned:
  assumes "run_from w cfg im f symbols force start = Some (t, dirs, cov)" and "\<not> capped t"
  shows "\<exists>su cs rc. emu_start (uw_engine w su) [] (init_rec cfg cs symbols im f force) = Some (rc, True, RET_ADDR)
    \<and> \<not> rc_capped rc \<and> effects t = rc_effects rc \<and> instret t = rc_instret rc \<and> instret t < instr_cap cfg
    \<and> dirs = rc_natural_dirs rc \<and> cov = rc_covered rc"
proof -
  obtain su cs rc ok rip where r: "(t, dirs, cov) = finish_run f rc ok rip" and cfg: "rc_cfg rc = cfg"
    and e: "emu_start (uw_engine w su) [] (init_rec cfg cs symbols im f force) = Some (rc, ok, rip)"
    using run_from_cases [OF assms(1)] assms(2) by (auto simp: failed_run_def run_inv_def)
  have "ok \<and> rip = RET_ADDR \<and> \<not> rc_capped rc \<and> effects t = rc_effects rc \<and> instret t = rc_instret rc
    \<and> instret t < instr_cap cfg \<and> dirs = rc_natural_dirs rc \<and> cov = rc_covered rc"
    using r assms(2) cfg by (auto simp: finish_run_def Let_def split: if_splits)
  with e show ?thesis by metis
qed



lemma ret_decode: "decode None 0x1000 ([0xc0, 0x03, 0x5f, 0xd6] @ replicate 12 0) = (KRet, 4)"
proof -
  have "le32 (take 4 ([0xc0, 0x03, 0x5f, 0xd6] @ replicate 12 0)) = 0xd65f03c0" by (simp add: le32_def of_le_def)
  then show ?thesis by (simp add: decode_def decode_a64_def)
qed

lemma ret_step:
  "fst (code_hook 0x1000 ([0xc0, 0x03, 0x5f, 0xd6] @ replicate 12 0) [''X0'' \<mapsto> 0] rc)
     = push_effect (Ret Zero) (cover 0x1000 4 (count_insn 0x1000 rc))"
  if "rc_isa rc = Aarch64" "rc_cs rc = None" "rc_pending_branch rc = None" "\<not> over_caps 0x1000 (count_insn 0x1000 rc)"
  using that ret_decode by (simp add: code_hook_def resolve_branch_def retval_def ret_reg_def or_0_def classify_value_def)

lemma ret_run: "\<exists>rc. emu_start (ret_engine su) [] (init_rec default_config None Map.empty ret_image ret_func []) = Some (rc, True, RET_ADDR)
  \<and> rc_effects rc = [Ret Zero] \<and> rc_instret rc = 1 \<and> \<not> rc_capped rc \<and> rc_cfg rc = default_config"
proof -
  let ?rc = "init_rec default_config None Map.empty ret_image ret_func []"
  let ?x = "push_effect (Ret Zero) (cover 0x1000 4 (count_insn 0x1000 ?rc))"
  have c: "instr_cap default_config = 20000" "visit_cap default_config = 64" "max_effects default_config = 96"
    by (simp_all add: default_config_def)
  have n: "\<not> over_caps 0x1000 (count_insn 0x1000 ?rc)"
    by (simp add: over_caps_def visit_def init_rec_def count_insn_def c word_less_nat_alt)
  have cp: "rc_isa ?rc = Aarch64" "rc_cs ?rc = None" "rc_pending_branch ?rc = None" by (simp_all add: init_rec_def ret_image_def)
  note st = ret_step [OF cp n]
  have "emu_start (ret_engine su) [] ?rc = emu_start (ret_engine su) [snd (handle (ret_engine su []) ?rc)] ?x"
    using emu_start_step [of "ret_engine su" "[]" ?rc] st
    by (simp add: ret_engine_def case_prod_unfold ends_def)
  also have "\<dots> = Some (?x, True, RET_ADDR)" using cp(1) by (subst emu_start.simps) (simp add: ret_engine_def pc_of_def pc_reg_def or_0_def)
  finally have "emu_start (ret_engine su) [] ?rc = Some (?x, True, RET_ADDR)" .
  moreover have "rc_effects ?x = [Ret Zero] \<and> rc_instret ?x = 1 \<and> \<not> rc_capped ?x \<and> rc_cfg ?x = default_config"
    by (simp add: cover_def count_insn_def init_rec_def)
  ultimately show ?thesis by blast
qed

theorem uncapped_run_returned_witness:
  "\<exists>t dirs cov. run_from ret_world default_config ret_image ret_func Map.empty [] 0x1000 = Some (t, dirs, cov) \<and> \<not> capped t
    \<and> effects t = [Ret Zero] \<and> instret t < instr_cap default_config"
proof -
  obtain su where su: "prepare (\<lambda>_. False) (\<lambda>_ _ _. False) default_config ret_image 0x1000 = Inr su" using ret_prepares by blast
  obtain rc where rc: "emu_start (ret_engine su) [] (init_rec default_config None Map.empty ret_image ret_func []) = Some (rc, True, RET_ADDR)"
    "rc_effects rc = [Ret Zero]" "rc_instret rc = 1" "\<not> rc_capped rc" "rc_cfg rc = default_config" using ret_run by blast
  obtain t dirs cov where t: "finish_run ret_func rc True RET_ADDR = (t, dirs, cov)" by (metis prod_cases3)
  have arch: "im_arch ret_image = Aarch64" by (simp add: ret_image_def)
  have r: "run_from ret_world default_config ret_image ret_func Map.empty [] 0x1000 = Some (t, dirs, cov)"
    using su rc(1) t arch by (simp add: run_from_def try_run_def ret_world_def Let_def)
  have "\<not> rc_instret rc \<ge> instr_cap (rc_cfg rc)" using rc by (simp add: default_config_def word_le_nat_alt)
  then have c: "\<not> capped t" "effects t = [Ret Zero]" using t rc(2,4) by (auto simp: finish_run_def)
  from uncapped_run_returned [OF r c(1)] have "instret t < instr_cap default_config" by blast
  with r c show ?thesis by blast
qed

end
