(* ===== verification/Store.thy ===== *)
theory Store
  imports Sig
begin

text \<open>
  The corpus store (\<open>crates/fnprint-db/src/lib.rs\<close>): fingerprint rows in sqlite with an LSH band
  table, the checks the reader makes on an untrusted image, and the in-memory corpus.

  sqlite is not modelled beyond what the code asks of it. A table is the list of its rows in the
  order a scan gives them; a cell is a dynamically typed value, since an image may hold any type
  in any column. The three choices sqlite makes are parameters: \<open>flt n\<close> says whether the \<open>n\<close>-th
  statement of a connection fails, \<open>rowid\<close> picks the id of an inserted row, and \<open>enum\<close> is the order in which
  a \<open>HashSet\<close> of ids is iterated. A transaction that is dropped restores the tables it began with.
\<close>

section \<open>Constants\<close>

definition BAND_ROWS :: nat where "BAND_ROWS = 4"
definition BANDS :: nat where "BANDS = SIG_LEN div BAND_ROWS"
definition SIG_BYTES :: nat where "SIG_BYTES = SIG_LEN * 8"
definition MAX_TEXT :: nat where "MAX_TEXT = 2 ^ 20"
definition MAX_ROWS :: nat where "MAX_ROWS = 2000000"
definition MAX_TOTAL_BYTES :: u64 where "MAX_TOTAL_BYTES = 268435456"
definition MAX_CALLEES :: nat where "MAX_CALLEES = 4096"

definition EXPECTED_FUNCS_COLS :: "(string \<times> string) list" where
  "EXPECTED_FUNCS_COLS =
     [(''id'', ''INTEGER''), (''binary'', ''TEXT''), (''name'', ''TEXT''), (''entry'', ''INTEGER''),
      (''source'', ''TEXT''), (''complexity'', ''INTEGER''), (''shingles'', ''INTEGER''),
      (''capped'', ''INTEGER''), (''sig'', ''BLOB''), (''callees'', ''BLOB'')]"

definition LEGACY_FUNCS_COLS :: nat where
  "LEGACY_FUNCS_COLS = length EXPECTED_FUNCS_COLS - 1"

section \<open>Data\<close>

record FuncRec =
  rec_id :: u64
  rec_binary :: string
  rec_name :: "string option"
  rec_entry :: u64
  rec_source :: string
  rec_fp :: Fingerprint
  rec_callees :: "u64 list"

record FuncPrint =
  fpr_name :: "string option"
  fpr_entry :: u64
  fpr_source :: string
  fpr_fp :: Fingerprint
  fpr_callees :: "u64 list"

text \<open>A cell. A real number is kept as the text sqlite renders it as.\<close>

datatype cell = CNull | CInt u64 | CReal string | CText string | CBlob "u8 list"

record row =
  c_id :: cell
  c_binary :: cell
  c_name :: cell
  c_entry :: cell
  c_source :: cell
  c_complexity :: cell
  c_shingles :: cell
  c_capped :: cell
  c_sig :: cell
  c_callees :: cell

record Db =
  funcs :: "row list"
  bands :: "(u64 \<times> u64 \<times> u64) list"
  has_callees :: bool
  stmts :: nat

datatype db_error =
    SqliteError | ColumnType | BadUtf8 | RowBudget | ByteBudget
  | NoFuncsTable | NotATable string | WrongColumnCount nat | HiddenColumn string | ColumnMismatch string

section \<open>Encoding\<close>

definition encode_sig :: "u64 list \<Rightarrow> u8 list" where
  "encode_sig vs = concat (map le64 vs)"

text \<open>\<open>from_le_bytes\<close> of an 8-byte window, and the 8-byte stride.\<close>

definition from_le_bytes :: "u8 list \<Rightarrow> u64" where
  "from_le_bytes bs = of_nat (of_le bs)"

function decode_sig :: "u8 list \<Rightarrow> u64 list" where
  "decode_sig bs = (if 8 \<le> length bs then from_le_bytes (take 8 bs) # decode_sig (drop 8 bs) else [])"
  by pat_completeness auto
termination
  by (relation "measure length") auto

declare decode_sig.simps [simp del]

section \<open>Cells and rows\<close>

text \<open>sqlite's \<open>octet_length\<close>, NULL (here \<open>None\<close>) for NULL, of the text rendering for a number.\<close>

fun octet_length :: "cell \<Rightarrow> nat option" where
  "octet_length CNull = None"
| "octet_length (CInt v) = Some (length ((if sint v < 0 then ''-'' else []) @ dec_nat (nat \<bar>sint v\<bar>)))"
| "octet_length (CReal s) = Some (length s)"
| "octet_length (CText s) = Some (length s)"
| "octet_length (CBlob b) = Some (length b)"

text \<open>A comparison with NULL is not true.\<close>

definition octets_le :: "cell \<Rightarrow> nat \<Rightarrow> bool" where
  "octets_le c n = (case octet_length c of None \<Rightarrow> False | Some k \<Rightarrow> k \<le> n)"

text \<open>The \<open>WHERE\<close> clause of \<open>all\<close> and \<open>candidates\<close>.\<close>

definition row_where :: "row \<Rightarrow> bool" where
  "row_where r \<longleftrightarrow> octet_length (c_sig r) = Some SIG_BYTES \<and> octets_le (c_binary r) MAX_TEXT
     \<and> (c_name r = CNull \<or> octets_le (c_name r) MAX_TEXT) \<and> octets_le (c_source r) MAX_TEXT"

text \<open>\<open>row.get::<_, T>(i)\<close> for the types the code asks for.\<close>

fun get_i64 :: "cell \<Rightarrow> db_error + u64" where
  "get_i64 (CInt v) = Inr v"
| "get_i64 _ = Inl ColumnType"

fun get_string :: "cell \<Rightarrow> db_error + string" where
  "get_string (CText s) = (if utf8_valid s then Inr s else Inl BadUtf8)"
| "get_string _ = Inl ColumnType"

fun get_blob :: "cell \<Rightarrow> db_error + u8 list" where
  "get_blob (CBlob b) = Inr b"
| "get_blob _ = Inl ColumnType"

definition get_opt :: "(cell \<Rightarrow> db_error + 'a) \<Rightarrow> cell \<Rightarrow> db_error + 'a option" where
  "get_opt g c = (if c = CNull then Inr None else bindR (g c) (\<lambda>x. Inr (Some x)))"

text \<open>\<open>u32::try_from(v).unwrap_or(0)\<close> of an \<open>i64\<close>.\<close>

definition u32_or_0 :: "u64 \<Rightarrow> u32" where
  "u32_or_0 v = (if 0 \<le> sint v \<and> sint v < 2 ^ 32 then ucast v else 0)"

text \<open>The callees column a row is read with: an empty blob on a legacy image.\<close>

definition row_select :: "bool \<Rightarrow> row \<Rightarrow> row" where
  "row_select hc r = (if hc then r else r\<lparr>c_callees := CBlob []\<rparr>)"

definition row_to_rec :: "row \<Rightarrow> db_error + FuncRec" where
  "row_to_rec r =
     bindR (get_blob (c_sig r)) (\<lambda>sg.
     bindR (get_i64 (c_shingles r)) (\<lambda>sh.
     bindR (get_i64 (c_complexity r)) (\<lambda>cx.
     bindR (get_i64 (c_capped r)) (\<lambda>cap.
     bindR (get_opt get_blob (c_callees r)) (\<lambda>cb.
     let fp = \<lparr>sig = decode_sig sg, shingles = u32_or_0 sh, complexity = u32_or_0 cx, fp_capped = cap \<noteq> 0\<rparr>;
         cb = take (MAX_CALLEES * 8) (case cb of None \<Rightarrow> [] | Some b \<Rightarrow> b)
     in bindR (get_i64 (c_id r)) (\<lambda>i.
        bindR (get_string (c_binary r)) (\<lambda>bin.
        bindR (get_opt get_string (c_name r)) (\<lambda>nm.
        bindR (get_i64 (c_entry r)) (\<lambda>en.
        bindR (get_string (c_source r)) (\<lambda>src.
        Inr \<lparr>rec_id = i, rec_binary = bin, rec_name = nm, rec_entry = en, rec_source = src,
             rec_fp = fp, rec_callees = decode_sig cb\<rparr>))))))))))"

section \<open>Reading the whole corpus\<close>

definition opt_len :: "string option \<Rightarrow> nat" where
  "opt_len s = (case s of None \<Rightarrow> 0 | Some t \<Rightarrow> length t)"

definition rec_bytes :: "FuncRec \<Rightarrow> u64" where
  "rec_bytes r = sat_add64 (sat_add64 (sat_add64 (sat_add64 (of_nat SIG_BYTES)
      (of_nat (length (rec_binary r)))) (of_nat (opt_len (rec_name r))))
      (of_nat (length (rec_source r)))) (of_nat (length (rec_callees r) * 8))"

definition over_text_cap :: "FuncRec \<Rightarrow> bool" where
  "over_text_cap r \<longleftrightarrow> MAX_TEXT < length (rec_binary r) \<or> MAX_TEXT < length (rec_source r)
     \<or> MAX_TEXT < opt_len (rec_name r)"

text \<open>The row loop of \<open>all\<close>: what has been pushed, the byte total, the rows still to come.\<close>

fun all_loop :: "FuncRec list \<Rightarrow> u64 \<Rightarrow> row list \<Rightarrow> db_error + FuncRec list" where
  "all_loop out tot [] = Inr out"
| "all_loop out tot (r # rs) =
     bindR (row_to_rec r) (\<lambda>rc.
       if over_text_cap rc then all_loop out tot rs
       else if MAX_ROWS \<le> length out then Inl RowBudget
       else let tot' = sat_add64 tot (rec_bytes rc)
            in if MAX_TOTAL_BYTES < tot' then Inl ByteBudget
               else all_loop (out @ [rc]) tot' rs)"

definition db_all :: "Db \<Rightarrow> db_error + FuncRec list" where
  "db_all db = all_loop [] 0 (map (row_select (has_callees db)) (filter row_where (funcs db)))"

section \<open>Schema\<close>

text \<open>The declared columns, as \<open>pragma_table_xinfo\<close> lists them: name, upper-case type, hidden flag.\<close>

fun check_cols :: "(string \<times> string \<times> u64) list \<Rightarrow> (string \<times> string) list \<Rightarrow> db_error + unit" where
  "check_cols ((name, ty, hidden) # cs) ((en, et) # es) =
     (if hidden \<noteq> 0 then Inl (HiddenColumn name)
      else if name \<noteq> en \<or> ty \<noteq> et then Inl (ColumnMismatch name)
      else check_cols cs es)"
| "check_cols _ _ = Inr ()"

definition verify_funcs_schema :: "string option \<Rightarrow> (string \<times> string \<times> u64) list \<Rightarrow> db_error + bool" where
  "verify_funcs_schema kind cols =
     (case kind of
        None \<Rightarrow> Inl NoFuncsTable
      | Some k \<Rightarrow>
          if k \<noteq> ''table'' then Inl (NotATable k)
          else if length cols \<noteq> length EXPECTED_FUNCS_COLS \<and> length cols \<noteq> LEGACY_FUNCS_COLS
          then Inl (WrongColumnCount (length cols))
          else bindR (check_cols cols EXPECTED_FUNCS_COLS)
                 (\<lambda>_. Inr (length cols = length EXPECTED_FUNCS_COLS)))"
section \<open>Writing\<close>

text \<open>One statement: it fails without effect when \<open>flt\<close> says so, and always advances the count.\<close>

definition exec :: "(nat \<Rightarrow> bool) \<Rightarrow> (Db \<Rightarrow> Db) \<Rightarrow> Db \<Rightarrow> Db \<times> (db_error + unit)" where
  "exec flt f db =
     (let db' = db\<lparr>stmts := stmts db + 1\<rparr>
      in if flt (stmts db) then (db', Inl SqliteError) else (f db', Inr ()))"

definition print_row :: "string \<Rightarrow> FuncPrint \<Rightarrow> u64 \<Rightarrow> row" where
  "print_row bin p i =
     \<lparr>c_id = CInt i, c_binary = CText bin,
      c_name = (case fpr_name p of None \<Rightarrow> CNull | Some s \<Rightarrow> CText s),
      c_entry = CInt (fpr_entry p), c_source = CText (fpr_source p),
      c_complexity = CInt (ucast (complexity (fpr_fp p))), c_shingles = CInt (ucast (shingles (fpr_fp p))),
      c_capped = CInt (if fp_capped (fpr_fp p) then 1 else 0),
      c_sig = CBlob (encode_sig (sig (fpr_fp p))),
      c_callees = CBlob (encode_sig (take MAX_CALLEES (fpr_callees p)))\<rparr>"

fun insert_bands :: "(nat \<Rightarrow> bool) \<Rightarrow> u64 \<Rightarrow> (nat \<times> u64) list \<Rightarrow> Db \<Rightarrow> Db \<times> (db_error + u64)" where
  "insert_bands flt i [] db = (db, Inr i)"
| "insert_bands flt i ((band, key) # ks) db =
     (case exec flt (\<lambda>d. d\<lparr>bands := bands d @ [(of_nat band, key, i)]\<rparr>) db of
        (db', Inl e) \<Rightarrow> (db', Inl e)
      | (db', Inr _) \<Rightarrow> insert_bands flt i ks db')"

definition db_insert ::
  "(nat \<Rightarrow> bool) \<Rightarrow> (row list \<Rightarrow> u64) \<Rightarrow> string \<Rightarrow> FuncPrint \<Rightarrow> Db \<Rightarrow> Db \<times> (db_error + u64)" where
  "db_insert flt rowid bin p db =
     (let i = rowid (funcs db)
      in case exec flt (\<lambda>d. d\<lparr>funcs := funcs d @ [print_row bin p i]\<rparr>) db of
           (db', Inl e) \<Rightarrow> (db', Inl e)
         | (db', Inr _) \<Rightarrow> insert_bands flt i (enumerated (band_keys BAND_ROWS (fpr_fp p))) db')"

fun insert_loop ::
  "(nat \<Rightarrow> bool) \<Rightarrow> (row list \<Rightarrow> u64) \<Rightarrow> string \<Rightarrow> FuncPrint list \<Rightarrow> Db \<Rightarrow> Db \<times> (db_error + unit)" where
  "insert_loop flt rowid bin [] db = (db, Inr ())"
| "insert_loop flt rowid bin (p # ps) db =
     (case db_insert flt rowid bin p db of
        (db', Inl e) \<Rightarrow> (db', Inl e)
      | (db', Inr _) \<Rightarrow> insert_loop flt rowid bin ps db')"

text \<open>Dropping a transaction puts the tables back; the statement count goes on.\<close>

definition rollback :: "Db \<Rightarrow> Db \<Rightarrow> Db" where
  "rollback before db = db\<lparr>funcs := funcs before, bands := bands before\<rparr>"

definition insert_all ::
  "(nat \<Rightarrow> bool) \<Rightarrow> (row list \<Rightarrow> u64) \<Rightarrow> string \<Rightarrow> FuncPrint list \<Rightarrow> Db \<Rightarrow> Db \<times> (db_error + nat)" where
  "insert_all flt rowid bin ps db =
     (case exec flt (\<lambda>d. d) db of
        (db1, Inl e) \<Rightarrow> (db1, Inl e)
      | (db1, Inr _) \<Rightarrow>
          (case insert_loop flt rowid bin ps db1 of
             (db2, Inl e) \<Rightarrow> (rollback db db2, Inl e)
           | (db2, Inr _) \<Rightarrow>
               (case exec flt (\<lambda>d. d) db2 of
                  (db3, Inl e) \<Rightarrow> (rollback db db3, Inl e)
                | (db3, Inr _) \<Rightarrow> (db3, Inr (length ps)))))"

section \<open>Opening\<close>

text \<open>
  A file that may not exist yet: the number of columns its \<open>funcs\<close> table has, and its tables.
  \<open>open\<close> creates what is missing and grows a legacy table by a NULL callees column.
\<close>

definition db_init :: "(nat \<times> Db) option \<Rightarrow> nat \<times> Db" where
  "db_init f =
     (case f of
        None \<Rightarrow> (length EXPECTED_FUNCS_COLS, \<lparr>funcs = [], bands = [], has_callees = True, stmts = 0\<rparr>)
      | Some (n, db) \<Rightarrow>
          if n = LEGACY_FUNCS_COLS
          then (n + 1, db\<lparr>funcs := map (\<lambda>r. r\<lparr>c_callees := CNull\<rparr>) (funcs db)\<rparr>)
          else (n, db))"

definition db_open :: "(nat \<times> Db) option \<Rightarrow> nat \<times> Db" where
  "db_open f = (let (n, db) = db_init f in (n, db\<lparr>has_callees := True\<rparr>))"

definition open_image ::
  "string option \<Rightarrow> (string \<times> string \<times> u64) list \<Rightarrow> row list \<Rightarrow> (u64 \<times> u64 \<times> u64) list \<Rightarrow> db_error + Db" where
  "open_image kind cols rows bs =
     bindR (verify_funcs_schema kind cols)
       (\<lambda>hc. Inr \<lparr>funcs = rows, bands = bs, has_callees = hc, stmts = 0\<rparr>)"

section \<open>Candidates\<close>

text \<open>The ids the band table gives for a print, one lookup per band.\<close>

definition band_ids :: "Db \<Rightarrow> Fingerprint \<Rightarrow> u64 list" where
  "band_ids db p =
     concat (map (\<lambda>(band, key). map (\<lambda>(_, _, i). i) (filter (\<lambda>(b, k, _). b = of_nat band \<and> k = key) (bands db)))
       (enumerated (band_keys BAND_ROWS p)))"

fun cand_loop :: "Db \<Rightarrow> u64 list \<Rightarrow> db_error + FuncRec list" where
  "cand_loop db [] = Inr []"
| "cand_loop db (i # is) =
     (case filter (\<lambda>r. c_id r = CInt i \<and> row_where r) (funcs db) of
        [] \<Rightarrow> cand_loop db is
      | r # _ \<Rightarrow> bindR (row_to_rec (row_select (has_callees db) r)) (\<lambda>rc.
                   bindR (cand_loop db is) (\<lambda>rcs. Inr (rc # rcs))))"

definition db_candidates :: "(u64 list \<Rightarrow> u64 list) \<Rightarrow> Db \<Rightarrow> Fingerprint \<Rightarrow> db_error + FuncRec list" where
  "db_candidates enum db p = cand_loop db (enum (band_ids db p))"

section \<open>The corpus in memory\<close>

record MemCorpus =
  recs :: "FuncRec list"
  mbands :: "(nat \<times> u64) \<rightharpoonup> nat list"

definition from_records :: "FuncRec list \<Rightarrow> MemCorpus" where
  "from_records rs =
     \<lparr>recs = rs,
      mbands = multimap (concat (map (\<lambda>(i, r). map (\<lambda>bk. (bk, i)) (enumerated (band_keys BAND_ROWS (rec_fp r))))
        (enumerated rs)))\<rparr>"

definition mem_len :: "MemCorpus \<Rightarrow> nat" where
  "mem_len m = length (recs m)"

definition mem_is_empty :: "MemCorpus \<Rightarrow> bool" where
  "mem_is_empty m \<longleftrightarrow> recs m = []"

definition mem_all :: "MemCorpus \<Rightarrow> db_error + FuncRec list" where
  "mem_all m = Inr (recs m)"

definition mem_candidates :: "MemCorpus \<Rightarrow> Fingerprint \<Rightarrow> db_error + FuncRec list" where
  "mem_candidates m p =
     Inr (map (\<lambda>i. recs m ! i)
       (sort_dedup (concat (map (\<lambda>bk. lookup_all (mbands m) bk) (enumerated (band_keys BAND_ROWS p))))))"
section \<open>Encoding laws\<close>

lemma of_le_Cons: "of_le (b # bs) = unat b + 256 * of_le bs"
  by (simp add: of_le_def)

lemma of_le_digit: "i < length bs \<Longrightarrow> of_le bs div 256 ^ i mod 256 = unat (bs ! i)"
proof (induction bs arbitrary: i)
  case (Cons b bs)
  show ?case
  proof (cases i)
    case 0
    then show ?thesis using unat8_lt [of b] by (simp add: of_le_Cons)
  next
    case (Suc j)
    have "of_le (b # bs) div 256 = of_le bs" using unat8_lt [of b] by (simp add: of_le_Cons)
    then have "of_le (b # bs) div 256 ^ i = of_le bs div 256 ^ j"
      by (simp add: Suc div_mult2_eq)
    then show ?thesis using Cons Suc by simp
  qed
qed simp

lemma le64_from_le_bytes: "length bs = 8 \<Longrightarrow> le64 (from_le_bytes bs) = bs"
proof (rule nth_equalityI)
  fix i assume bs: "length bs = 8" and "i < length (le64 (from_le_bytes bs))"
  then have i: "i < 8" by simp
  have "of_le bs < 2 ^ 64" using of_le_bound [of bs] by (simp add: bs)
  then have t: "take_bit 64 (of_le bs) = of_le bs" by (rule take_bit_nat_eq_self)
  have "unat (le64 (from_le_bytes bs) ! i) = take_bit 8 (drop_bit (8 * i) (of_le bs))"
    using i t by (simp add: nth_le64 unsigned_ucast_eq unsigned_drop_bit_eq from_le_bytes_def unsigned_of_nat)
  also have "\<dots> = of_le bs div 2 ^ (8 * i) mod 256" by (simp add: take_bit_eq_mod drop_bit_eq_div)
  also have "(2::nat) ^ (8 * i) = 256 ^ i" by (simp add: power_mult)
  also have "of_le bs div 256 ^ i mod 256 = unat (bs ! i)" using i bs by (intro of_le_digit) simp
  finally show "le64 (from_le_bytes bs) ! i = bs ! i" by (rule unsigned_word_eqI)
qed simp

lemma from_le_bytes_le64 [simp]: "from_le_bytes (le64 v) = v"
proof -
  have "le64 (from_le_bytes (le64 v)) = le64 v" by (rule le64_from_le_bytes) simp
  then show ?thesis by (simp only: le64_inj)
qed

lemma decode_encode [simp]: "decode_sig (encode_sig vs) = vs"
  by (induction vs) (simp_all add: encode_sig_def decode_sig.simps [of "le64 _ @ _"] decode_sig.simps [of "[]"])

lemma length_encode_sig [simp]: "length (encode_sig vs) = 8 * length vs"
  by (induction vs) (simp_all add: encode_sig_def)

lemma length_decode_sig: "length (decode_sig bs) = length bs div 8"
proof (induction bs rule: decode_sig.induct)
  case (1 bs)
  show ?case
  proof (cases "8 \<le> length bs")
    case True
    then have "length (decode_sig bs) = 1 + (length bs - 8) div 8"
      using 1 by (simp add: decode_sig.simps [of bs])
    also have "\<dots> = length bs div 8" using True by (simp add: div_if)
    finally show ?thesis .
  qed (simp add: decode_sig.simps)
qed

lemma encode_decode: "8 dvd length bs \<Longrightarrow> encode_sig (decode_sig bs) = bs"
proof (induction bs rule: decode_sig.induct)
  case (1 bs)
  show ?case
  proof (cases "8 \<le> length bs")
    case True
    then have "8 dvd length (drop 8 bs)" using 1 by (simp add: dvd_diff_nat)
    with 1 True have "encode_sig (decode_sig (drop 8 bs)) = drop 8 bs" by simp
    moreover have "le64 (from_le_bytes (take 8 bs)) = take 8 bs" using True by (intro le64_from_le_bytes) simp
    ultimately have "encode_sig (decode_sig bs) = take 8 bs @ drop 8 bs"
      using True by (simp add: decode_sig.simps [of bs] encode_sig_def)
    then show ?thesis by (simp only: append_take_drop_id)
  next
    case False
    with 1 have "bs = []" by (metis dvd_imp_le length_0_conv neq0_conv)
    then show ?thesis by (simp add: decode_sig.simps encode_sig_def)
  qed
qed

lemma SIG_BYTES_eq [simp]: "SIG_BYTES = 1024"
  by (simp add: SIG_BYTES_def SIG_LEN_def)

lemma ucast_u32_u64 [simp]: "ucast (ucast (v :: u32) :: u64) = v"
  by (rule bit_word_eqI) (simp add: bit_ucast_iff)

lemma u32_or_0_ucast [simp]: "u32_or_0 (ucast (v :: u32)) = v"
proof -
  have v: "uint v < 2 ^ 32" using unsigned_less [of v, where ?'a = int] by simp
  then have "take_bit 64 (uint v) = uint v" by (intro take_bit_int_eq_self) simp_all
  with v have lt: "uint (ucast v :: u64) < 2 ^ 32" by (simp add: unsigned_ucast_eq)
  then have "sint (ucast v :: u64) = uint (ucast v :: u64)"
    by (simp add: sint_uint signed_take_bit_int_eq_self_iff) (rule order.trans [of _ 0], simp_all)
  then show ?thesis using lt unfolding u32_or_0_def ucast_u32_u64 by simp
qed
section \<open>Reading\<close>

lemma utf8_row: "get_string (CText s) = Inr t \<longleftrightarrow> utf8_valid s \<and> t = s"
  by auto

lemma get_string_Inr: "get_string c = Inr s \<Longrightarrow> c = CText s \<and> utf8_valid s"
  by (cases c) (auto split: if_splits)

lemma get_blob_Inr: "get_blob c = Inr b \<Longrightarrow> c = CBlob b"
  by (cases c) auto

lemma get_opt_Inr: "get_opt g c = Inr x \<Longrightarrow> (c = CNull \<and> x = None) \<or> (\<exists>y. g c = Inr y \<and> x = Some y)"
  by (auto simp: get_opt_def bindR_Inr split: if_splits)

text \<open>What a row that reads back as a record looks like.\<close>

lemma row_to_rec_Inr:
  assumes "row_to_rec r = Inr x"
  shows "c_id r = CInt (rec_id x)" and "c_binary r = CText (rec_binary x)" and "c_source r = CText (rec_source x)"
    and "utf8_valid (rec_binary x)" and "utf8_valid (rec_source x)"
    and "c_name r = (case rec_name x of None \<Rightarrow> CNull | Some s \<Rightarrow> CText s)"
    and "\<And>s. rec_name x = Some s \<Longrightarrow> utf8_valid s"
    and "\<exists>b. c_sig r = CBlob b \<and> sig (rec_fp x) = decode_sig b"
    and "length (rec_callees x) \<le> MAX_CALLEES"
proof -
  obtain sg sh cx cap cb i bin nm en src where
    g: "get_blob (c_sig r) = Inr sg" "get_i64 (c_shingles r) = Inr sh" "get_i64 (c_complexity r) = Inr cx"
      "get_i64 (c_capped r) = Inr cap" "get_opt get_blob (c_callees r) = Inr cb"
      "get_string (c_binary r) = Inr bin" "get_opt get_string (c_name r) = Inr nm"
      "get_i64 (c_entry r) = Inr en" "get_string (c_source r) = Inr src" "get_i64 (c_id r) = Inr i"
    and x: "x = \<lparr>rec_id = i, rec_binary = bin, rec_name = nm, rec_entry = en, rec_source = src,
       rec_fp = \<lparr>sig = decode_sig sg, shingles = u32_or_0 sh, complexity = u32_or_0 cx, fp_capped = cap \<noteq> 0\<rparr>,
       rec_callees = decode_sig (take (MAX_CALLEES * 8) (case cb of None \<Rightarrow> [] | Some b \<Rightarrow> b))\<rparr>"
    using assms by (auto simp: row_to_rec_def bindR_Inr Let_def)
  show "c_id r = CInt (rec_id x)" using g(10) by (cases "c_id r") (simp_all add: x)
  show "c_binary r = CText (rec_binary x)" "utf8_valid (rec_binary x)"
    using get_string_Inr [OF g(6)] by (simp_all add: x)
  show "c_source r = CText (rec_source x)" "utf8_valid (rec_source x)"
    using get_string_Inr [OF g(9)] by (simp_all add: x)
  show "c_name r = (case rec_name x of None \<Rightarrow> CNull | Some s \<Rightarrow> CText s)"
    using get_opt_Inr [OF g(7)] get_string_Inr by (fastforce simp: x)
  show "\<And>s. rec_name x = Some s \<Longrightarrow> utf8_valid s"
    using get_opt_Inr [OF g(7)] get_string_Inr by (fastforce simp: x)
  show "\<exists>b. c_sig r = CBlob b \<and> sig (rec_fp x) = decode_sig b"
    using get_blob_Inr [OF g(1)] by (simp add: x)
  show "length (rec_callees x) \<le> MAX_CALLEES"
    by (simp add: x length_decode_sig div_le_mono [where n = "MAX_CALLEES * 8" and k = 8, simplified])
qed

lemma octets_le_text: "octets_le (CText s) n \<longleftrightarrow> length s \<le> n"
  by (simp add: octets_le_def)

text \<open>The record a well-formed reader hands on.\<close>

definition wf_rec :: "FuncRec \<Rightarrow> bool" where
  "wf_rec x \<longleftrightarrow> wf_fp (rec_fp x) \<and> length (rec_binary x) \<le> MAX_TEXT \<and> length (rec_source x) \<le> MAX_TEXT
     \<and> opt_len (rec_name x) \<le> MAX_TEXT \<and> length (rec_callees x) \<le> MAX_CALLEES
     \<and> utf8_valid (rec_binary x) \<and> utf8_valid (rec_source x)
     \<and> (case rec_name x of None \<Rightarrow> True | Some s \<Rightarrow> utf8_valid s)"

lemma row_select_sel [simp]:
  "c_id (row_select h r) = c_id r" "c_binary (row_select h r) = c_binary r"
  "c_name (row_select h r) = c_name r" "c_source (row_select h r) = c_source r" "c_sig (row_select h r) = c_sig r"
  by (simp_all add: row_select_def)

lemma row_select_True [simp]: "row_select True = (\<lambda>r. r)"
  by (rule ext) (simp add: row_select_def)

lemma mapR_rows_ids: "mapR row_to_rec rows = Inr xs \<Longrightarrow> map (\<lambda>x. CInt (rec_id x)) xs = map c_id rows"
  by (induction rows arbitrary: xs) (auto simp: bindR_Inr row_to_rec_Inr(1))

lemma wf_rec_row [wf_intros]:
  assumes "row_where r" and x: "row_to_rec (row_select h r) = Inr x"
  shows "wf_rec x"
proof -
  note R = row_to_rec_Inr [OF x, simplified]
  from R(8) assms(1) have "wf_fp (rec_fp x)"
    by (auto simp: wf_fp_def row_where_def length_decode_sig SIG_LEN_def)
  moreover have "length (rec_binary x) \<le> MAX_TEXT" "length (rec_source x) \<le> MAX_TEXT"
    using assms(1) R(2,3) by (auto simp: row_where_def octets_le_text)
  moreover have "opt_len (rec_name x) \<le> MAX_TEXT"
    using assms(1) R(6) by (auto simp: row_where_def octets_le_text opt_len_def split: option.splits)
  ultimately show ?thesis using R(4,5,7,9) by (auto simp: wf_rec_def split: option.split)
qed

lemma wf_rec_not_over: "wf_rec x \<Longrightarrow> \<not> over_text_cap x"
  by (auto simp: wf_rec_def over_text_cap_def)

text \<open>The Rust-side length check never drops a row the \<open>WHERE\<close> clause let through, so a
  successful read is every selected row, in order, and stays inside both budgets.\<close>

lemma all_loop_Inr:
  assumes "all_loop out tot rows = Inr xs"
    and "\<And>r x. r \<in> set rows \<Longrightarrow> row_to_rec r = Inr x \<Longrightarrow> \<not> over_text_cap x"
  shows "\<exists>ys. xs = out @ ys \<and> mapR row_to_rec rows = Inr ys
    \<and> (length out \<le> MAX_ROWS \<longrightarrow> length xs \<le> MAX_ROWS)
    \<and> (tot \<le> MAX_TOTAL_BYTES \<longrightarrow> unat tot + (\<Sum>y\<leftarrow>ys. unat (rec_bytes y)) \<le> unat MAX_TOTAL_BYTES)"
  using assms
proof (induction rows arbitrary: out tot)
  case Nil
  then show ?case by (simp add: word_le_nat_alt)
next
  case (Cons r rows)
  then obtain x where x: "row_to_rec r = Inr x" by (auto simp: bindR_Inr)
  then have nov: "\<not> over_text_cap x" using Cons.prems(2) [of r x] by simp
  let ?t = "sat_add64 tot (rec_bytes x)"
  have step: "all_loop (out @ [x]) ?t rows = Inr xs" and len: "length out < MAX_ROWS"
    and tot: "?t \<le> MAX_TOTAL_BYTES"
    using Cons.prems(1) by (auto simp: x nov Let_def split: if_splits)
  have "\<exists>ys. xs = (out @ [x]) @ ys \<and> mapR row_to_rec rows = Inr ys
    \<and> (length (out @ [x]) \<le> MAX_ROWS \<longrightarrow> length xs \<le> MAX_ROWS)
    \<and> (?t \<le> MAX_TOTAL_BYTES \<longrightarrow> unat ?t + (\<Sum>y\<leftarrow>ys. unat (rec_bytes y)) \<le> unat MAX_TOTAL_BYTES)"
    by (rule Cons.IH [OF step], rule Cons.prems(2)) simp_all
  then obtain ys where ys: "xs = (out @ [x]) @ ys"
      "mapR row_to_rec rows = Inr ys" "length xs \<le> MAX_ROWS"
      "unat ?t + (\<Sum>y\<leftarrow>ys. unat (rec_bytes y)) \<le> unat MAX_TOTAL_BYTES"
    using len tot by auto
  have "unat ?t < 2 ^ 64 - 1" using tot by (simp add: word_le_nat_alt MAX_TOTAL_BYTES_def)
  then have "unat ?t = unat tot + unat (rec_bytes x)" by (simp add: unat_sat_add64)
  with ys show ?case by (auto simp: x)
qed
lemma all_loop_ok:
  assumes "mapR row_to_rec rows = Inr ys" and "list_all (\<lambda>y. \<not> over_text_cap y) ys"
    and "length out + length ys \<le> MAX_ROWS"
    and "unat tot + (\<Sum>y\<leftarrow>ys. unat (rec_bytes y)) \<le> unat MAX_TOTAL_BYTES"
  shows "all_loop out tot rows = Inr (out @ ys)"
  using assms
proof (induction rows arbitrary: out tot ys)
  case (Cons r rows)
  then obtain x zs where x: "row_to_rec r = Inr x" "mapR row_to_rec rows = Inr zs" "ys = x # zs"
    by (auto simp: bindR_Inr)
  have "unat tot + unat (rec_bytes x) \<le> unat MAX_TOTAL_BYTES" using Cons.prems(4) x(3) by simp
  then have le: "unat (sat_add64 tot (rec_bytes x)) \<le> unat MAX_TOTAL_BYTES"
    and eq: "unat (sat_add64 tot (rec_bytes x)) = unat tot + unat (rec_bytes x)"
    by (simp_all add: unat_sat_add64 MAX_TOTAL_BYTES_def)
  have "all_loop (out @ [x]) (sat_add64 tot (rec_bytes x)) rows = Inr ((out @ [x]) @ zs)"
    using Cons.prems x eq by (intro Cons.IH) simp_all
  then show ?case using Cons.prems x le by (simp add: Let_def word_less_nat_alt)
qed simp

section \<open>Writing\<close>

text \<open>The rows and the band entries a batch stands for.\<close>

definition print_bands :: "FuncPrint \<Rightarrow> u64 \<Rightarrow> (u64 \<times> u64 \<times> u64) list" where
  "print_bands p i = map (\<lambda>(b, k). (of_nat b, k, i)) (enumerated (band_keys BAND_ROWS (fpr_fp p)))"

fun print_rows :: "(row list \<Rightarrow> u64) \<Rightarrow> string \<Rightarrow> row list \<Rightarrow> FuncPrint list \<Rightarrow> row list" where
  "print_rows rowid bin fs [] = []"
| "print_rows rowid bin fs (p # ps) =
     (let r = print_row bin p (rowid fs) in r # print_rows rowid bin (fs @ [r]) ps)"

text \<open>The id of a row whose id is an integer, as every row the program writes has.\<close>

definition row_id :: "row \<Rightarrow> u64" where
  "row_id r = (case c_id r of CInt i \<Rightarrow> i | _ \<Rightarrow> 0)"

definition batch_bands :: "FuncPrint list \<Rightarrow> row list \<Rightarrow> (u64 \<times> u64 \<times> u64) list" where
  "batch_bands ps rs = concat (map2 (\<lambda>p r. print_bands p (row_id r)) ps rs)"

lemma exec_cases:
  obtains "exec flt f db = (db\<lparr>stmts := stmts db + 1\<rparr>, Inl SqliteError)" "flt (stmts db)"
  | "exec flt f db = (f (db\<lparr>stmts := stmts db + 1\<rparr>), Inr ())" "\<not> flt (stmts db)"
  by (cases "flt (stmts db)") (simp_all add: exec_def Let_def)

lemma insert_bands_Inr:
  "insert_bands flt i ks db = (db', Inr j) \<Longrightarrow>
   j = i \<and> funcs db' = funcs db \<and> has_callees db' = has_callees db
   \<and> bands db' = bands db @ map (\<lambda>(b, k). (of_nat b, k, i)) ks"
proof (induction flt i ks db rule: insert_bands.induct)
  case (2 flt i band key ks db)
  show ?case
    by (rule exec_cases [of flt "\<lambda>d. d\<lparr>bands := bands d @ [(of_nat band, key, i)]\<rparr>" db])
      (use 2 in auto)
qed simp

lemma db_insert_Inr:
  "db_insert flt rowid bin p db = (db', Inr i) \<Longrightarrow>
   i = rowid (funcs db) \<and> has_callees db' = has_callees db
   \<and> funcs db' = funcs db @ [print_row bin p i] \<and> bands db' = bands db @ print_bands p i"
  by (rule exec_cases [of flt "\<lambda>d. d\<lparr>funcs := funcs d @ [print_row bin p (rowid (funcs db))]\<rparr>" db])
    (auto simp: db_insert_def Let_def print_bands_def dest: insert_bands_Inr)

lemma print_row_id [simp]: "c_id (print_row bin p i) = CInt i" "row_id (print_row bin p i) = i"
  by (simp_all add: print_row_def row_id_def)

lemma insert_loop_Inr:
  "insert_loop flt rowid bin ps db = (db', Inr u) \<Longrightarrow>
   has_callees db' = has_callees db \<and> funcs db' = funcs db @ print_rows rowid bin (funcs db) ps
   \<and> bands db' = bands db @ batch_bands ps (print_rows rowid bin (funcs db) ps)"
proof (induction flt rowid bin ps db rule: insert_loop.induct)
  case (2 flt rowid bin p ps db)
  obtain db1 where ins: "db_insert flt rowid bin p db = (db1, Inr (rowid (funcs db)))"
    and rest: "insert_loop flt rowid bin ps db1 = (db', Inr u)"
    using "2.prems" by (auto dest!: db_insert_Inr split: prod.splits sum.splits)
  show ?case
    using "2.IH" [OF ins [symmetric] refl rest] db_insert_Inr [OF ins]
    by (simp add: Let_def batch_bands_def)
qed (simp add: batch_bands_def)

lemma insert_bands_no_fault: "\<exists>db'. insert_bands (\<lambda>_. False) i ks db = (db', Inr i)"
  by (induction ks arbitrary: db) (auto simp: exec_def)

lemma insert_loop_no_fault: "\<exists>db'. insert_loop (\<lambda>_. False) rowid bin ps db = (db', Inr ())"
proof (induction ps arbitrary: db)
  case (Cons p ps)
  obtain db1 where "db_insert (\<lambda>_. False) rowid bin p db = (db1, Inr (rowid (funcs db)))"
    using insert_bands_no_fault [of "rowid (funcs db)" _
        "db\<lparr>stmts := Suc (stmts db), funcs := funcs db @ [print_row bin p (rowid (funcs db))]\<rparr>"]
    by (auto simp: db_insert_def exec_def Let_def)
  then show ?case using Cons by simp
qed simp

lemma insert_all_cases:
  "case insert_all flt rowid bin ps db of
     (db', Inl e) \<Rightarrow> funcs db' = funcs db \<and> bands db' = bands db
   | (db', Inr n) \<Rightarrow> n = length ps \<and> has_callees db' = has_callees db
       \<and> funcs db' = funcs db @ print_rows rowid bin (funcs db) ps
       \<and> bands db' = bands db @ batch_bands ps (print_rows rowid bin (funcs db) ps)"
proof (cases "flt (stmts db)")
  case True
  then show ?thesis by (simp add: insert_all_def exec_def)
next
  case False
  obtain db2 r where loop: "insert_loop flt rowid bin ps (db\<lparr>stmts := stmts db + 1\<rparr>) = (db2, r)"
    by fastforce
  show ?thesis
  proof (cases r)
    case (Inl e)
    then show ?thesis using False loop by (simp add: insert_all_def exec_def rollback_def)
  next
    case (Inr u)
    have "has_callees db2 = has_callees db" "funcs db2 = funcs db @ print_rows rowid bin (funcs db) ps"
      "bands db2 = bands db @ batch_bands ps (print_rows rowid bin (funcs db) ps)"
      using insert_loop_Inr [OF loop [unfolded Inr]] by simp_all
    then show ?thesis using False loop Inr
      by (cases "flt (stmts db2)") (simp_all add: insert_all_def exec_def rollback_def)
  qed
qed
section \<open>Round trip\<close>

text \<open>The record a stored print reads back as.\<close>

definition print_rec :: "string \<Rightarrow> FuncPrint \<Rightarrow> u64 \<Rightarrow> FuncRec" where
  "print_rec bin p i =
     \<lparr>rec_id = i, rec_binary = bin, rec_name = fpr_name p, rec_entry = fpr_entry p,
      rec_source = fpr_source p, rec_fp = fpr_fp p, rec_callees = take MAX_CALLEES (fpr_callees p)\<rparr>"

text \<open>A print the program can have: a full signature, UTF-8 text below the caps.\<close>

definition wf_print :: "string \<Rightarrow> FuncPrint \<Rightarrow> bool" where
  "wf_print bin p \<longleftrightarrow> wf_fp (fpr_fp p) \<and> utf8_valid bin \<and> length bin \<le> MAX_TEXT
     \<and> utf8_valid (fpr_source p) \<and> length (fpr_source p) \<le> MAX_TEXT
     \<and> (case fpr_name p of None \<Rightarrow> True | Some s \<Rightarrow> utf8_valid s \<and> length s \<le> MAX_TEXT)"

lemma wf_print_row:
  assumes "wf_print bin p"
  shows "row_where (print_row bin p i)" and "row_to_rec (print_row bin p i) = Inr (print_rec bin p i)"
    and "\<not> over_text_cap (print_rec bin p i)"
proof -
  show "row_where (print_row bin p i)" "\<not> over_text_cap (print_rec bin p i)"
    using assms by (auto simp: wf_print_def row_where_def print_row_def octets_le_text wf_fp_def SIG_LEN_def
      over_text_cap_def print_rec_def opt_len_def split: option.splits)
  have "take (MAX_CALLEES * 8) (encode_sig (take MAX_CALLEES (fpr_callees p)))
      = encode_sig (take MAX_CALLEES (fpr_callees p))"
    by (rule take_all) simp
  then show "row_to_rec (print_row bin p i) = Inr (print_rec bin p i)"
    using assms by (auto simp: wf_print_def row_to_rec_def print_row_def print_rec_def get_opt_def Let_def
      split: option.splits)
qed

lemma length_print_rows [simp]: "length (print_rows rowid bin fs ps) = length ps"
  by (induction ps arbitrary: fs) (simp_all add: Let_def)

lemma print_rows_nth:
  "i < length ps \<Longrightarrow> print_rows rowid bin fs ps ! i
     = print_row bin (ps ! i) (row_id (print_rows rowid bin fs ps ! i))"
proof (induction ps arbitrary: fs i)
  case (Cons p ps)
  then show ?case by (cases i) (auto simp: Let_def)
qed simp

lemma print_rows_where: "list_all (wf_print bin) ps \<Longrightarrow> filter row_where (print_rows rowid bin fs ps) = print_rows rowid bin fs ps"
  by (induction ps arbitrary: fs) (simp_all add: Let_def wf_print_row)

lemma print_rows_recs:
  "list_all (wf_print bin) ps \<Longrightarrow> mapR row_to_rec (print_rows rowid bin fs ps)
     = Inr (map2 (print_rec bin) ps (map row_id (print_rows rowid bin fs ps)))"
  by (induction ps arbitrary: fs) (simp_all add: Let_def wf_print_row)

lemma print_recs_not_over:
  "list_all (wf_print bin) ps \<Longrightarrow> list_all (\<lambda>y. \<not> over_text_cap y) (map2 (print_rec bin) ps is)"
  by (induction ps "is" rule: list_induct2') (simp_all add: wf_print_row)

text \<open>What a print counts for in the byte budget of a reader.\<close>

definition print_bytes :: "string \<Rightarrow> FuncPrint \<Rightarrow> u64" where
  "print_bytes bin p = rec_bytes (print_rec bin p 0)"

lemma rec_bytes_print [simp]: "rec_bytes (print_rec bin p i) = print_bytes bin p"
  by (simp add: print_bytes_def rec_bytes_def print_rec_def)

lemma rec_bytes_sum:
  "length is = length ps \<Longrightarrow>
   (\<Sum>y\<leftarrow>map2 (print_rec bin) ps is. unat (rec_bytes y)) = (\<Sum>p\<leftarrow>ps. unat (print_bytes bin p))"
  by (induction "is" ps rule: list_induct2) simp_all

section \<open>The corpus interface\<close>

text \<open>What query, triage and match ask of a corpus: every record, and the records that share an LSH
  band with a print. The contract holds for both providers, so no client depends on which it got.\<close>

definition shares_band :: "Fingerprint \<Rightarrow> Fingerprint \<Rightarrow> bool" where
  "shares_band p q \<longleftrightarrow> (\<exists>k < length (band_keys BAND_ROWS p). k < length (band_keys BAND_ROWS q)
     \<and> band_keys BAND_ROWS p ! k = band_keys BAND_ROWS q ! k)"

lemma shares_band_set:
  "shares_band p q \<longleftrightarrow> (\<exists>bk \<in> set (enumerated (band_keys BAND_ROWS p)). bk \<in> set (enumerated (band_keys BAND_ROWS q)))"
  by (auto simp: shares_band_def set_enumerated)

lemma length_band_keys [simp]: "wf_fp p \<Longrightarrow> length (band_keys BAND_ROWS p) = 32"
  by (simp add: band_keys_def BAND_ROWS_def length_chunks [where b = 32])

lemma shares_band_close:
  assumes "wf_fp p" "wf_fp q" and "96 < agree (sig p) (sig q)"
  shows "shares_band p q"
proof -
  obtain k where "k < 32" "band_keys BAND_ROWS p ! k = band_keys BAND_ROWS q ! k"
    using band_keys_share [OF assms] by (auto simp: BAND_ROWS_def)
  then show ?thesis using assms by (auto simp: shares_band_def)
qed

lemma lsh_close_shares:
  assumes "wf_fp p" "wf_fp q" and "Fin (3 / 4) < similarity p q"
  shows "shares_band p q"
proof -
  have "(of_nat 96 :: rat) < of_nat (agree (sig p) (sig q))" using assms by (simp add: similarity_128)
  then have "96 < agree (sig p) (sig q)" by (simp only: of_nat_less_iff)
  then show ?thesis by (rule shares_band_close [OF assms(1,2)])
qed

locale corpus =
  fixes all_recs :: "'c \<Rightarrow> 'e + FuncRec list"
    and cands :: "'c \<Rightarrow> Fingerprint \<Rightarrow> 'e + FuncRec list"
    and inv :: "'c \<Rightarrow> bool"
  assumes cands_total: "inv c \<Longrightarrow> all_recs c = Inr rs \<Longrightarrow> wf_fp p \<Longrightarrow> \<exists>cs. cands c p = Inr cs"
    and cands_iff: "inv c \<Longrightarrow> all_recs c = Inr rs \<Longrightarrow> wf_fp p \<Longrightarrow> cands c p = Inr cs \<Longrightarrow>
      r \<in> set cs \<longleftrightarrow> r \<in> set rs \<and> shares_band p (rec_fp r)"
    and all_wf: "inv c \<Longrightarrow> all_recs c = Inr rs \<Longrightarrow> r \<in> set rs \<Longrightarrow> wf_fp (rec_fp r)"
begin

lemma cands_subset: "inv c \<Longrightarrow> all_recs c = Inr rs \<Longrightarrow> wf_fp p \<Longrightarrow> cands c p = Inr cs \<Longrightarrow> set cs \<subseteq> set rs"
  using cands_iff by blast

text \<open>No close record is missing from the candidates.\<close>

lemma cands_complete:
  assumes "inv c" "all_recs c = Inr rs" "wf_fp p" "cands c p = Inr cs"
    and "r \<in> set rs" and "Fin (3 / 4) < similarity p (rec_fp r)"
  shows "r \<in> set cs"
proof -
  have wf: "wf_fp (rec_fp r)" using assms all_wf by blast
  then have "shares_band p (rec_fp r)" using assms by (intro lsh_close_shares)
  then show ?thesis using assms cands_iff by blast
qed

end
section \<open>The two providers\<close>

definition mem_inv :: "MemCorpus \<Rightarrow> bool" where
  "mem_inv m \<longleftrightarrow> m = from_records (recs m) \<and> list_all (\<lambda>r. wf_fp (rec_fp r)) (recs m)"

lemma mem_candidates_set:
  assumes "mem_inv m" and "mem_candidates m p = Inr cs"
  shows "r \<in> set cs \<longleftrightarrow> r \<in> set (recs m) \<and> shares_band p (rec_fp r)"
proof -
  define rs where "rs = recs m"
  have m: "mbands m = mbands (from_records rs)" using assms(1) by (metis mem_inv_def rs_def)
  have "i \<in> set (lookup_all (mbands m) bk)
      \<longleftrightarrow> i < length rs \<and> bk \<in> set (enumerated (band_keys BAND_ROWS (rec_fp (rs ! i))))" for i bk
    unfolding m by (auto simp: from_records_def lookup_all_multimap set_enumerated [of rs] image_iff) (cases bk, auto)
  note mem = this
  have "set cs = (\<lambda>i. rs ! i) ` {i. \<exists>bk \<in> set (enumerated (band_keys BAND_ROWS p)). i \<in> set (lookup_all (mbands m) bk)}"
  proof -
    have "set (sort_dedup (concat (map (\<lambda>bk. lookup_all (mbands m) bk) (enumerated (band_keys BAND_ROWS p)))))
        = {i. \<exists>bk \<in> set (enumerated (band_keys BAND_ROWS p)). i \<in> set (lookup_all (mbands m) bk)}"
      by auto
    moreover have "cs = map (\<lambda>i. rs ! i)
        (sort_dedup (concat (map (\<lambda>bk. lookup_all (mbands m) bk) (enumerated (band_keys BAND_ROWS p)))))"
      using assms(2) by (simp add: mem_candidates_def rs_def)
    ultimately show ?thesis by (simp only: set_map)
  qed
  also have "\<dots> = (\<lambda>i. rs ! i) ` {i. i < length rs \<and> shares_band p (rec_fp (rs ! i))}"
    unfolding mem shares_band_set by blast
  finally show ?thesis by (auto simp: rs_def in_set_conv_nth)
qed

interpretation mem: corpus mem_all mem_candidates mem_inv
proof
  fix m :: MemCorpus and rs p cs r
  assume inv: "mem_inv m" and all: "mem_all m = Inr rs"
  from all have rs: "rs = recs m" by (simp add: mem_all_def)
  show "\<exists>cs. mem_candidates m p = Inr cs" by (simp add: mem_candidates_def)
  show "mem_candidates m p = Inr cs \<Longrightarrow> r \<in> set cs \<longleftrightarrow> r \<in> set rs \<and> shares_band p (rec_fp r)"
    using mem_candidates_set [OF inv] rs by simp
  show "r \<in> set rs \<Longrightarrow> wf_fp (rec_fp r)" using inv rs by (simp add: mem_inv_def list_all_iff)
qed

text \<open>The band table of a database the program wrote: one entry per band of every row.\<close>

definition row_keys :: "row \<Rightarrow> u64 list" where
  "row_keys r = map hash_words (chunks BAND_ROWS (case c_sig r of CBlob b \<Rightarrow> decode_sig b | _ \<Rightarrow> []))"

definition row_bands :: "row \<Rightarrow> (u64 \<times> u64 \<times> u64) set" where
  "row_bands r = (\<lambda>(b, k). (of_nat b, k, row_id r)) ` set (enumerated (row_keys r))"

definition enum_ok :: "('a list \<Rightarrow> 'a list) \<Rightarrow> bool" where
  "enum_ok enum \<longleftrightarrow> (\<forall>xs. set (enum xs) = set xs \<and> distinct (enum xs))"

definition db_inv :: "(u64 list \<Rightarrow> u64 list) \<Rightarrow> Db \<Rightarrow> bool" where
  "db_inv enum db \<longleftrightarrow> enum_ok enum \<and> distinct (map row_id (funcs db)) \<and> (\<forall>r \<in> set (funcs db). c_id r = CInt (row_id r))
     \<and> set (bands db) = (\<Union>r \<in> set (funcs db). row_bands r)"

lemma db_all_spec:
  assumes "db_all db = Inr rs"
  shows "mapR row_to_rec (map (row_select (has_callees db)) (filter row_where (funcs db))) = Inr rs"
    and "length rs \<le> MAX_ROWS" and "(\<Sum>r\<leftarrow>rs. unat (rec_bytes r)) \<le> unat MAX_TOTAL_BYTES"
    and "list_all wf_rec rs"
proof -
  let ?rows = "map (row_select (has_callees db)) (filter row_where (funcs db))"
  have nov: "\<not> over_text_cap x" if "r \<in> set ?rows" "row_to_rec r = Inr x" for r x
    using that wf_rec_row wf_rec_not_over by auto
  have "\<exists>ys. rs = [] @ ys \<and> mapR row_to_rec ?rows = Inr ys \<and> (length ([] :: FuncRec list) \<le> MAX_ROWS \<longrightarrow> length rs \<le> MAX_ROWS)
      \<and> (0 \<le> MAX_TOTAL_BYTES \<longrightarrow> unat (0 :: u64) + (\<Sum>y\<leftarrow>ys. unat (rec_bytes y)) \<le> unat MAX_TOTAL_BYTES)"
    by (rule all_loop_Inr [OF assms [unfolded db_all_def]], rule nov)
  then show *: "mapR row_to_rec ?rows = Inr rs" and "length rs \<le> MAX_ROWS"
      and "(\<Sum>r\<leftarrow>rs. unat (rec_bytes r)) \<le> unat MAX_TOTAL_BYTES"
    by simp_all
  show "list_all wf_rec rs"
    unfolding list_all_iff
  proof
    fix x assume "x \<in> set rs"
    then obtain r where "row_where r" "row_to_rec (row_select (has_callees db) r) = Inr x"
      using mapR_Inr_set [OF *] by auto
    then show "wf_rec x" by (rule wf_rec_row)
  qed
qed

lemma mem_inv_from_db: "db_all db = Inr rs \<Longrightarrow> mem_inv (from_records rs)"
  using db_all_spec(4) [of db rs] by (auto simp: mem_inv_def from_records_def list_all_iff wf_rec_def)

lemma filter_id_distinct:
  assumes "distinct (map row_id rows)" and "\<forall>r \<in> set rows. c_id r = CInt (row_id r)"
    and "filter (\<lambda>r. c_id r = CInt i \<and> P r) rows = r # rs"
  shows "r \<in> set rows \<and> row_id r = i \<and> P r \<and> (\<forall>r' \<in> set rows. row_id r' = i \<longrightarrow> r' = r)"
proof -
  have "r \<in> set (filter (\<lambda>r. c_id r = CInt i \<and> P r) rows)" by (simp add: assms(3))
  with assms(1,2) show ?thesis by (auto simp: distinct_map inj_on_def)
qed

lemma cand_loop_set:
  assumes "distinct (map row_id (funcs db))" and "\<forall>r \<in> set (funcs db). c_id r = CInt (row_id r)"
    and "cand_loop db is = Inr cs"
  shows "x \<in> set cs \<longleftrightarrow> (\<exists>r \<in> set (funcs db). row_where r \<and> row_id r \<in> set is
    \<and> row_to_rec (row_select (has_callees db) r) = Inr x)"
  using assms(3)
proof (induction "is" arbitrary: cs)
  case (Cons i "is")
  show ?case
  proof (cases "filter (\<lambda>r. c_id r = CInt i \<and> row_where r) (funcs db)")
    case Nil
    then have "cand_loop db is = Inr cs" using Cons.prems by simp
    from Cons.IH [OF this] Nil assms(2) show ?thesis by (auto simp: filter_empty_conv)
  next
    case (Cons r rs)
    then obtain y ys where y: "row_to_rec (row_select (has_callees db) r) = Inr y"
      "cand_loop db is = Inr ys" "cs = y # ys" using Cons.prems by (auto simp: bindR_Inr)
    from Cons.IH [OF y(2)] filter_id_distinct [OF assms(1,2) Cons] y show ?thesis by auto
  qed
qed simp

lemma cand_loop_total:
  assumes "\<And>r. r \<in> set (funcs db) \<Longrightarrow> row_where r \<Longrightarrow> \<exists>x. row_to_rec (row_select (has_callees db) r) = Inr x"
  shows "\<exists>cs. cand_loop db is = Inr cs"
proof (induction "is")
  case (Cons i "is")
  then obtain cs where cs: "cand_loop db is = Inr cs" by blast
  show ?case
  proof (cases "filter (\<lambda>r. c_id r = CInt i \<and> row_where r) (funcs db)")
    case (Cons r rs)
    then have "r \<in> set (filter (\<lambda>r. c_id r = CInt i \<and> row_where r) (funcs db))" by simp
    then obtain x where "row_to_rec (row_select (has_callees db) r) = Inr x" using assms by auto
    then show ?thesis using Cons cs by simp
  qed (use cs in simp)
qed simp

lemma row_keys_rec:
  assumes "row_to_rec (row_select h r) = Inr x"
  shows "row_keys r = band_keys BAND_ROWS (rec_fp x)"
  using row_to_rec_Inr(8) [OF assms] by (auto simp: row_keys_def band_keys_def BAND_ROWS_def)

lemma select_third: "i \<in> set (map (\<lambda>(_, _, i). i) (filter (\<lambda>(b, k, _). b = B \<and> k = K) xs)) \<longleftrightarrow> (B, K, i) \<in> set xs"
  by (induction xs) auto

lemma set_concat_pairs: "i \<in> set (concat (map (\<lambda>(b, k). F b k) xs)) \<longleftrightarrow> (\<exists>(b, k) \<in> set xs. i \<in> set (F b k))"
  by auto

lemma set_band_ids:
  "i \<in> set (band_ids db p) \<longleftrightarrow>
   (\<exists>(b, k) \<in> set (enumerated (band_keys BAND_ROWS p)). (of_nat b, k, i) \<in> set (bands db))"
  by (simp only: band_ids_def set_concat_pairs select_third)

lemma of_nat_band_inj: "inj_on (of_nat :: nat \<Rightarrow> u64) {..<32}"
proof (rule inj_on_inverseI [where g = unat])
  fix a :: nat assume "a \<in> {..<32}"
  then have "take_bit 64 a = a" by (intro take_bit_nat_eq_self) simp
  then show "unat (of_nat a :: u64) = a" by (simp add: unsigned_of_nat)
qed

lemma image_pairs:
  "(\<exists>(b, k) \<in> A. (f b, k, i) \<in> (\<lambda>(b, k). (f b, k, i)) ` B) \<longleftrightarrow> (\<exists>(b, k) \<in> A. \<exists>(b', k') \<in> B. f b' = f b \<and> k' = k)"
proof -
  have "(f b, k, i) \<in> (\<lambda>(b, k). (f b, k, i)) ` B \<longleftrightarrow> (\<exists>(b', k') \<in> B. f b' = f b \<and> k' = k)" for b k
    by (auto simp: image_iff split_beta intro: bexI [rotated])
  then show ?thesis by simp
qed

lemma row_bands_id: "(b, k, i) \<in> row_bands r \<Longrightarrow> i = row_id r"
  unfolding row_bands_def by (elim imageE) (simp add: split_beta)

lemma enumerated_match:
  assumes "length xs = n" and "length ys = n" and "inj_on f {..<n}"
  shows "(\<exists>(b, k) \<in> set (enumerated xs). \<exists>(b', k') \<in> set (enumerated ys). f b' = f b \<and> k' = k)
    \<longleftrightarrow> (\<exists>i < n. xs ! i = ys ! i)"
proof
  assume "\<exists>(b, k) \<in> set (enumerated xs). \<exists>(b', k') \<in> set (enumerated ys). f b' = f b \<and> k' = k"
  then obtain i j where "i < n" "j < n" "f j = f i" "ys ! j = xs ! i"
    using assms(1,2) by (auto simp: set_enumerated)
  then show "\<exists>i < n. xs ! i = ys ! i" using assms(3) by (metis inj_onD lessThan_iff)
next
  assume "\<exists>i < n. xs ! i = ys ! i"
  then show "\<exists>(b, k) \<in> set (enumerated xs). \<exists>(b', k') \<in> set (enumerated ys). f b' = f b \<and> k' = k"
    using assms(1,2) by (fastforce simp: set_enumerated)
qed

lemma band_ids_iff:
  assumes inv: "db_inv enum db" and r: "r \<in> set (funcs db)" "row_where r"
    and x: "row_to_rec (row_select h r) = Inr x" and p: "wf_fp p"
  shows "row_id r \<in> set (band_ids db p) \<longleftrightarrow> shares_band p (rec_fp x)"
proof -
  have wf: "wf_fp (rec_fp x)" using wf_rec_row [OF r(2) x] by (simp add: wf_rec_def)
  have only: "r' = r" if "r' \<in> set (funcs db)" "row_id r' = row_id r" for r'
    using inv that r by (auto simp: db_inv_def distinct_map inj_on_def)
  have "(b', k, row_id r) \<in> set (bands db) \<longleftrightarrow> (b', k, row_id r) \<in> row_bands r" for b' k
  proof -
    have "set (bands db) = (\<Union>r \<in> set (funcs db). row_bands r)" using inv by (simp add: db_inv_def)
    moreover have "r' = r" if "r' \<in> set (funcs db)" "(b', k, row_id r) \<in> row_bands r'" for r'
      using that(1) row_bands_id [OF that(2)] only [of r'] by simp
    ultimately show ?thesis using r(1) by blast
  qed
  then have "row_id r \<in> set (band_ids db p) \<longleftrightarrow>
      (\<exists>(b, k) \<in> set (enumerated (band_keys BAND_ROWS p)). (of_nat b, k, row_id r) \<in> row_bands r)"
    by (simp only: set_band_ids)
  also have "\<dots> \<longleftrightarrow> (\<exists>(b, k) \<in> set (enumerated (band_keys BAND_ROWS p)).
        \<exists>(b', k') \<in> set (enumerated (band_keys BAND_ROWS (rec_fp x))). (of_nat b' :: u64) = of_nat b \<and> k' = k)"
    unfolding row_bands_def row_keys_rec [OF x] by (rule image_pairs)
  also have "\<dots> \<longleftrightarrow> (\<exists>i < 32. band_keys BAND_ROWS p ! i = band_keys BAND_ROWS (rec_fp x) ! i)"
    using p wf of_nat_band_inj by (intro enumerated_match) simp_all
  also have "\<dots> \<longleftrightarrow> shares_band p (rec_fp x)" using p wf by (simp add: shares_band_def)
  finally show ?thesis .
qed

lemma db_candidates_set:
  assumes inv: "db_inv enum db" and all: "db_all db = Inr rs" and p: "wf_fp p"
    and cs: "db_candidates enum db p = Inr cs"
  shows "x \<in> set cs \<longleftrightarrow> x \<in> set rs \<and> shares_band p (rec_fp x)"
proof -
  have en: "set (enum (band_ids db p)) = set (band_ids db p)" and dist: "distinct (map row_id (funcs db))" "\<forall>r \<in> set (funcs db). c_id r = CInt (row_id r)"
    using inv by (simp_all add: db_inv_def enum_ok_def)
  have "x \<in> set cs \<longleftrightarrow> (\<exists>r \<in> set (funcs db). row_where r \<and> row_id r \<in> set (band_ids db p)
      \<and> row_to_rec (row_select (has_callees db) r) = Inr x)"
    using cand_loop_set [OF dist cs [unfolded db_candidates_def]] en by simp
  also have "\<dots> \<longleftrightarrow> (\<exists>r \<in> set (funcs db). row_where r \<and> shares_band p (rec_fp x)
      \<and> row_to_rec (row_select (has_callees db) r) = Inr x)"
    using band_ids_iff [OF inv _ _ _ p] by blast
  also have "\<dots> \<longleftrightarrow> x \<in> set rs \<and> shares_band p (rec_fp x)"
    using mapR_Inr_set [OF db_all_spec(1) [OF all], of x] by auto
  finally show ?thesis .
qed

interpretation dbc: corpus db_all "db_candidates enum" "db_inv enum" for enum
proof
  fix db :: Db and rs p cs r
  assume inv: "db_inv enum db" and all: "db_all db = Inr rs"
  have "\<exists>x. row_to_rec (row_select (has_callees db) r) = Inr x"
    if "r \<in> set (funcs db)" "row_where r" for r
  proof -
    have "row_select (has_callees db) r \<in> set (map (row_select (has_callees db)) (filter row_where (funcs db)))"
      using that by simp
    then show ?thesis by (rule mapR_Inr_total [OF db_all_spec(1) [OF all]])
  qed
  then show "\<exists>cs. db_candidates enum db p = Inr cs"
    unfolding db_candidates_def by (rule cand_loop_total)
  show "wf_fp p \<Longrightarrow> db_candidates enum db p = Inr cs \<Longrightarrow> r \<in> set cs \<longleftrightarrow> r \<in> set rs \<and> shares_band p (rec_fp r)"
    using db_candidates_set [OF inv all] .
  show "r \<in> set rs \<Longrightarrow> wf_fp (rec_fp r)" using db_all_spec(4) [OF all] by (simp add: list_all_iff wf_rec_def)
qed

text \<open>Inserting keeps the band table in step with the rows, when sqlite hands out unused ids.\<close>

lemma row_bands_print: "row_bands (print_row bin p i) = set (print_bands p i)"
  by (simp add: row_bands_def row_keys_def print_bands_def band_keys_def BAND_ROWS_def) (simp add: print_row_def)

definition rowid_ok :: "(row list \<Rightarrow> u64) \<Rightarrow> bool" where
  "rowid_ok rowid \<longleftrightarrow> (\<forall>fs. length fs < 2 ^ 62 \<longrightarrow> rowid fs \<notin> row_id ` set fs)"

lemma print_rows_distinct:
  assumes "rowid_ok rowid" and "distinct (map row_id fs)" and "length fs + length ps < 2 ^ 62"
  shows "distinct (map row_id (fs @ print_rows rowid bin fs ps))"
  using assms(2,3)
proof (induction ps arbitrary: fs)
  case (Cons p ps)
  have "rowid fs \<notin> row_id ` set fs" using assms(1) Cons.prems by (simp add: rowid_ok_def)
  then have "distinct (map row_id ((fs @ [print_row bin p (rowid fs)]) @ print_rows rowid bin (fs @ [print_row bin p (rowid fs)]) ps))"
    using Cons.prems by (intro Cons.IH) simp_all
  then show ?case by (simp add: Let_def)
qed simp

lemma print_rows_ids: "r \<in> set (print_rows rowid bin fs ps) \<Longrightarrow> c_id r = CInt (row_id r)"
  by (induction ps arbitrary: fs) (auto simp: Let_def)

lemma batch_bands_rows:
  "set (batch_bands ps (print_rows rowid bin fs ps)) = (\<Union>r \<in> set (print_rows rowid bin fs ps). row_bands r)"
  by (induction ps arbitrary: fs) (simp_all add: batch_bands_def Let_def row_bands_print)

lemma insert_all_inv:
  assumes "db_inv enum db" and "rowid_ok rowid" and "length (funcs db) + length ps < 2 ^ 62"
    and "insert_all flt rowid bin ps db = (db', res)"
  shows "db_inv enum db'"
proof (cases res)
  case (Inl e)
  then show ?thesis using insert_all_cases [where flt = flt and rowid = rowid and bin = bin and ps = ps and db = db] assms by (simp add: db_inv_def)
next
  case (Inr n)
  then show ?thesis
    using insert_all_cases [where flt = flt and rowid = rowid and bin = bin and ps = ps and db = db] assms print_rows_distinct [OF assms(2)]
    by (auto simp: db_inv_def batch_bands_rows simp del: map_append distinct_map dest: print_rows_ids)
qed

section \<open>Properties\<close>

text \<open>A signature or callee list survives its encoding as a blob, a blob of whole words survives
  decoding, and decoding any blob at all gives exactly one word per eight bytes.\<close>

theorem sig_blob_roundtrip:
  "decode_sig (encode_sig vs) = vs \<and> length (encode_sig vs) = 8 * length vs
   \<and> length (decode_sig bs) = length bs div 8
   \<and> encode_sig (decode_sig (take (8 * (length bs div 8)) bs)) = take (8 * (length bs div 8)) bs"
proof (intro conjI)
  show "encode_sig (decode_sig (take (8 * (length bs div 8)) bs)) = take (8 * (length bs div 8)) bs"
    by (rule encode_decode) (simp add: min_absorb2)
qed (simp_all add: length_decode_sig)

text \<open>C9: A batch is all or nothing, whatever statements fail: on an error the tables are what they
  were, on success every print has its row, appended in order, and all its band entries; and
  without a failing statement the batch succeeds.\<close>

theorem insert_all_atomic:
  "(case insert_all flt rowid bin ps db of
     (db', Inl e) \<Rightarrow> funcs db' = funcs db \<and> bands db' = bands db
   | (db', Inr n) \<Rightarrow> n = length ps \<and> funcs db' = funcs db @ print_rows rowid bin (funcs db) ps
       \<and> bands db' = bands db @ batch_bands ps (print_rows rowid bin (funcs db) ps))
   \<and> (\<exists>db'. insert_all (\<lambda>_. False) rowid bin ps db = (db', Inr (length ps)))"
proof
  show "case insert_all flt rowid bin ps db of
     (db', Inl e) \<Rightarrow> funcs db' = funcs db \<and> bands db' = bands db
   | (db', Inr n) \<Rightarrow> n = length ps \<and> funcs db' = funcs db @ print_rows rowid bin (funcs db) ps
       \<and> bands db' = bands db @ batch_bands ps (print_rows rowid bin (funcs db) ps)"
    using insert_all_cases [where flt = flt and rowid = rowid and bin = bin and ps = ps and db = db]
    by (auto split: prod.splits sum.splits)
  show "\<exists>db'. insert_all (\<lambda>_. False) rowid bin ps db = (db', Inr (length ps))"
    using insert_loop_no_fault [of rowid bin ps "db\<lparr>stmts := stmts db + 1\<rparr>"]
    by (auto simp: insert_all_def exec_def)
qed

text \<open>What \<open>index -o\<close> writes into a fresh file is what a reader of the file gets back: every print,
  in order, with its name, entry, source, fingerprint and (capped) callees.\<close>

theorem insert_all_read_back:
  assumes "db_open None = (n, db)" and "insert_all flt rowid bin ps db = (db', Inr k)"
    and "list_all (wf_print bin) ps" and "length ps \<le> MAX_ROWS"
    and "(\<Sum>p\<leftarrow>ps. unat (print_bytes bin p)) \<le> unat MAX_TOTAL_BYTES"
  shows "\<exists>ids. length ids = length ps \<and> db_all db' = Inr (map2 (print_rec bin) ps ids)"
proof -
  let ?rows = "print_rows rowid bin [] ps"
  have db: "funcs db = []" "has_callees db" using assms(1) by (auto simp: db_open_def db_init_def)
  have db': "funcs db' = ?rows" "has_callees db'"
    using insert_all_cases [where flt = flt and rowid = rowid and bin = bin and ps = ps and db = db]
      assms(2) db by simp_all
  have "db_all db' = all_loop [] 0 ?rows"
    using db' print_rows_where [OF assms(3)] by (simp add: db_all_def)
  also have "\<dots> = Inr ([] @ map2 (print_rec bin) ps (map row_id ?rows))"
  proof (rule all_loop_ok)
    have "(\<Sum>y\<leftarrow>map2 (print_rec bin) ps (map row_id ?rows). unat (rec_bytes y))
        = (\<Sum>p\<leftarrow>ps. unat (print_bytes bin p))" by (rule rec_bytes_sum) simp
    then show "unat (0 :: u64) + (\<Sum>y\<leftarrow>map2 (print_rec bin) ps (map row_id ?rows). unat (rec_bytes y))
        \<le> unat MAX_TOTAL_BYTES" using assms(5) by (simp only: unsigned_0 add_0)
  qed (use print_rows_recs [OF assms(3)] print_recs_not_over [OF assms(3)] assms(4) in simp_all)
  finally show ?thesis by (intro exI [of _ "map row_id ?rows"]) simp
qed

text \<open>A print with a constant signature, stored with ids one above the largest.\<close>

definition const_print :: "u64 \<Rightarrow> FuncPrint" where
  "const_print c = \<lparr>fpr_name = Some ''f'', fpr_entry = 64, fpr_source = ''symbol'',
     fpr_fp = const_fp c, fpr_callees = [1, 2]\<rparr>"

definition next_id :: "row list \<Rightarrow> u64" where
  "next_id fs = (let used = map (unat \<circ> row_id) fs in of_nat (hd (filter (\<lambda>i. i \<notin> set used) [0..<length fs + 1])))"

lemma wf_const_print [simp]: "wf_print ''a.out'' (const_print c)"
  by (simp add: wf_print_def const_print_def utf8_valid_def MAX_TEXT_def)

theorem insert_all_read_back_witness:
  "\<exists>ids. length ids = length [const_print 5]
     \<and> db_all (fst (insert_all (\<lambda>_. False) next_id ''a.out'' [const_print 5] (snd (db_open None))))
       = Inr (map2 (print_rec ''a.out'') [const_print 5] ids)"
proof (rule insert_all_read_back)
  show "db_open None = (length EXPECTED_FUNCS_COLS, snd (db_open None))" by (simp add: db_open_def db_init_def)
  have "snd (insert_all (\<lambda>_. False) next_id ''a.out'' [const_print 5] (snd (db_open None))) = Inr 1"
    using insert_loop_no_fault [of next_id "''a.out''" "[const_print 5]" "(snd (db_open None))\<lparr>stmts := 1\<rparr>"]
    by (auto simp: insert_all_def exec_def db_open_def db_init_def)
  then show "insert_all (\<lambda>_. False) next_id ''a.out'' [const_print 5] (snd (db_open None))
      = (fst (insert_all (\<lambda>_. False) next_id ''a.out'' [const_print 5] (snd (db_open None))), Inr 1)"
    by (metis prod.collapse)
  show "(\<Sum>p\<leftarrow>[const_print 5]. unat (print_bytes ''a.out'' p)) \<le> unat MAX_TOTAL_BYTES"
    by (simp add: print_bytes_def rec_bytes_def print_rec_def const_print_def unat_sat_add64 opt_len_def
      MAX_CALLEES_def MAX_TOTAL_BYTES_def)
qed (simp_all add: MAX_ROWS_def)


definition one_row_db :: Db where
  "one_row_db = \<lparr>funcs = [print_row ''a.out'' (const_print 5) 1], bands = [], has_callees = True, stmts = 0\<rparr>"

lemma const_print_bytes: "print_bytes ''a.out'' (const_print c) = 1052"
proof -
  have "unat (print_bytes ''a.out'' (const_print c)) = unat (1052 :: u64)"
    by (simp add: print_bytes_def rec_bytes_def print_rec_def const_print_def unat_sat_add64 opt_len_def MAX_CALLEES_def)
  then show ?thesis by (rule unsigned_word_eqI)
qed

lemma one_row_db_all: "db_all one_row_db = Inr [print_rec ''a.out'' (const_print 5) 1]"
  by (simp add: db_all_def one_row_db_def wf_print_row Let_def const_print_bytes MAX_ROWS_def
    MAX_TOTAL_BYTES_def sat_add64_def)


text \<open>C26: The candidates of a print are exactly the readable records that share one of its 32 LSH
  bands, from sqlite's band table as from the index rebuilt in memory; neither misses a record
  more than 3/4 similar; and the index rebuilt from what a database reads back gives the
  same candidates as the database.\<close>

theorem candidates_are_band_sharers:
  assumes "db_inv enum db" and "db_all db = Inr rs" and "wf_fp p"
  shows "(\<exists>cs ms. db_candidates enum db p = Inr cs \<and> mem_candidates (from_records rs) p = Inr ms
    \<and> set cs = set ms \<and> set cs = {r \<in> set rs. shares_band p (rec_fp r)}
    \<and> {r \<in> set rs. Fin (3 / 4) < similarity p (rec_fp r)} \<subseteq> set cs)"
proof -
  obtain cs where cs: "db_candidates enum db p = Inr cs" using dbc.cands_total [OF assms] by blast
  have inv: "mem_inv (from_records rs)" and all: "mem_all (from_records rs) = Inr rs"
    using mem_inv_from_db [OF assms(2)] by (simp_all add: mem_all_def from_records_def)
  obtain ms where ms: "mem_candidates (from_records rs) p = Inr ms"
    using mem.cands_total [OF inv all assms(3)] by blast
  have "set cs = {r \<in> set rs. shares_band p (rec_fp r)}" using dbc.cands_iff [OF assms cs] by blast
  moreover have "set ms = {r \<in> set rs. shares_band p (rec_fp r)}"
    using mem.cands_iff [OF inv all assms(3) ms] by blast
  moreover have "{r \<in> set rs. Fin (3 / 4) < similarity p (rec_fp r)} \<subseteq> set cs"
    using dbc.cands_complete [OF assms cs] by blast
  ultimately show ?thesis using cs ms by blast
qed

lemma one_row_db_inv: "db_inv remdups (one_row_db\<lparr>bands := print_bands (const_print 5) 1\<rparr>)"
  by (simp add: db_inv_def enum_ok_def one_row_db_def row_bands_print)

theorem candidates_are_band_sharers_witness:
  "\<exists>cs ms. db_candidates remdups (one_row_db\<lparr>bands := print_bands (const_print 5) 1\<rparr>) (const_fp 5) = Inr cs
    \<and> mem_candidates (from_records [print_rec ''a.out'' (const_print 5) 1]) (const_fp 5) = Inr ms
    \<and> set cs = set ms \<and> set cs = {r \<in> set [print_rec ''a.out'' (const_print 5) 1]. shares_band (const_fp 5) (rec_fp r)}
    \<and> {r \<in> set [print_rec ''a.out'' (const_print 5) 1]. Fin (3 / 4) < similarity (const_fp 5) (rec_fp r)} \<subseteq> set cs"
  by (rule candidates_are_band_sharers [OF one_row_db_inv _ wf_const_fp])
    (use one_row_db_all in \<open>simp add: db_all_def\<close>)

text \<open>C27: The band table stays in step with the rows: a batch, whether it is committed or rolled back,
  keeps the invariant the candidate lookup relies on, as long as sqlite hands out unused ids.\<close>

theorem insert_all_keeps_bands:
  assumes "db_inv enum db" and "rowid_ok rowid" and "length (funcs db) + length ps < 2 ^ 62"
    and "insert_all flt rowid bin ps db = (db', res)"
  shows "db_inv enum db'"
  using insert_all_inv [OF assms] .

lemma rowid_ok_next_id: "rowid_ok next_id"
  unfolding rowid_ok_def
proof (intro allI impI)
  fix fs :: "row list" assume len: "length fs < 2 ^ 62"
  define free where "free = filter (\<lambda>i. i \<notin> set (map (unat \<circ> row_id) fs)) [0..<length fs + 1]"
  have "\<not> {..length fs} \<subseteq> set (map (unat \<circ> row_id) fs)"
  proof
    assume "{..length fs} \<subseteq> set (map (unat \<circ> row_id) fs)"
    then have "card {..length fs} \<le> card (set (map (unat \<circ> row_id) fs))" by (intro card_mono) simp_all
    also have "\<dots> \<le> length fs" using card_length [of "map (unat \<circ> row_id) fs"] by simp
    finally show False by simp
  qed
  then have "free \<noteq> []" unfolding free_def filter_empty_conv by (auto simp del: upt_Suc)
  then have hd: "hd free \<in> set free" by simp
  then have i: "hd free < length fs + 1" "hd free \<notin> set (map (unat \<circ> row_id) fs)"
    by (auto simp: free_def simp del: upt_Suc)
  then have "take_bit 64 (hd free) = hd free" using len by (intro take_bit_nat_eq_self) simp
  moreover have "next_id fs = of_nat (hd free)" by (simp only: next_id_def Let_def free_def)
  ultimately have "unat (next_id fs) = hd free" by (simp add: unsigned_of_nat)
  then show "next_id fs \<notin> row_id ` set fs" using i(2) by (auto simp: image_iff)
qed

theorem insert_all_keeps_bands_witness:
  "db_inv remdups (fst (insert_all (\<lambda>n. n = 9) next_id ''a.out'' [const_print 5, const_print 6]
     (one_row_db\<lparr>bands := print_bands (const_print 5) 1\<rparr>)))"
  by (rule insert_all_keeps_bands [OF one_row_db_inv rowid_ok_next_id _ prod.collapse [symmetric]])
    (simp add: one_row_db_def)

text \<open>An untrusted image is read only when \<open>funcs\<close> is an ordinary table whose columns are exactly
  the ten expected ones, or the nine of a pre-0.6 corpus, with the declared types and none hidden
  or generated; and the two shapes are told apart correctly.\<close>

theorem schema_accepts_exactly:
  "verify_funcs_schema kind cols = Inr hc \<longleftrightarrow>
   kind = Some ''table'' \<and> (hc \<longleftrightarrow> length cols = 10) \<and> length cols \<in> {9, 10}
   \<and> cols = map (\<lambda>(n, t). (n, t, 0)) (take (length cols) EXPECTED_FUNCS_COLS)"
proof -
  have len: "length EXPECTED_FUNCS_COLS = 10" "LEGACY_FUNCS_COLS = 9"
    by (simp_all add: EXPECTED_FUNCS_COLS_def LEGACY_FUNCS_COLS_def)
  have "check_cols cols es = Inr () \<longleftrightarrow> cols = map (\<lambda>(n, t). (n, t, 0)) (take (length cols) es)"
    if "length cols \<le> length es" for es
    using that by (induction cols es rule: check_cols.induct) (auto split: prod.splits)
  then have "check_cols cols EXPECTED_FUNCS_COLS = Inr ()
      \<longleftrightarrow> cols = map (\<lambda>(n, t). (n, t, 0)) (take (length cols) EXPECTED_FUNCS_COLS)" if "length cols \<le> 10"
    using that len by simp
  then show ?thesis
    by (auto simp: verify_funcs_schema_def len bindR_Inr split: option.splits)
qed

end
