(* ===== verification/Index.thy ===== *)
theory Index
  imports Runs Store
begin

text \<open>
  Indexing a binary (\<open>index_bytes_shard\<close>, \<open>index_to_db\<close> and \<open>dump_traces\<close> of \<open>crates/fnprint-core/src/lib.rs\<close>):
  the composition of the loader, the emulator, the static sweep and the fingerprint. The order of the parallel
  loop is the order of the list (\<open>rayon\<close>'s \<open>collect\<close> keeps it); that two runs do not disturb each other is
  what the emulation lock is for, so a run is a function of its inputs. \<open>None\<close> is a run that never ends or an
  arithmetic overflow that aborts.
\<close>

section \<open>One function\<close>

text \<open>The last function of a name wins.\<close>

definition local_by_name :: "Func list \<Rightarrow> string \<rightharpoonup> u64" where
  "local_by_name fs = map_of (rev (List.map_filter (\<lambda>f. map_option (\<lambda>n. (n, fn_entry f)) (fn_name f)) fs))"

definition shard :: "nat \<Rightarrow> nat \<Rightarrow> 'a list \<Rightarrow> 'a list" where
  "shard idx cnt xs = map snd (filter (\<lambda>(i, _). i mod cnt = idx) (enumerated xs))"

definition has_code :: "Image \<Rightarrow> Func \<Rightarrow> bool" where
  "has_code im f \<longleftrightarrow> 0 < fn_size f \<and> code_at im (fn_entry f) 1 \<noteq> None"

definition sym_calls :: "EffectTrace \<Rightarrow> string list" where
  "sym_calls t = List.map_filter (\<lambda>e. case e of Call (Sym n) \<Rightarrow> Some n | _ \<Rightarrow> None) (effects t)"

definition best_coverage :: "EffectTrace list \<Rightarrow> flt" where
  "best_coverage ts = foldl fmax (Fin 0) (map coverage ts)"

definition func_edges ::
  "(string \<rightharpoonup> u64) \<Rightarrow> Func \<Rightarrow> EffectTrace list \<Rightarrow> u64 list \<times> string list \<Rightarrow> u64 list" where
  "func_edges loc f ts sc =
     sort_dedup (filter (\<lambda>e. e \<noteq> fn_entry f)
       (fst sc @ concat (map callees ts) @ List.map_filter loc (snd sc @ concat (map sym_calls ts))))"

definition index_func ::
  "uworld \<Rightarrow> Config \<Rightarrow> Image \<Rightarrow> (u64 \<rightharpoonup> string) \<Rightarrow> (string \<rightharpoonup> u64) \<Rightarrow> Func \<Rightarrow> IndexedFunc option" where
  "index_func w cfg im imps loc f =
     Option.bind (run_explore w cfg im f imps SEEDS) (\<lambda>ts.
     map_option (\<lambda>sc. \<lparr>if_name = fn_name f, if_entry = fn_entry f, if_source = fn_source f, if_fp = from_traces ts,
                      if_coverage = best_coverage ts, if_callees = func_edges loc f ts sc\<rparr>)
       (static_calls (uw_all w) im f imps))"

section \<open>A binary\<close>

definition index_loaded :: "uworld \<Rightarrow> Config \<Rightarrow> Loaded \<Rightarrow> nat \<Rightarrow> nat \<Rightarrow> IndexedFunc list option" where
  "index_loaded w cfg l idx cnt =
     those (map (index_func w cfg (image l) (import_map l) (local_by_name (Loaded.funcs l)))
       (filter (has_code (image l)) (shard idx cnt (Loaded.funcs l))))"

text \<open>What loading a file gives is a parameter of indexing here: \<open>load parse walk\<close> of theory \<open>Loader\<close>.\<close>

definition index_bytes_shard ::
  "uworld \<Rightarrow> (u8 list \<Rightarrow> elf option) \<Rightarrow> eh_walker \<Rightarrow> u8 list \<Rightarrow> Config \<Rightarrow> nat \<Rightarrow> nat
    \<Rightarrow> (load_error + IndexedFunc list) option" where
  "index_bytes_shard w parse walk raw cfg idx cnt =
     (let cnt = max cnt 1; idx = min idx (cnt - 1) in
      case load parse walk raw of
        Inl e \<Rightarrow> Some (Inl e)
      | Inr l \<Rightarrow> map_option Inr (index_loaded w cfg l idx cnt))"

definition index_bytes ::
  "uworld \<Rightarrow> (u8 list \<Rightarrow> elf option) \<Rightarrow> eh_walker \<Rightarrow> u8 list \<Rightarrow> Config \<Rightarrow> (load_error + IndexedFunc list) option" where
  "index_bytes w parse walk raw cfg = index_bytes_shard w parse walk raw cfg 0 1"

definition to_print :: "IndexedFunc \<Rightarrow> FuncPrint" where
  "to_print f = \<lparr>fpr_name = if_name f, fpr_entry = if_entry f, fpr_source = source_str (if_source f), fpr_fp = if_fp f,
     fpr_callees = if_callees f\<rparr>"

definition index_to_db ::
  "uworld \<Rightarrow> (u8 list \<Rightarrow> elf option) \<Rightarrow> eh_walker \<Rightarrow> (nat \<Rightarrow> bool) \<Rightarrow> (row list \<Rightarrow> u64) \<Rightarrow> u8 list \<Rightarrow> string \<Rightarrow> Db \<Rightarrow> Config
    \<Rightarrow> (Db \<times> ((load_error + db_error) + nat)) option" where
  "index_to_db w parse walk flt rowid raw bin db cfg =
     map_option (\<lambda>r. case r of
         Inl e \<Rightarrow> (db, Inl (Inl e))
       | Inr fs \<Rightarrow> (case insert_all flt rowid bin (map to_print fs) db of
             (db', Inl e) \<Rightarrow> (db', Inl (Inr e))
           | (db', Inr n) \<Rightarrow> (db', Inr n)))
       (index_bytes w parse walk raw cfg)"

definition dump_traces ::
  "uworld \<Rightarrow> (u8 list \<Rightarrow> elf option) \<Rightarrow> eh_walker \<Rightarrow> u8 list \<Rightarrow> string \<Rightarrow> Config
    \<Rightarrow> (load_error option + EffectTrace list) option" where
  "dump_traces w parse walk raw name cfg =
     (case load parse walk raw of
        Inl e \<Rightarrow> Some (Inl (Some e))
      | Inr l \<Rightarrow>
          (case List.find (\<lambda>f. fn_name f = Some name) (Loaded.funcs l) of
             None \<Rightarrow> Some (Inl None)
           | Some f \<Rightarrow> map_option Inr (run_explore w cfg (image l) f (import_map l) SEEDS)))"

section \<open>What an indexed function holds\<close>

lemma those_Some_list_all2: "those (map f xs) = Some ys \<longleftrightarrow> list_all2 (\<lambda>x y. f x = Some y) xs ys"
proof (induction xs arbitrary: ys)
  case (Cons x xs)
  then show ?case by (cases ys) (auto split: option.splits)
qed (auto split: list.splits)

lemma fmax_unit:
  "flt_le (Fin 0) a \<Longrightarrow> flt_le a (Fin 1) \<Longrightarrow> flt_le (Fin 0) b \<Longrightarrow> flt_le b (Fin 1) \<Longrightarrow>
   flt_le (Fin 0) (fmax a b) \<and> flt_le (fmax a b) (Fin 1)"
  by (auto simp: fmax_def max_def flt_le_def)

lemma best_coverage_unit:
  "list_all (\<lambda>t. flt_le (Fin 0) (coverage t) \<and> flt_le (coverage t) (Fin 1)) ts \<Longrightarrow>
   flt_le (Fin 0) (best_coverage ts) \<and> flt_le (best_coverage ts) (Fin 1)"
proof -
  have "flt_le (Fin 0) c \<Longrightarrow> flt_le c (Fin 1) \<Longrightarrow> list_all (\<lambda>t. flt_le (Fin 0) (coverage t) \<and> flt_le (coverage t) (Fin 1)) ts \<Longrightarrow>
      flt_le (Fin 0) (foldl fmax c (map coverage ts)) \<and> flt_le (foldl fmax c (map coverage ts)) (Fin 1)" for c
  proof (induction ts arbitrary: c)
    case (Cons t ts)
    have "flt_le (Fin 0) (fmax c (coverage t)) \<and> flt_le (fmax c (coverage t)) (Fin 1)"
      using fmax_unit Cons.prems by simp
    then show ?case using Cons.IH [of "fmax c (coverage t)"] Cons.prems(3) by simp
  qed simp
  from this [of "Fin 0"] show "list_all (\<lambda>t. flt_le (Fin 0) (coverage t) \<and> flt_le (coverage t) (Fin 1)) ts \<Longrightarrow>
   flt_le (Fin 0) (best_coverage ts) \<and> flt_le (best_coverage ts) (Fin 1)"
    by (simp add: best_coverage_def flt_le_def)
qed

definition indexed_ok :: "IndexedFunc \<Rightarrow> bool" where
  "indexed_ok f \<longleftrightarrow> wf_fp (if_fp f) \<and> flt_le (Fin 0) (if_coverage f) \<and> flt_le (if_coverage f) (Fin 1)
     \<and> sorted (if_callees f) \<and> distinct (if_callees f) \<and> if_entry f \<notin> set (if_callees f)"

lemma index_func_ok:
  assumes "index_func w cfg im imps loc f = Some g"
  shows "indexed_ok g \<and> if_name g = fn_name f \<and> if_entry g = fn_entry f \<and> if_source g = fn_source f"
proof -
  obtain ts sc where ts: "run_explore w cfg im f imps SEEDS = Some ts"
    and g: "g = \<lparr>if_name = fn_name f, if_entry = fn_entry f, if_source = fn_source f, if_fp = from_traces ts,
       if_coverage = best_coverage ts, if_callees = func_edges loc f ts sc\<rparr>"
    using assms unfolding index_func_def by (cases "run_explore w cfg im f imps SEEDS") auto
  have "list_all (\<lambda>t. flt_le (Fin 0) (coverage t) \<and> flt_le (coverage t) (Fin 1)) ts"
    using explore_ok [OF ts] by (auto simp: list_all_iff trace_ok_def)
  from best_coverage_unit [OF this] show ?thesis
    by (simp add: g indexed_ok_def wf_fp_from_traces func_edges_def)
qed

section \<open>Shards\<close>

lemma mset_classes:
  "mset (concat (map (\<lambda>i. filter (\<lambda>x. g x = i) ys) [0..<n])) = mset (filter (\<lambda>x. g x < n) ys)"
proof (induction n)
  case (Suc n)
  have "mset (filter (\<lambda>x. g x < n) ys) + mset (filter (\<lambda>x. g x = n) ys) = mset (filter (\<lambda>x. g x < Suc n) ys)"
    by (induction ys) auto
  then show ?case using Suc by simp
qed simp

lemma shard_all: "shard 0 (Suc 0) xs = xs"
  by (simp add: shard_def enumerated_def)

lemma shards_mset: "0 < n \<Longrightarrow> mset (concat (map (\<lambda>i. shard i n xs) [0..<n])) = mset xs"
proof -
  assume n: "0 < n"
  have s: "shard i n xs = map snd (filter (\<lambda>p. fst p mod n = i) (enumerated xs))" for i
    by (simp add: shard_def case_prod_unfold)
  have "concat (map (\<lambda>i. shard i n xs) [0..<n]) = map snd (concat (map (\<lambda>i. filter (\<lambda>p. fst p mod n = i) (enumerated xs)) [0..<n]))"
    by (simp add: s map_concat comp_def)
  moreover have "mset (concat (map (\<lambda>i. filter (\<lambda>p. fst p mod n = i) (enumerated xs)) [0..<n])) = mset (enumerated xs)"
    using mset_classes [of "\<lambda>p. fst p mod n" "enumerated xs" n] n by simp
  ultimately have "mset (concat (map (\<lambda>i. shard i n xs) [0..<n])) = image_mset snd (mset (enumerated xs))"
    by (metis mset_map)
  also have "\<dots> = mset xs" by (simp add: enumerated_def flip: mset_map)
  finally show ?thesis .
qed

lemma shard_subset: "set (shard i n xs) \<subseteq> set xs"
  by (auto simp: shard_def set_enumerated)

lemma those_map: "those (map f xs) = (if \<forall>x\<in>set xs. f x \<noteq> None then Some (map (\<lambda>x. the (f x)) xs) else None)"
  by (induction xs) (auto split: option.split)

text \<open>The shards of a binary that indexes at all index too, and together hold its functions.\<close>

lemma index_loaded_shards:
  assumes "index_loaded w cfg l 0 1 = Some fs" and "0 < n"
  shows "\<exists>gss. (\<forall>i<n. index_loaded w cfg l i n = Some (gss i)) \<and> mset (concat (map gss [0..<n])) = mset fs"
proof -
  let ?f = "index_func w cfg (image l) (import_map l) (local_by_name (Loaded.funcs l))"
  let ?hc = "has_code (image l)" and ?g = "\<lambda>x. the (?f x)"
  have all: "\<forall>x\<in>set (filter ?hc (Loaded.funcs l)). ?f x \<noteq> None" and fs: "fs = map ?g (filter ?hc (Loaded.funcs l))"
    using assms(1) by (simp_all add: index_loaded_def shard_all those_map split: if_splits)
  let ?gss = "\<lambda>i. map ?g (filter ?hc (shard i n (Loaded.funcs l)))"
  have "index_loaded w cfg l i n = Some (?gss i)" for i
    using all shard_subset [of i n "Loaded.funcs l"] by (auto simp: index_loaded_def those_map)
  moreover have "mset (concat (map ?gss [0..<n])) = mset fs"
  proof -
    have "concat (map ?gss [0..<n]) = map ?g (filter ?hc (concat (map (\<lambda>i. shard i n (Loaded.funcs l)) [0..<n])))"
      by (simp add: map_concat filter_concat comp_def)
    then show ?thesis using shards_mset [OF assms(2), of "Loaded.funcs l"] by (simp add: fs)
  qed
  ultimately show ?thesis by (intro exI [of _ ?gss]) simp
qed

lemma index_shard_in_range:
  "load parse walk raw = Inr l \<Longrightarrow> i < n \<Longrightarrow>
   index_bytes_shard w parse walk raw cfg i n = map_option Inr (index_loaded w cfg l i n)"
proof -
  assume "load parse walk raw = Inr l" "i < n"
  moreover from \<open>i < n\<close> have "max n 1 = n" "min i (n - 1) = i" by auto
  ultimately show ?thesis by (simp add: index_bytes_shard_def)
qed

lemma index_shard_subset:
  assumes "index_bytes w parse walk raw cfg = Some (Inr fs)" and "index_bytes_shard w parse walk raw cfg i n = Some (Inr gs)"
  shows "set gs \<subseteq> set fs \<and> length gs \<le> length fs"
proof -
  let ?n = "max n 1" and ?i = "min i (max n 1 - 1)"
  obtain l where l: "load parse walk raw = Inr l" and f: "index_loaded w cfg l 0 1 = Some fs" and g: "index_loaded w cfg l ?i ?n = Some gs"
    using assms by (auto simp: index_bytes_def index_bytes_shard_def Let_def split: sum.splits)
  have pos: "0 < ?n" by simp
  then have i: "?i < ?n" by linarith
  obtain gss where gss: "\<And>j. j < ?n \<Longrightarrow> index_loaded w cfg l j ?n = Some (gss j)" and m: "mset (concat (map gss [0..<?n])) = mset fs"
    using index_loaded_shards [OF f pos] by blast
  have "gss ?i = gs" using gss [OF i] g by simp
  moreover have "set (gss ?i) \<subseteq> set (concat (map gss [0..<?n]))" using i by auto
  moreover have "length (gss ?i) \<le> length (concat (map gss [0..<?n]))"
  proof -
    have "length (gss ?i) \<in> set (map length (map gss [0..<?n]))" using i by (auto intro!: image_eqI)
    then show ?thesis unfolding length_concat by (rule member_le_sum_list) simp
  qed
  ultimately show ?thesis using m mset_eq_setD mset_eq_length by metis
qed

lemma index_loaded_entries:
  assumes "index_loaded w cfg l 0 1 = Some fs"
  shows "map if_entry fs = map fn_entry (filter (has_code (image l)) (Loaded.funcs l)) \<and> list_all indexed_ok fs"
proof -
  have "list_all2 (\<lambda>x y. index_func w cfg (image l) (import_map l) (local_by_name (Loaded.funcs l)) x = Some y)
      (filter (has_code (image l)) (Loaded.funcs l)) fs"
    using assms by (simp add: index_loaded_def shard_all those_Some_list_all2)
  then show ?thesis
    by (induction rule: list_all2_induct) (simp_all add: index_func_ok)
qed

lemma index_bytes_ok:
  assumes "index_bytes w parse walk raw cfg = Some (Inr fs)"
  shows "\<exists>e l. parse raw = Some e \<and> load parse walk raw = Inr l
    \<and> map if_entry fs = map fn_entry (filter (has_code (image l)) (Loaded.funcs l))
    \<and> sorted_wrt (<) (map if_entry fs) \<and> list_all indexed_ok fs"
proof -
  obtain l where l: "load parse walk raw = Inr l" and i: "index_loaded w cfg l 0 1 = Some fs"
    using assms by (auto simp: index_bytes_def index_bytes_shard_def Let_def split: sum.splits)
  then obtain e where e: "parse raw = Some e" by (cases "parse raw") (auto simp: load_def)
  have "sorted_wrt (<) (map fn_entry (Loaded.funcs l))"
    using load_sorted [OF e l] by (simp add: strict_sorted_iff)
  then have "sorted_wrt (<) (map fn_entry (filter (has_code (image l)) (Loaded.funcs l)))"
    by (simp add: sorted_wrt_map sorted_wrt_filter)
  then show ?thesis using e l index_loaded_entries [OF i] by metis
qed

text \<open>Indexing comes back: on an engine that stops when asked, for a file whose functions end below the top of
  the address space.\<close>

lemma index_func_total:
  assumes "\<And>su. stops_within L (uw_engine w su)" and "instr_cap cfg < u64_max"
    and "unat (fn_entry f) + unat (fn_size f) \<le> 2 ^ 64"
  shows "index_func w cfg im imps loc f \<noteq> None"
proof -
  obtain ts where "run_explore w cfg im f imps SEEDS = Some ts" using explore_total [OF assms] by blast
  moreover obtain sc where "static_calls (uw_all w) im f imps = Some sc" using static_calls_total [OF assms(3)] by blast
  ultimately show ?thesis by (simp add: index_func_def)
qed

text \<open>No discovered function runs past the top of the address space.\<close>

definition bodies_fit :: "(u8 list \<Rightarrow> elf option) \<Rightarrow> eh_walker \<Rightarrow> u8 list \<Rightarrow> bool" where
  "bodies_fit parse walk raw \<longleftrightarrow>
     (case load parse walk raw of
        Inl _ \<Rightarrow> True
      | Inr l \<Rightarrow> list_all (\<lambda>f. unat (fn_entry f) + unat (fn_size f) \<le> 2 ^ 64) (Loaded.funcs l))"

lemma bodies_fitD:
  "bodies_fit parse walk raw \<Longrightarrow> load parse walk raw = Inr l \<Longrightarrow> f \<in> set (Loaded.funcs l) \<Longrightarrow>
   unat (fn_entry f) + unat (fn_size f) \<le> 2 ^ 64"
  by (simp add: bodies_fit_def list_all_iff)

lemma index_shard_total:
  assumes "\<And>su. stops_within L (uw_engine w su)" and "instr_cap cfg < u64_max"
    and "bodies_fit parse walk raw"
  shows "\<exists>r. index_bytes_shard w parse walk raw cfg i n = Some r"
proof (cases "load parse walk raw")
  case (Inl e)
  then show ?thesis by (simp add: index_bytes_shard_def Let_def)
next
  case (Inr l)
  have "index_func w cfg im imps loc f \<noteq> None" if "f \<in> set (shard k m (Loaded.funcs l))" for im imps loc f k m
    using that shard_subset [of k m "Loaded.funcs l"] by (intro index_func_total [OF assms(1,2)] bodies_fitD [OF assms(3) Inr]) blast
  then show ?thesis using Inr by (simp add: index_bytes_shard_def Let_def index_loaded_def those_map)
qed

lemma dump_traces_total:
  assumes "\<And>su. stops_within L (uw_engine w su)" and "instr_cap cfg < u64_max"
    and "bodies_fit parse walk raw"
  shows "\<exists>r. dump_traces w parse walk raw name cfg = Some r"
proof -
  have "\<exists>ts. run_explore w cfg (image l) f (import_map l) SEEDS = Some ts"
    if "load parse walk raw = Inr l" "List.find P (Loaded.funcs l) = Some f" for l f P
  proof -
    have "f \<in> set (Loaded.funcs l)" using that(2) by (auto simp: find_Some_iff)
    then show ?thesis using explore_total [OF assms(1,2) bodies_fitD [OF assms(3) that(1)]] by blast
  qed
  then show ?thesis by (fastforce simp: dump_traces_def split: sum.split option.split)
qed

lemma tiny_fits: "bodies_fit (\<lambda>_. Some tiny_elf) tiny_walk tiny_raw"
proof -
  obtain l where l: "load (\<lambda>_. Some tiny_elf) tiny_walk tiny_raw = Inr l" and fs: "set (Loaded.funcs l) \<subseteq> set (discover tiny_walk tiny_elf tiny_raw)"
    using tiny_loads by blast
  then show ?thesis using tiny_discover by (auto simp: bodies_fit_def list_all_iff)
qed

lemma tiny_indexes:
  "\<exists>fs. index_bytes ret_world (\<lambda>_. Some tiny_elf) tiny_walk tiny_raw default_config = Some (Inr fs)"
proof -
  have "\<exists>r. index_bytes_shard ret_world (\<lambda>_. Some tiny_elf) tiny_walk tiny_raw default_config 0 1 = Some r"
  proof (rule index_shard_total [where L = 0, OF _ _ tiny_fits])
    show "stops_within 0 (uw_engine ret_world su)" for su by (simp add: ret_world_def ret_engine_stops)
    show "instr_cap default_config < u64_max" by (simp add: default_config_def word_less_nat_alt)
  qed
  then show ?thesis using tiny_loads by (auto simp: index_bytes_def index_bytes_shard_def Let_def split: sum.splits option.splits)
qed

text \<open>C18: An index holds the discovered functions that have code, one per address and in address order; each has a
  full fingerprint, a coverage in the unit interval, and call edges sorted, without duplicates and without itself.\<close>

theorem index_functions:
  assumes "index_bytes w parse walk raw cfg = Some (Inr fs)"
  shows "\<exists>e l. parse raw = Some e \<and> load parse walk raw = Inr l
    \<and> map if_entry fs = map fn_entry (filter (has_code (image l)) (Loaded.funcs l))
    \<and> sorted_wrt (<) (map if_entry fs) \<and> list_all indexed_ok fs"
  using assms by (rule index_bytes_ok)

theorem index_functions_witness:
  "\<exists>fs. index_bytes ret_world (\<lambda>_. Some tiny_elf) tiny_walk tiny_raw default_config = Some (Inr fs) \<and> list_all indexed_ok fs"
proof -
  obtain fs where "index_bytes ret_world (\<lambda>_. Some tiny_elf) tiny_walk tiny_raw default_config = Some (Inr fs)"
    using tiny_indexes by blast
  with index_functions [OF this] show ?thesis by blast
qed

end
