(* ===== verification/Sandbox.thy ===== *)
theory Sandbox
  imports Prelude
begin

text \<open>
  The worker's jail (\<open>crates/fnprint-sandbox/src/lib.rs\<close>): the syscall sets, the three seccomp filters and
  what the kernel makes of them, the resource limits, and the order in which the jail is put up, with
  every step that may fail.

  System call numbers come from the \<open>libc\<close> crate: they are a parameter \<open>nr\<close>, from the names of the
  \<open>SYS_\<close> constants to numbers. A filter is what \<open>seccompiler\<close> documents: a map from numbers to rules (none: match
  always), a matched action, a default action, and a kill for any other architecture. The kernel runs every
  installed filter and takes the most severe action, the latest filter's on a tie.
\<close>

section \<open>Filters\<close>

datatype action = Allow | Errno nat | KillProcess

text \<open>\<open>SeccompCondition::new(arg, Dword, MaskedEq(mask), value)\<close>: the low 32 bits of an argument.\<close>

record condition =
  cond_arg :: nat
  cond_mask :: u64
  cond_value :: u64

type_synonym rule = "condition list"

record filter =
  rules :: "u32 \<rightharpoonup> rule list"
  matched :: action
  default_action :: action

text \<open>What a filter sees of a system call.\<close>

record sys_call =
  native_arch :: bool
  sys_nr :: u32
  sys_args :: "u64 list"

definition cond_holds :: "sys_call \<Rightarrow> condition \<Rightarrow> bool" where
  "cond_holds c k =
     (((sys_args c ! cond_arg k) AND 0xFFFFFFFF AND cond_mask k) = cond_value k)"

definition run_filter :: "filter \<Rightarrow> sys_call \<Rightarrow> action" where
  "run_filter f c =
     (if \<not> native_arch c then KillProcess
      else case rules f (sys_nr c) of
        None \<Rightarrow> default_action f
      | Some [] \<Rightarrow> matched f
      | Some rs \<Rightarrow> if list_ex (list_all (cond_holds c)) rs then matched f else default_action f)"

fun severity :: "action \<Rightarrow> nat" where
  "severity Allow = 0"
| "severity (Errno _) = 1"
| "severity KillProcess = 2"

text \<open>The kernel's verdict: filters oldest first.\<close>

definition kernel :: "filter list \<Rightarrow> sys_call \<Rightarrow> action" where
  "kernel fs c = foldl (\<lambda>a f. let b = run_filter f c in if severity a \<le> severity b then b else a) Allow fs"

section \<open>The sets\<close>

definition allowed_syscalls :: "string list" where
  "allowed_syscalls =
    [
     ''read'', ''write'', ''readv'', ''writev'', ''close'', ''lseek'', ''munmap'', ''mremap'',
     ''madvise'', ''brk'', ''futex'', ''clone3'', ''set_robust_list'', ''get_robust_list'',
     ''rseq'', ''set_tid_address'', ''sched_yield'', ''sched_getaffinity'', ''getrandom'',
     ''clock_gettime'', ''clock_nanosleep'', ''nanosleep'', ''rt_sigaction'',
     ''rt_sigprocmask'', ''rt_sigreturn'', ''rt_sigtimedwait'', ''sigaltstack'', ''getpid'',
     ''gettid'', ''exit'', ''exit_group'', ''restart_syscall'', ''prctl'', ''membarrier'']"

definition X32_BIT :: u32 where "X32_BIT = 0x40000000"

definition X32_DEDICATED :: "u32 list" where
  "X32_DEDICATED = [520, 545, 521, 539, 540, 518, 538, 517, 519, 537, 528]"

definition kill_names :: "string list" where
  "kill_names =
    [
     ''execve'', ''execveat'', ''ptrace'', ''process_vm_readv'', ''process_vm_writev'',
     ''socket'', ''socketpair'', ''connect'', ''accept'', ''accept4'', ''bind'', ''listen'',
     ''sendto'', ''sendmsg'', ''sendmmsg'', ''recvfrom'', ''recvmsg'', ''recvmmsg'',
     ''init_module'', ''finit_module'', ''delete_module'', ''kexec_load'', ''kexec_file_load'',
     ''bpf'', ''perf_event_open'', ''mount'', ''umount2'', ''chroot'', ''pivot_root'',
     ''unshare'', ''setns'', ''setuid'', ''setgid'', ''setreuid'', ''setregid'', ''setresuid'',
     ''setresgid'', ''setfsuid'', ''setfsgid'', ''setgroups'', ''add_key'', ''keyctl'',
     ''request_key'', ''open_by_handle_at'', ''reboot'', ''swapon'', ''swapoff'', ''iopl'',
     ''ioperm'', ''io_uring_setup'', ''io_uring_enter'', ''io_uring_register'', ''userfaultfd'',
     ''pidfd_getfd'']"

definition kill_syscalls :: "(string \<Rightarrow> u32) \<Rightarrow> u32 list" where
  "kill_syscalls nr =
     (let native = map nr kill_names @ [428, 429, 430, 431, 432, 433]
      in native @ map (\<lambda>n. n OR X32_BIT) native @ map (\<lambda>n. n OR X32_BIT) X32_DEDICATED)"

definition CLONE_NEW_MASK :: u64 where "CLONE_NEW_MASK = 0x7E020000"
definition PROT_EXEC :: u64 where "PROT_EXEC = 4"

definition clone_flag_rule :: rule where
  "clone_flag_rule = [\<lparr>cond_arg = 0, cond_mask = CLONE_NEW_MASK, cond_value = 0\<rparr>]"

definition prot_no_exec_rule :: rule where
  "prot_no_exec_rule = [\<lparr>cond_arg = 2, cond_mask = PROT_EXEC, cond_value = 0\<rparr>]"

definition build_filter :: "u32 list \<Rightarrow> action \<Rightarrow> action \<Rightarrow> filter" where
  "build_filter nrs m d =
     \<lparr>rules = (\<lambda>n. if n \<in> set nrs then Some [] else None), matched = m, default_action = d\<rparr>"

definition build_allow_filter :: "(string \<Rightarrow> u32) \<Rightarrow> action \<Rightarrow> filter" where
  "build_allow_filter nr d =
     \<lparr>rules = (\<lambda>n. if n \<in> set (map nr allowed_syscalls) then Some [] else None)
        (nr ''clone'' \<mapsto> [clone_flag_rule], nr ''mmap'' \<mapsto> [prot_no_exec_rule],
         nr ''mprotect'' \<mapsto> [prot_no_exec_rule]),
      matched = Allow, default_action = d\<rparr>"

definition build_clone3_enosys_filter :: "(string \<Rightarrow> u32) \<Rightarrow> filter" where
  "build_clone3_enosys_filter nr =
     \<lparr>rules = [nr ''clone3'' \<mapsto> []], matched = Errno 38, default_action = Allow\<rparr>"

section \<open>Limits\<close>

definition CPU_BACKSTOP_WALL_SECS :: u64 where "CPU_BACKSTOP_WALL_SECS = 120"
definition GIB :: u64 where "GIB = 2 ^ 30"
definition CPU_THREAD_CLAMP :: u64 where "CPU_THREAD_CLAMP = 16"

text \<open>\<open>available_parallelism()\<close> is \<open>threads\<close>, \<open>None\<close> when the system does not say.\<close>

definition threads_or_8 :: "u64 option \<Rightarrow> u64" where
  "threads_or_8 t = (case t of Some n \<Rightarrow> n | None \<Rightarrow> 8)"

definition cpu_time_cap :: "u64 option \<Rightarrow> u64" where
  "cpu_time_cap t = sat_mul64 CPU_BACKSTOP_WALL_SECS (min (threads_or_8 t) CPU_THREAD_CLAMP)"

definition addr_space_cap :: "u64 option \<Rightarrow> u64" where
  "addr_space_cap t = sat_add64 (sat_mul64 (threads_or_8 t) (2 * GIB)) (8 * GIB)"

text \<open>The caps never wrap: 120 seconds per core, at most 16 cores counted; two GiB per core and eight more, saturating.\<close>

lemma limits_bounds:
  "unat (cpu_time_cap t) = 120 * min (unat (threads_or_8 t)) 16
   \<and> unat (addr_space_cap t) = min (unat (threads_or_8 t) * 2 ^ 31 + 2 ^ 33) (2 ^ 64 - 1)"
proof -
  have u: "unat CPU_BACKSTOP_WALL_SECS = 120" "unat CPU_THREAD_CLAMP = 16" "unat (2 * GIB) = 2 ^ 31" "unat (8 * GIB) = 2 ^ 33"
    by (simp_all add: CPU_BACKSTOP_WALL_SECS_def CPU_THREAD_CLAMP_def GIB_def)
  have "unat (min a b) = min (unat a) (unat b)" for a b :: u64
    by (simp add: min_def word_le_nat_alt)
  then show ?thesis
    by (auto simp: cpu_time_cap_def addr_space_cap_def unat_sat_mul64 unat_sat_add64 u)
qed

section \<open>Putting up the jail\<close>

datatype resource = RCore | RAs | RCpu | RNofile

text \<open>The calls that may fail, and the state of the process they change.\<close>

datatype op = OpReadMaps | OpSetrlimit resource | OpNoNewPrivs | OpSeccomp nat | OpCloseRange | OpPdeathsig

record proc =
  limits :: "resource \<rightharpoonup> u64"
  no_new_privs :: bool
  installed :: "filter list"
  fds :: "nat list"
  pdeathsig :: bool

datatype jail_error = OpFailed op | WxMapping string | NoParent | ParentIsInit

text \<open>The world the worker finds: its memory map, core count, parent, and the calls that fail.\<close>

record world =
  maps_lines :: "string list"
  threads :: "u64 option"
  parent_pid :: "nat option"
  failing :: "op \<Rightarrow> bool"

type_synonym jail_result = "proc \<times> (jail_error + unit)"

definition then_do :: "jail_result \<Rightarrow> (proc \<Rightarrow> jail_result) \<Rightarrow> jail_result" where
  "then_do m f = (case m of (p, Inl e) \<Rightarrow> (p, Inl e) | (p, Inr _) \<Rightarrow> f p)"

definition attempt :: "world \<Rightarrow> op \<Rightarrow> (proc \<Rightarrow> proc) \<Rightarrow> proc \<Rightarrow> jail_result" where
  "attempt w x f p = (if failing w x then (p, Inl (OpFailed x)) else (f p, Inr ()))"

definition set_rlimits :: "world \<Rightarrow> proc \<Rightarrow> jail_result" where
  "set_rlimits w p =
     then_do (attempt w (OpSetrlimit RCore) (\<lambda>p. p\<lparr>limits := (limits p)(RCore \<mapsto> 0)\<rparr>) p) (\<lambda>p.
     then_do (attempt w (OpSetrlimit RAs) (\<lambda>p. p\<lparr>limits := (limits p)(RAs \<mapsto> addr_space_cap (threads w))\<rparr>) p) (\<lambda>p.
     then_do (attempt w (OpSetrlimit RCpu) (\<lambda>p. p\<lparr>limits := (limits p)(RCpu \<mapsto> cpu_time_cap (threads w))\<rparr>) p) (\<lambda>p.
     attempt w (OpSetrlimit RNofile) (\<lambda>p. p\<lparr>limits := (limits p)(RNofile \<mapsto> 64)\<rparr>) p)))"

text \<open>Installing a filter is itself a \<open>seccomp\<close> call, so the filters already there must allow it.\<close>

definition seccomp_call :: "(string \<Rightarrow> u32) \<Rightarrow> sys_call" where
  "seccomp_call nr = \<lparr>native_arch = True, sys_nr = nr ''seccomp'', sys_args = replicate 6 0\<rparr>"

definition apply_filter :: "(string \<Rightarrow> u32) \<Rightarrow> world \<Rightarrow> nat \<Rightarrow> filter \<Rightarrow> proc \<Rightarrow> jail_result" where
  "apply_filter nr w k f p =
     (if failing w (OpSeccomp k) \<or> kernel (installed p) (seccomp_call nr) \<noteq> Allow
      then (p, Inl (OpFailed (OpSeccomp k)))
      else (p\<lparr>installed := installed p @ [f]\<rparr>, Inr ()))"

definition install_seccomp :: "(string \<Rightarrow> u32) \<Rightarrow> world \<Rightarrow> proc \<Rightarrow> jail_result" where
  "install_seccomp nr w p =
     (let al = build_allow_filter nr (Errno 1);
          kill = build_filter (kill_syscalls nr) KillProcess Allow;
          clone3 = build_clone3_enosys_filter nr
      in then_do (apply_filter nr w 0 clone3 p) (\<lambda>p.
         then_do (apply_filter nr w 1 kill p) (\<lambda>p.
         apply_filter nr w 2 al p)))"

text \<open>\<open>split_whitespace\<close> of an ASCII line.\<close>

definition ascii_space :: "char \<Rightarrow> bool" where
  "ascii_space c \<longleftrightarrow> (let n = of_char c :: nat in (9 \<le> n \<and> n \<le> 13) \<or> n = 32)"

fun split_whitespace :: "string \<Rightarrow> string \<Rightarrow> string list" where
  "split_whitespace w [] = (if w = [] then [] else [w])"
| "split_whitespace w (c # cs) =
     (if ascii_space c then (if w = [] then split_whitespace [] cs else w # split_whitespace [] cs)
      else split_whitespace (w @ [c]) cs)"

definition wx_line :: "string \<Rightarrow> bool" where
  "wx_line line =
     (let ws = split_whitespace [] line
      in 2 \<le> length ws \<and> 3 \<le> length (ws ! 1) \<and> ws ! 1 ! 1 = CHR ''w'' \<and> ws ! 1 ! 2 = CHR ''x'')"

definition assert_no_wx_mappings :: "world \<Rightarrow> proc \<Rightarrow> jail_result" where
  "assert_no_wx_mappings w p =
     then_do (attempt w OpReadMaps (\<lambda>p. p) p) (\<lambda>p.
       case List.find wx_line (maps_lines w) of
         Some line \<Rightarrow> (p, Inl (WxMapping line))
       | None \<Rightarrow> (p, Inr ()))"

definition close_inherited_fds :: "world \<Rightarrow> proc \<Rightarrow> jail_result" where
  "close_inherited_fds w p = attempt w OpCloseRange (\<lambda>p. p\<lparr>fds := List.filter (\<lambda>fd. fd < 3) (fds p)\<rparr>) p"

definition harden_worker_preinput :: "world \<Rightarrow> proc \<Rightarrow> jail_result" where
  "harden_worker_preinput w p =
     then_do (close_inherited_fds w p) (\<lambda>p.
     then_do (attempt w OpPdeathsig (\<lambda>p. p\<lparr>pdeathsig := True\<rparr>) p) (\<lambda>p.
       case parent_pid w of
         None \<Rightarrow> (p, Inl NoParent)
       | Some pid \<Rightarrow> if pid = 1 then (p, Inl ParentIsInit) else (p, Inr ())))"

definition lock_down_worker :: "(string \<Rightarrow> u32) \<Rightarrow> world \<Rightarrow> proc \<Rightarrow> jail_result" where
  "lock_down_worker nr w p =
     then_do (assert_no_wx_mappings w p) (\<lambda>p.
     then_do (set_rlimits w p) (\<lambda>p.
     then_do (attempt w OpNoNewPrivs (\<lambda>p. p\<lparr>no_new_privs := True\<rparr>) p) (\<lambda>p.
     install_seccomp nr w p)))"

section \<open>The x86-64 numbers\<close>

text \<open>What the program relies on of \<open>nr\<close>: distinct numbers for distinct names, without the x32 bit, and none
  of them one of the raw numbers of the new mount calls.\<close>

definition used_names :: "string list" where
  "used_names = allowed_syscalls @ [''clone'', ''mmap'', ''mprotect'', ''seccomp''] @ kill_names"

definition abi_ok :: "(string \<Rightarrow> u32) \<Rightarrow> bool" where
  "abi_ok nr \<longleftrightarrow> distinct (map nr used_names)
     \<and> list_all (\<lambda>s. nr s < X32_BIT \<and> nr s \<notin> {428, 429, 430, 431, 432, 433}) used_names"

text \<open>The numbers of the Linux x86-64 ABI, an instance.\<close>

definition x86_64_numbers :: "int list" where
  "x86_64_numbers =
    [
    0, 1, 19, 20, 3, 8, 11, 25, 28, 12, 202, 435, 273, 274, 334, 218, 24, 204, 318, 228, 230, 35,
    13, 14, 15, 128, 131, 39, 186, 60, 231, 219, 157, 324, 56, 9, 10, 317, 59, 322, 101, 310, 311,
    41, 53, 42, 43, 288, 49, 50, 44, 46, 307, 45, 47, 299, 175, 313, 176, 246, 320, 321, 298, 165,
    166, 161, 155, 272, 308, 105, 106, 113, 114, 117, 119, 122, 123, 116, 248, 250, 249, 304, 169,
    167, 168, 172, 173, 425, 426, 427, 323, 438]"

definition x86_64_entry :: "string \<Rightarrow> int" where
  "x86_64_entry s = (case map_of (zip used_names x86_64_numbers) s of Some n \<Rightarrow> n | None \<Rightarrow> 0)"

definition x86_64_nr :: "string \<Rightarrow> u32" where
  "x86_64_nr s = word_of_int (x86_64_entry s)"

fun spelled :: "string \<Rightarrow> int" where
  "spelled [] = 0"
| "spelled (c # cs) = of_char c + 256 * spelled cs"

lemma used_names_distinct: "distinct used_names"
proof -
  have "distinct (map spelled used_names)"
    by (simp add: used_names_def allowed_syscalls_def kill_names_def)
  then show ?thesis by (simp add: distinct_map)
qed

lemma x86_64_entries: "map x86_64_entry used_names = x86_64_numbers"
proof (rule nth_equalityI)
  have l: "length used_names = length x86_64_numbers"
    by (simp add: used_names_def allowed_syscalls_def kill_names_def x86_64_numbers_def)
  then show "length (map x86_64_entry used_names) = length x86_64_numbers" by simp
  fix i assume "i < length (map x86_64_entry used_names)"
  then show "map x86_64_entry used_names ! i = x86_64_numbers ! i"
    using l used_names_distinct by (simp add: x86_64_entry_def map_of_zip_nth)
qed

lemma abi_ok_x86_64: "abi_ok x86_64_nr"
proof -
  have d: "distinct (map x86_64_entry used_names)" by (simp add: x86_64_entries x86_64_numbers_def)
  have "list_all (\<lambda>n. 0 \<le> n \<and> n < 1000 \<and> n \<notin> {428, 429, 430, 431, 432, 433}) (map x86_64_entry used_names)"
    by (simp add: x86_64_entries x86_64_numbers_def)
  then have b: "0 \<le> x86_64_entry s \<and> x86_64_entry s < 1000 \<and> x86_64_entry s \<notin> {428, 429, 430, 431, 432, 433}"
    if "s \<in> set used_names" for s using that by (simp add: list_all_iff)
  have u: "uint (x86_64_nr s) = x86_64_entry s" if "s \<in> set used_names" for s
    using b [OF that] by (simp add: x86_64_nr_def unsigned_of_int take_bit_int_eq_self)
  have "inj_on x86_64_nr (set used_names)"
    using d u by (metis distinct_map inj_on_def)
  moreover have "x86_64_nr s < X32_BIT \<and> x86_64_nr s \<notin> {428, 429, 430, 431, 432, 433}"
    if "s \<in> set used_names" for s
    using b [OF that] u [OF that] by (auto simp: word_less_def X32_BIT_def word_uint_eq_iff)
  ultimately show ?thesis
    using d by (simp add: abi_ok_def list_all_iff distinct_map)
qed

section \<open>What the jail does to a system call\<close>

definition jail :: "(string \<Rightarrow> u32) \<Rightarrow> filter list" where
  "jail nr = [build_clone3_enosys_filter nr, build_filter (kill_syscalls nr) KillProcess Allow,
     build_allow_filter nr (Errno 1)]"

lemma x32_bit_free: "n < X32_BIT \<Longrightarrow> \<not> bit n 30"
proof
  assume n: "n < X32_BIT" and "bit n 30"
  then have "bit (uint n) 30" by (simp add: bit_uint_iff)
  moreover have "uint n < 2 ^ 30" using n by (simp add: word_less_def X32_BIT_def)
  ultimately show False
    using take_bit_int_eq_self [of "uint n" 30] by (metis bit_take_bit_iff less_irrefl uint_nonnegative)
qed

lemma x32_has_bit: "bit (n OR X32_BIT) 30"
  by (simp add: bit_or_iff X32_BIT_def)

lemma x32_ne: "n < X32_BIT \<Longrightarrow> n \<noteq> m OR X32_BIT"
  using x32_bit_free x32_has_bit by metis

lemma used_distinct: "abi_ok nr \<Longrightarrow> s \<in> set used_names \<Longrightarrow> t \<in> set used_names \<Longrightarrow> nr s = nr t \<longleftrightarrow> s = t"
  by (auto simp: abi_ok_def distinct_map dest: inj_onD)

lemma used_bound: "abi_ok nr \<Longrightarrow> s \<in> set used_names \<Longrightarrow> nr s < X32_BIT \<and> nr s \<notin> {428, 429, 430, 431, 432, 433}"
  by (auto simp: abi_ok_def list_all_iff)

lemma kill_names_used: "set kill_names \<subseteq> set used_names" and allowed_used: "set allowed_syscalls \<subseteq> set used_names"
  by (auto simp: used_names_def)

lemma disjoint_names: "set kill_names \<inter> set (allowed_syscalls @ [''clone'', ''mmap'', ''mprotect'', ''seccomp'']) = {}"
proof -
  have "list_all (\<lambda>s. s \<notin> set (allowed_syscalls @ [''clone'', ''mmap'', ''mprotect'', ''seccomp''])) kill_names"
    by code_simp
  then show ?thesis by (auto simp: list_all_iff)
qed

lemma not_killed:
  assumes "abi_ok nr" and "s \<in> set (allowed_syscalls @ [''clone'', ''mmap'', ''mprotect'', ''seccomp''])"
  shows "nr s \<notin> set (kill_syscalls nr)"
proof -
  have s: "s \<in> set used_names" using assms(2) by (auto simp: used_names_def)
  have "nr s \<notin> nr ` set kill_names"
  proof
    assume "nr s \<in> nr ` set kill_names"
    then obtain t where t: "t \<in> set kill_names" "nr s = nr t" by auto
    then have "s = t" using used_distinct [OF assms(1) s, of t] kill_names_used by auto
    with t(1) assms(2) disjoint_names show False by blast
  qed
  then show ?thesis
    using used_bound [OF assms(1) s] x32_ne [of "nr s"] by (auto simp: kill_syscalls_def Let_def)
qed

lemma kernel_jail:
  "kernel (jail nr) c =
     (let a1 = run_filter (build_clone3_enosys_filter nr) c;
          a2 = run_filter (build_filter (kill_syscalls nr) KillProcess Allow) c;
          a3 = run_filter (build_allow_filter nr (Errno 1)) c;
          a12 = (if severity a1 \<le> severity a2 then a2 else a1)
      in if severity a12 \<le> severity a3 then a3 else a12)"
  by (simp add: kernel_def jail_def Let_def)

lemma run_kill: "native_arch c \<Longrightarrow> run_filter (build_filter (kill_syscalls nr) KillProcess Allow) c
    = (if sys_nr c \<in> set (kill_syscalls nr) then KillProcess else Allow)"
  by (simp add: run_filter_def build_filter_def)

lemma run_clone3: "native_arch c \<Longrightarrow> run_filter (build_clone3_enosys_filter nr) c
    = (if sys_nr c = nr ''clone3'' then Errno 38 else Allow)"
  by (simp add: run_filter_def build_clone3_enosys_filter_def)

lemma run_allow: "native_arch c \<Longrightarrow> run_filter (build_allow_filter nr (Errno 1)) c
    = (if sys_nr c = nr ''mprotect'' \<or> sys_nr c = nr ''mmap''
       then (if (sys_args c ! 2) AND 0xFFFFFFFF AND PROT_EXEC = 0 then Allow else Errno 1)
       else if sys_nr c = nr ''clone''
       then (if (sys_args c ! 0) AND 0xFFFFFFFF AND CLONE_NEW_MASK = 0 then Allow else Errno 1)
       else if sys_nr c \<in> nr ` set allowed_syscalls then Allow else Errno 1)"
  by (simp add: run_filter_def build_allow_filter_def clone_flag_rule_def prot_no_exec_rule_def cond_holds_def)

lemma kernel_jail_native:
  assumes "native_arch c"
  shows "kernel (jail nr) c =
    (if sys_nr c \<in> set (kill_syscalls nr) then KillProcess
     else case run_filter (build_allow_filter nr (Errno 1)) c of
       Allow \<Rightarrow> (if sys_nr c = nr ''clone3'' then Errno 38 else Allow)
     | a \<Rightarrow> a)"
  unfolding kernel_jail run_kill [OF assms] run_clone3 [OF assms]
  by (cases "run_filter (build_allow_filter nr (Errno 1)) c") (simp_all add: Let_def del: One_nat_def)

lemma kernel_foreign: "\<not> native_arch c \<Longrightarrow> kernel (jail nr) c = KillProcess"
  by (simp add: kernel_jail run_filter_def Let_def)

lemma jail_kills: "native_arch c \<Longrightarrow> sys_nr c \<in> set (kill_syscalls nr) \<Longrightarrow> kernel (jail nr) c = KillProcess"
  by (simp add: kernel_jail_native)

section \<open>The verdict on each kind of call\<close>

text \<open>A native call by number and arguments.\<close>

definition call_of :: "u32 \<Rightarrow> u64 list \<Rightarrow> sys_call" where
  "call_of n xs = \<lparr>native_arch = True, sys_nr = n, sys_args = xs\<rparr>"

lemma call_of_simps [simp]: "native_arch (call_of n xs)" "sys_nr (call_of n xs) = n" "sys_args (call_of n xs) = xs"
  by (simp_all add: call_of_def)

lemma native_call: "native_arch c \<Longrightarrow> \<exists>n xs. c = call_of n xs"
  by (cases c) (simp add: call_of_def)

lemma clone3_allowed: "''clone3'' \<in> set allowed_syscalls"
  by (simp add: allowed_syscalls_def)

lemma not_allowed_names: "s \<in> set allowed_syscalls \<Longrightarrow> s \<noteq> ''clone'' \<and> s \<noteq> ''mmap'' \<and> s \<noteq> ''mprotect''"
  by (auto simp: allowed_syscalls_def)

lemma run_names:
  assumes "abi_ok nr" and "s \<in> set allowed_syscalls \<union> {''clone'', ''mmap'', ''mprotect''}"
  shows "nr s \<notin> set (kill_syscalls nr)" and "nr s = nr ''clone3'' \<longleftrightarrow> s = ''clone3''"
    and "nr s = nr ''clone'' \<longleftrightarrow> s = ''clone''" and "nr s = nr ''mmap'' \<longleftrightarrow> s = ''mmap''"
    and "nr s = nr ''mprotect'' \<longleftrightarrow> s = ''mprotect''"
proof -
  have u: "s \<in> set used_names" "''clone3'' \<in> set used_names" "''clone'' \<in> set used_names" "''mmap'' \<in> set used_names"
      "''mprotect'' \<in> set used_names"
    using assms(2) clone3_allowed by (auto simp: used_names_def)
  show "nr s \<notin> set (kill_syscalls nr)" using assms(2) by (intro not_killed [OF assms(1)]) auto
  show "nr s = nr ''clone3'' \<longleftrightarrow> s = ''clone3''" by (rule used_distinct [OF assms(1) u(1,2)])
  show "nr s = nr ''clone'' \<longleftrightarrow> s = ''clone''" by (rule used_distinct [OF assms(1) u(1,3)])
  show "nr s = nr ''mmap'' \<longleftrightarrow> s = ''mmap''" by (rule used_distinct [OF assms(1) u(1,4)])
  show "nr s = nr ''mprotect'' \<longleftrightarrow> s = ''mprotect''" by (rule used_distinct [OF assms(1) u(1,5)])
qed

lemma verdict_allowed:
  assumes "abi_ok nr" and "s \<in> set allowed_syscalls" and "s \<noteq> ''clone3''"
  shows "kernel (jail nr) (call_of (nr s) xs) = Allow"
  using assms(2,3) not_allowed_names [OF assms(2)] run_names [OF assms(1), of s]
  by (simp add: kernel_jail_native run_allow del: One_nat_def)

lemma verdict_clone3:
  assumes "abi_ok nr"
  shows "kernel (jail nr) (call_of (nr ''clone3'') xs) = Errno 38"
  using clone3_allowed not_allowed_names [OF clone3_allowed] run_names [OF assms, of "''clone3''"]
  by (simp add: kernel_jail_native run_allow del: One_nat_def)

lemma verdict_pages:
  assumes "abi_ok nr" and "s = ''mmap'' \<or> s = ''mprotect''"
  shows "kernel (jail nr) (call_of (nr s) xs) = (if (xs ! 2) AND 0xFFFFFFFF AND PROT_EXEC = 0 then Allow else Errno 1)"
  using assms(2)
proof
  assume s: "s = ''mmap''"
  show ?thesis unfolding s
    using run_names [OF assms(1), of "''mmap''"] by (simp add: kernel_jail_native run_allow del: One_nat_def)
next
  assume s: "s = ''mprotect''"
  show ?thesis unfolding s
    using run_names [OF assms(1), of "''mprotect''"] by (simp add: kernel_jail_native run_allow del: One_nat_def)
qed

lemma verdict_clone:
  assumes "abi_ok nr"
  shows "kernel (jail nr) (call_of (nr ''clone'') xs) = (if (xs ! 0) AND 0xFFFFFFFF AND CLONE_NEW_MASK = 0 then Allow else Errno 1)"
  using run_names [OF assms, of "''clone''"] by (simp add: kernel_jail_native run_allow del: One_nat_def)

lemma verdict_killed: "s \<in> set kill_names \<Longrightarrow> kernel (jail nr) (call_of (nr s) xs) = KillProcess"
  by (rule jail_kills) (simp_all add: kill_syscalls_def Let_def)

section \<open>Putting it up\<close>

lemma then_do_simps [simp]: "then_do (p, Inl e) f = (p, Inl e)" "then_do (p, Inr u) f = f p"
  by (simp_all add: then_do_def)

lemma then_do_Inr: "then_do m f = (p', Inr u) \<longleftrightarrow> (\<exists>p v. m = (p, Inr v) \<and> f p = (p', Inr u))"
  by (cases m; cases "snd m") (auto simp: then_do_def)

lemma attempt_Inr: "attempt w x f p = (p', Inr u) \<longleftrightarrow> \<not> failing w x \<and> p' = f p"
  by (auto simp: attempt_def)

lemma apply_filter_Inr:
  "apply_filter nr w k f p = (p', Inr u) \<longleftrightarrow>
   \<not> failing w (OpSeccomp k) \<and> kernel (installed p) (seccomp_call nr) = Allow
   \<and> p' = p\<lparr>installed := installed p @ [f]\<rparr>"
  by (auto simp: apply_filter_def)

lemma clone3_lets_seccomp:
  assumes "abi_ok nr"
  shows "kernel [build_clone3_enosys_filter nr] (seccomp_call nr) = Allow"
    and "kernel [build_clone3_enosys_filter nr, build_filter (kill_syscalls nr) KillProcess Allow] (seccomp_call nr) = Allow"
proof -
  have "nr ''seccomp'' \<noteq> nr ''clone3''"
    using used_distinct [OF assms, of "''seccomp''" "''clone3''"] by (simp add: used_names_def allowed_syscalls_def)
  moreover have "nr ''seccomp'' \<notin> set (kill_syscalls nr)" using not_killed [OF assms] by simp
  ultimately show "kernel [build_clone3_enosys_filter nr] (seccomp_call nr) = Allow"
    and "kernel [build_clone3_enosys_filter nr, build_filter (kill_syscalls nr) KillProcess Allow] (seccomp_call nr) = Allow"
    by (simp_all add: kernel_def Let_def run_clone3 run_kill seccomp_call_def del: set_map)
qed

text \<open>The allow filter itself denies further \<open>seccomp\<close> calls: it has to go on last.\<close>

lemma allow_blocks_seccomp:
  assumes "abi_ok nr"
  shows "kernel [build_allow_filter nr (Errno 1)] (seccomp_call nr) = Errno 1"
proof -
  have "''seccomp'' \<notin> set (allowed_syscalls @ [''clone'', ''mmap'', ''mprotect''])" by code_simp
  then have "nr ''seccomp'' \<notin> nr ` set (allowed_syscalls @ [''clone'', ''mmap'', ''mprotect''])"
    using used_distinct [OF assms, of "''seccomp''"] allowed_used by (force simp: used_names_def)
  then show ?thesis
    by (simp add: kernel_def Let_def run_allow seccomp_call_def del: One_nat_def)
qed

lemma lock_down_Inr:
  assumes "lock_down_worker nr w p = (p', Inr u)" and "installed p = []"
  shows "installed p' = jail nr \<and> no_new_privs p' \<and> List.find wx_line (maps_lines w) = None
    \<and> limits p' RCore = Some 0 \<and> limits p' RAs = Some (addr_space_cap (threads w))
    \<and> limits p' RCpu = Some (cpu_time_cap (threads w)) \<and> limits p' RNofile = Some 64"
  using assms
  by (auto simp: lock_down_worker_def then_do_Inr attempt_Inr assert_no_wx_mappings_def set_rlimits_def
    install_seccomp_def apply_filter_Inr jail_def Let_def split: option.splits)

section \<open>Properties\<close>


text \<open>At four calls of an x86-64 worker: an executable anonymous \<open>mmap\<close>, a \<open>clone\<close> into a user namespace,
  an x32 \<open>execve\<close>, and \<open>clone3\<close>.\<close>

lemma x86_64_nr_values:
  "x86_64_nr ''mmap'' = 9" "x86_64_nr ''clone'' = 56" "x86_64_nr ''execve'' = 59" "x86_64_nr ''clone3'' = 435"
  using x86_64_entries
  by (simp_all add: x86_64_nr_def x86_64_numbers_def used_names_def allowed_syscalls_def kill_names_def)


lemma lock_down_ok_iff:
  assumes "abi_ok nr" and "installed p = []" and "lock_down_worker nr w p = (p', r)"
  shows "(r = Inr ()) = (List.find wx_line (maps_lines w) = None \<and> \<not> failing w OpReadMaps
      \<and> \<not> failing w OpNoNewPrivs \<and> \<not> failing w (OpSetrlimit RCore) \<and> \<not> failing w (OpSetrlimit RAs)
      \<and> \<not> failing w (OpSetrlimit RCpu) \<and> \<not> failing w (OpSetrlimit RNofile) \<and> \<not> failing w (OpSeccomp 0)
      \<and> \<not> failing w (OpSeccomp 1) \<and> \<not> failing w (OpSeccomp 2))"
  using assms(2,3) clone3_lets_seccomp [OF assms(1)]
  by (auto simp: lock_down_worker_def attempt_def assert_no_wx_mappings_def set_rlimits_def install_seccomp_def
    apply_filter_def Let_def kernel_def [of "[]"] split: if_splits option.splits)

text \<open>C35: Locking the worker down succeeds exactly when its memory map shows no writable executable page and
  no call it makes is refused by the system; its own filters never stand in the way of the filters after
  them. When it succeeds the whole jail is up: the four resource limits, no new privileges, and the three
  filters, the catastrophic set's kill among them.\<close>

theorem lock_down_complete:
  assumes "abi_ok nr" and "installed p = []" and "lock_down_worker nr w p = (p', r)"
  shows "(r = Inr () \<longleftrightarrow> List.find wx_line (maps_lines w) = None
      \<and> (\<forall>x. x \<notin> {OpReadMaps, OpNoNewPrivs, OpSetrlimit RCore, OpSetrlimit RAs, OpSetrlimit RCpu,
           OpSetrlimit RNofile, OpSeccomp 0, OpSeccomp 1, OpSeccomp 2} \<or> \<not> failing w x))
    \<and> (r = Inr () \<longrightarrow> installed p' = jail nr \<and> no_new_privs p' \<and> limits p' RCore = Some 0
      \<and> limits p' RAs = Some (addr_space_cap (threads w)) \<and> limits p' RCpu = Some (cpu_time_cap (threads w))
      \<and> limits p' RNofile = Some 64)"
proof -
  note lock_down_ok_iff [OF assms]
  moreover have "installed p' = jail nr \<and> no_new_privs p' \<and> limits p' RCore = Some 0
      \<and> limits p' RAs = Some (addr_space_cap (threads w)) \<and> limits p' RCpu = Some (cpu_time_cap (threads w))
      \<and> limits p' RNofile = Some 64" if "r = Inr ()"
    using lock_down_Inr [of nr w p p' "()"] assms(2,3) that by simp
  ultimately show ?thesis by auto
qed

text \<open>At a 4-core worker on x86-64.\<close>

definition fresh_worker :: proc where
  "fresh_worker = \<lparr>limits = (\<lambda>_. None), no_new_privs = False, installed = [], fds = [0, 1, 2, 7], pdeathsig = False\<rparr>"

definition quiet_world :: world where
  "quiet_world = \<lparr>maps_lines = [''55d0-55d1 r-xp 00000000 08:01 42''], threads = Some 4, parent_pid = Some 812,
     failing = (\<lambda>_. False)\<rparr>"

theorem lock_down_complete_witness:
  "snd (lock_down_worker x86_64_nr quiet_world fresh_worker) = Inr ()
   \<and> limits (fst (lock_down_worker x86_64_nr quiet_world fresh_worker)) RCpu = Some 480"
proof -
  have "cpu_time_cap (Some 4) = 480" by (simp add: cpu_time_cap_def threads_or_8_def sat_mul64_def
    CPU_BACKSTOP_WALL_SECS_def CPU_THREAD_CLAMP_def)
  moreover have "List.find wx_line (maps_lines quiet_world) = None" by code_simp
  ultimately show ?thesis
    using lock_down_complete [OF abi_ok_x86_64, of fresh_worker quiet_world
      "fst (lock_down_worker x86_64_nr quiet_world fresh_worker)" "snd (lock_down_worker x86_64_nr quiet_world fresh_worker)"]
    by (simp add: fresh_worker_def quiet_world_def)
qed

end
