(* ===== verification/Text.thy ===== *)
theory Text
  imports F64
begin

text \<open>
  The text the command line prints and parses (\<open>cli/src/main.rs\<close>): decimal numbers, the shard spec, the escaping
  of names for a terminal and for a rizin script, and the extension of a path. Strings are their UTF-8 bytes.
\<close>

section \<open>Decimal numbers\<close>

text \<open>\<open>format!("{n}")\<close> of an unsigned integer.\<close>

fun dec :: "nat \<Rightarrow> string" where
  "dec n = (if n < 10 then [char_of (48 + n)] else dec (n div 10) @ [char_of (48 + n mod 10)])"

declare dec.simps [simp del]

definition digit :: "char \<Rightarrow> nat option" where
  "digit c = (if 48 \<le> (of_char c :: nat) \<and> (of_char c :: nat) \<le> 57 then Some (of_char c - 48) else None)"

text \<open>\<open>str::parse::<usize>\<close>: an optional plus sign, then digits, without overflow.\<close>

fun parse_digits :: "nat \<Rightarrow> string \<Rightarrow> nat option" where
  "parse_digits acc [] = Some acc"
| "parse_digits acc (c # cs) =
     (case digit c of
        None \<Rightarrow> None
      | Some d \<Rightarrow> if acc * 10 + d \<ge> 2 ^ 64 then None else parse_digits (acc * 10 + d) cs)"

definition parse_usize :: "string \<Rightarrow> nat option" where
  "parse_usize s =
     (case s of
        [] \<Rightarrow> None
      | c # cs \<Rightarrow> if c = CHR ''+'' then (if cs = [] then None else parse_digits 0 cs) else parse_digits 0 s)"

text \<open>\<open>str::split(c)\<close>.\<close>

fun split_on :: "char \<Rightarrow> string \<Rightarrow> string list" where
  "split_on c [] = [[]]"
| "split_on c (x # xs) =
     (if x = c then [] # split_on c xs
      else case split_on c xs of [] \<Rightarrow> [[x]] | p # ps \<Rightarrow> (x # p) # ps)"

section \<open>The shard spec\<close>

definition shard_spec :: "nat \<Rightarrow> nat \<Rightarrow> string" where
  "shard_spec i n = dec i @ ''/'' @ dec n"

definition parse_shard :: "string option \<Rightarrow> nat \<times> nat" where
  "parse_shard spec =
     (case spec of
        None \<Rightarrow> (0, 1)
      | Some s \<Rightarrow>
          let ps = split_on (CHR ''/'') s;
              idx = (case ps of p # _ \<Rightarrow> parse_usize p | _ \<Rightarrow> None);
              cnt = (case ps of _ # p # _ \<Rightarrow> parse_usize p | _ \<Rightarrow> None)
          in case (idx, cnt) of
               (Some i, Some c) \<Rightarrow> if c \<ge> 1 \<and> i < c then (i, c) else (0, 1)
             | _ \<Rightarrow> (0, 1))"

section \<open>Escaping\<close>

definition is_graphic :: "char \<Rightarrow> bool" where
  "is_graphic c \<longleftrightarrow> 33 \<le> (of_char c :: nat) \<and> (of_char c :: nat) \<le> 126"

definition esc_byte :: "char \<Rightarrow> string" where
  "esc_byte c =
     (if c = CHR '' '' \<or> is_graphic c then [c]
      else [char_of (92 :: nat), CHR ''x'', hex_digit (of_char c div 16), hex_digit (of_char c mod 16)])"

definition esc :: "string \<Rightarrow> string" where
  "esc s = concat (map esc_byte s)"

definition is_alphanumeric :: "char \<Rightarrow> bool" where
  "is_alphanumeric c \<longleftrightarrow> (48 \<le> (of_char c :: nat) \<and> (of_char c :: nat) \<le> 57)
     \<or> (65 \<le> (of_char c :: nat) \<and> (of_char c :: nat) \<le> 90) \<or> (97 \<le> (of_char c :: nat) \<and> (of_char c :: nat) \<le> 122)"

definition r2_char :: "char \<Rightarrow> char" where
  "r2_char c = (if is_alphanumeric c \<or> c = CHR ''_'' \<or> c = CHR ''.'' then c else CHR ''_'')"

text \<open>A character of several bytes gives one underscore: the continuation bytes give nothing.\<close>

definition continuation :: "char \<Rightarrow> bool" where
  "continuation c \<longleftrightarrow> 128 \<le> (of_char c :: nat) \<and> (of_char c :: nat) < 192"

definition r2_ident :: "string \<Rightarrow> string" where
  "r2_ident s = ''fnp.'' @ map r2_char (filter (\<lambda>c. \<not> continuation c) s)"

section \<open>What a worker wrote to its error output\<close>

text \<open>\<open>String::from_utf8_lossy\<close>: every longest initial part of a character that is not continued as it must be, and every
  byte that starts none, is replaced by U+FFFD.\<close>

definition utf8_second :: "nat \<Rightarrow> nat \<Rightarrow> bool" where
  "utf8_second a b \<longleftrightarrow> utf8_cont b \<and> (a = 0xE0 \<longrightarrow> 0xA0 \<le> b) \<and> (a = 0xED \<longrightarrow> b \<le> 0x9F)
     \<and> (a = 0xF0 \<longrightarrow> 0x90 \<le> b) \<and> (a = 0xF4 \<longrightarrow> b \<le> 0x8F)"

definition REPLACEMENT :: "nat list" where "REPLACEMENT = [0xEF, 0xBF, 0xBD]"

text \<open>What a text starts with: how many bytes, and whether they are a character.\<close>

definition utf8_head :: "nat \<Rightarrow> nat list \<Rightarrow> nat \<times> bool" where
  "utf8_head a xs =
     (if a < 0x80 then (1, True)
      else if 0xC2 \<le> a \<and> a \<le> 0xDF then (case xs of b # _ \<Rightarrow> if utf8_cont b then (2, True) else (1, False) | [] \<Rightarrow> (1, False))
      else if 0xE0 \<le> a \<and> a \<le> 0xEF then
        (case xs of
           [] \<Rightarrow> (1, False)
         | b # ys \<Rightarrow>
             if \<not> utf8_second a b then (1, False)
             else (case ys of c # _ \<Rightarrow> if utf8_cont c then (3, True) else (2, False) | [] \<Rightarrow> (2, False)))
      else if 0xF0 \<le> a \<and> a \<le> 0xF4 then
        (case xs of
           [] \<Rightarrow> (1, False)
         | b # ys \<Rightarrow>
             if \<not> utf8_second a b then (1, False)
             else (case ys of
                [] \<Rightarrow> (2, False)
              | c # zs \<Rightarrow>
                  if \<not> utf8_cont c then (2, False)
                  else (case zs of d # _ \<Rightarrow> if utf8_cont d then (4, True) else (3, False) | [] \<Rightarrow> (3, False))))
      else (1, False))"

lemma utf8_head_pos: "0 < fst (utf8_head a xs)"
  by (simp add: utf8_head_def split: list.split)

lemma utf8_head_shrinks: "(n, ok) = utf8_head a xs \<Longrightarrow> length (drop n (a # xs)) < length (a # xs)"
  using utf8_head_pos [of a xs] by (metis diff_less fst_conv length_drop length_greater_0_conv list.discI)

function utf8_lossy :: "nat list \<Rightarrow> nat list" where
  "utf8_lossy [] = []"
| "utf8_lossy (a # xs) =
     (let (n, ok) = utf8_head a xs
      in (if ok then take n (a # xs) else REPLACEMENT) @ utf8_lossy (drop n (a # xs)))"
  by pat_completeness auto
termination
  by (relation "measure length") (rule wf_measure, metis in_measure utf8_head_shrinks)

text \<open>\<open>str::trim\<close>: the encodings of the characters with the property White_Space, taken off both ends.\<close>

definition white_space :: "nat list list" where
  "white_space = [[9], [10], [11], [12], [13], [32], [0xC2, 0x85], [0xC2, 0xA0], [0xE1, 0x9A, 0x80]]
     @ map (\<lambda>k. [0xE2, 0x80, k]) ([0x80..<0x8B] @ [0xA8, 0xA9, 0xAF]) @ [[0xE2, 0x81, 0x9F], [0xE3, 0x80, 0x80]]"

definition starts_with :: "nat list \<Rightarrow> nat list \<Rightarrow> bool" where
  "starts_with bs w \<longleftrightarrow> w \<noteq> [] \<and> take (length w) bs = w"

lemma find_shrinks: "List.find (starts_with bs) ws = Some w \<Longrightarrow> length (drop (length w) bs) < length bs"
proof -
  assume "List.find (starts_with bs) ws = Some w"
  then have "starts_with bs w" by (auto simp: find_Some_iff)
  then have "w \<noteq> []" "length w \<le> length bs" unfolding starts_with_def by (simp, metis length_take min.cobounded1)
  then show ?thesis by (cases w; cases bs) auto
qed

function strip :: "nat list list \<Rightarrow> nat list \<Rightarrow> nat list" where
  "strip ws bs = (case List.find (starts_with bs) ws of None \<Rightarrow> bs | Some w \<Rightarrow> strip ws (drop (length w) bs))"
  by pat_completeness auto
termination
  by (relation "measure (\<lambda>(ws, bs). length bs)") (simp, simp only: in_measure split_conv find_shrinks)

declare strip.simps [simp del]

definition trim :: "nat list \<Rightarrow> nat list" where
  "trim bs = rev (strip (map rev white_space) (rev (strip white_space bs)))"

definition err_text :: "u8 list \<Rightarrow> string" where
  "err_text bs = map char_of (trim (utf8_lossy (map unat bs)))"

lemma utf8_ok_replacement [simp]: "utf8_ok (REPLACEMENT @ xs) = utf8_ok xs"
  by (simp add: REPLACEMENT_def utf8_cont_def)

lemma utf8_second_high: "0xE0 \<le> a \<Longrightarrow> a \<le> 0xEF \<Longrightarrow> utf8_second a b \<longleftrightarrow> utf8_cont b \<and> (a = 0xE0 \<longrightarrow> 0xA0 \<le> b) \<and> (a = 0xED \<longrightarrow> b \<le> 0x9F)"
  and utf8_second_higher: "0xF0 \<le> a \<Longrightarrow> a \<le> 0xF4 \<Longrightarrow> utf8_second a b \<longleftrightarrow> utf8_cont b \<and> (a = 0xF0 \<longrightarrow> 0x90 \<le> b) \<and> (a = 0xF4 \<longrightarrow> b \<le> 0x8F)"
  by (auto simp: utf8_second_def)

lemma utf8_head_two: "0xC2 \<le> a \<Longrightarrow> a \<le> 0xDF \<Longrightarrow>
    snd (utf8_head a xs) \<longleftrightarrow> (\<exists>b zs. xs = b # zs \<and> utf8_cont b)"
  by (cases xs) (simp_all add: utf8_head_def)

lemma utf8_head_three: "0xE0 \<le> a \<Longrightarrow> a \<le> 0xEF \<Longrightarrow>
    snd (utf8_head a xs) \<longleftrightarrow> (\<exists>b c zs. xs = b # c # zs \<and> utf8_second a b \<and> utf8_cont c)"
  by (cases xs; cases "List.tl xs") (simp_all add: utf8_head_def)

lemma utf8_head_four: "0xF0 \<le> a \<Longrightarrow> a \<le> 0xF4 \<Longrightarrow>
    snd (utf8_head a xs) \<longleftrightarrow> (\<exists>b c d zs. xs = b # c # d # zs \<and> utf8_second a b \<and> utf8_cont c \<and> utf8_cont d)"
  by (cases xs; cases "List.tl xs"; cases "List.tl (List.tl xs)") (simp_all add: utf8_head_def)

lemma utf8_head_cases:
  assumes "snd (utf8_head a xs)"
  obtains "a < 0x80" | b zs where "0xC2 \<le> a" "a \<le> 0xDF" "xs = b # zs" "utf8_cont b"
    | b c zs where "0xE0 \<le> a" "a \<le> 0xEF" "xs = b # c # zs" "utf8_second a b" "utf8_cont c"
    | b c d zs where "0xF0 \<le> a" "a \<le> 0xF4" "xs = b # c # d # zs" "utf8_second a b" "utf8_cont c" "utf8_cont d"
proof -
  consider "\<not> (a < 0x80 \<or> (0xC2 \<le> a \<and> a \<le> 0xDF) \<or> (0xE0 \<le> a \<and> a \<le> 0xEF) \<or> (0xF0 \<le> a \<and> a \<le> 0xF4))"
    | "a < 0x80" | "0xC2 \<le> a" "a \<le> 0xDF" | "0xE0 \<le> a" "a \<le> 0xEF" | "0xF0 \<le> a" "a \<le> 0xF4" by blast
  then show thesis
  proof cases
    case 1
    then show ?thesis using assms by (simp add: utf8_head_def split: if_splits)
  next
    case 3
    then show ?thesis using assms utf8_head_two [of a xs] that(2) by blast
  next
    case 4
    then show ?thesis using assms utf8_head_three [of a xs] that(3) by blast
  next
    case 5
    then show ?thesis using assms utf8_head_four [of a xs] that(4) by blast
  qed (rule that(1))
qed

lemma utf8_ok_head:
  assumes "snd (utf8_head a xs)"
  shows "utf8_ok (take (fst (utf8_head a xs)) (a # xs) @ ys) = utf8_ok ys"
  using assms
proof (cases rule: utf8_head_cases)
  case (3 b c zs)
  then show ?thesis by (simp add: utf8_head_def utf8_second_high)
next
  case (4 b c d zs)
  then show ?thesis by (simp add: utf8_head_def utf8_second_higher)
qed (simp_all add: utf8_head_def)

lemma utf8_ok_has_head:
  assumes ok: "utf8_ok (a # xs)"
  shows "snd (utf8_head a xs)"
proof -
  consider "a < 0x80" | "0xC2 \<le> a" "a \<le> 0xDF" | "0xE0 \<le> a" "a \<le> 0xEF" | "0xF0 \<le> a" "a \<le> 0xF4"
    using ok by (simp split: if_splits)
  then show ?thesis
  proof cases
    case 1
    then show ?thesis by (simp add: utf8_head_def)
  next
    case 2
    then show ?thesis using ok by (simp add: utf8_head_two split: list.splits)
  next
    case 3
    then show ?thesis using ok by (auto simp: utf8_head_three utf8_second_high split: list.splits)
  next
    case 4
    then show ?thesis using ok by (auto simp: utf8_head_four utf8_second_higher split: list.splits)
  qed
qed

text \<open>The result is text, and text is left alone.\<close>

lemma utf8_lossy_ok: "utf8_ok (utf8_lossy bs)"
proof (induction bs rule: utf8_lossy.induct)
  case (2 a xs)
  then have "utf8_ok (utf8_lossy (drop (fst (utf8_head a xs)) (a # xs)))" by (simp add: prod_eq_iff)
  then show ?case
    by (simp add: utf8_ok_head case_prod_unfold Let_def del: utf8_ok.simps drop_Cons' take_Cons')
qed simp

lemma utf8_lossy_id: "utf8_ok bs \<Longrightarrow> utf8_lossy bs = bs"
proof (induction bs rule: utf8_lossy.induct)
  case (2 a xs)
  let ?n = "fst (utf8_head a xs)"
  have h: "snd (utf8_head a xs)" using 2(2) by (rule utf8_ok_has_head)
  have "utf8_ok (drop ?n (a # xs))"
    using utf8_ok_head [OF h, of "drop ?n (a # xs)"] 2(2) by (simp only: append_take_drop_id)
  then have "utf8_lossy (drop ?n (a # xs)) = drop ?n (a # xs)" using 2(1) by (simp add: prod_eq_iff)
  then show ?case using h by (simp only: utf8_lossy.simps Let_def case_prod_unfold if_True append_take_drop_id)
qed simp

lemma err_text_nil [simp]: "err_text [] = ''''"
proof -
  have "List.find (starts_with []) ws = None" for ws by (auto simp: find_None_iff starts_with_def)
  then have "strip ws [] = []" for ws by (subst strip.simps) simp
  then show ?thesis by (simp add: err_text_def trim_def)
qed

section \<open>Paths\<close>

text \<open>\<open>Path::file_name\<close>: the last component, if it is a name; \<open>Path::extension\<close>: what follows its last dot, unless
  the dot is its first character.\<close>

definition file_name :: "string \<Rightarrow> string option" where
  "file_name p =
     (case rev (filter (\<lambda>c. c \<noteq> [] \<and> c \<noteq> ''.'') (split_on (CHR ''/'') p)) of
        [] \<Rightarrow> None
      | c # _ \<Rightarrow> if c = ''..'' then None else Some c)"

definition extension :: "string \<Rightarrow> string option" where
  "extension p =
     Option.bind (file_name p) (\<lambda>n.
       case rev (split_on (CHR ''.'') n) of
         e # b # bs \<Rightarrow> if b = [] \<and> bs = [] then None else Some e
       | _ \<Rightarrow> None)"

definition is_db :: "string \<Rightarrow> bool" where
  "is_db p \<longleftrightarrow> extension p = Some ''db''"

definition row_cap :: "nat \<Rightarrow> nat" where
  "row_cap limit = (if limit = 0 then 2 ^ 64 - 1 else limit)"

section \<open>Numbers in tables\<close>

text \<open>\<open>{:>w}\<close> fills with spaces on the left, \<open>{:#010x}\<close> with zeros after the prefix.\<close>

definition fill_left :: "char \<Rightarrow> nat \<Rightarrow> string \<Rightarrow> string" where
  "fill_left c w s = replicate (w - length s) c @ s"

abbreviation pad_left :: "nat \<Rightarrow> string \<Rightarrow> string" where
  "pad_left \<equiv> fill_left (CHR '' '')"

definition hex_010 :: "u64 \<Rightarrow> string" where
  "hex_010 v = ''0x'' @ fill_left (CHR ''0'') 8 (hex_digits (unat v))"

text \<open>\<open>{:.n}\<close>: the exact value rounded to \<open>n\<close> places, ties to even; \<open>{:+.n}\<close> also prints a plus sign.\<close>

definition fixed_places :: "nat \<Rightarrow> rat \<Rightarrow> string" where
  "fixed_places n x =
     (let m = nat (round_even (x * 10 ^ n))
      in dec (m div 10 ^ n) @ (if n = 0 then '''' else ''.'' @ fill_left (CHR ''0'') n (dec (m mod 10 ^ n))))"

fun fixed :: "nat \<Rightarrow> flt \<Rightarrow> string" where
  "fixed n (Fin x) = (if x < 0 then ''-'' @ fixed_places n (- x) else fixed_places n x)"
| "fixed n PInf = ''inf''"
| "fixed n NInf = ''-inf''"
| "fixed n NaN = ''NaN''"

definition fixed_plus :: "nat \<Rightarrow> flt \<Rightarrow> string" where
  "fixed_plus n x = (if x \<noteq> NaN \<and> flt_le (Fin 0) x then ''+'' @ fixed n x else fixed n x)"

text \<open>A share in per cent, as \<open>x * 100.0\<close> in its own format.\<close>

definition percent :: "ffmt \<Rightarrow> nat \<Rightarrow> flt \<Rightarrow> string" where
  "percent F n x = fixed n (fmul F x (Fin 100))"

section \<open>Reading back what is printed\<close>

lemma digit_char_of [simp]: "d < 10 \<Longrightarrow> digit (char_of (48 + d)) = Some d"
  by (simp add: digit_def)

lemma digit_not_slash: "digit c = Some d \<Longrightarrow> c \<noteq> CHR ''/'' \<and> c \<noteq> CHR ''+''"
  by (auto simp: digit_def split: if_splits)

lemma parse_digits_append:
  "parse_digits acc (xs @ ys) = Option.bind (parse_digits acc xs) (\<lambda>a. parse_digits a ys)"
  by (induction acc xs rule: parse_digits.induct) (auto split: option.split)

lemma parse_digits_dec: "n < 2 ^ 64 \<Longrightarrow> parse_digits 0 (dec n) = Some n"
proof (induction n rule: dec.induct)
  case (1 n)
  show ?case
  proof (cases "n < 10")
    case True
    then show ?thesis by (subst dec.simps) simp
  next
    case False
    then have "parse_digits 0 (dec (n div 10)) = Some (n div 10)" using 1 by simp
    moreover have "n div 10 * 10 + n mod 10 = n" by simp
    ultimately show ?thesis using False 1(2) by (subst dec.simps) (simp add: parse_digits_append)
  qed
qed

lemma dec_digits: "c \<in> set (dec n) \<Longrightarrow> \<exists>d. digit c = Some d"
proof (induction n rule: dec.induct)
  case (1 n)
  show ?case
  proof (cases "n < 10")
    case True
    then show ?thesis using 1(2) by (subst (asm) dec.simps) auto
  next
    case False
    then have "c \<in> set (dec (n div 10)) \<or> c = char_of (48 + n mod 10)" using 1(2) by (subst (asm) dec.simps) auto
    then show ?thesis using 1(1) False by auto
  qed
qed

lemma dec_not_Nil [simp]: "dec n \<noteq> []"
  by (subst dec.simps) simp

lemma parse_usize_dec: "n < 2 ^ 64 \<Longrightarrow> parse_usize (dec n) = Some n"
proof -
  assume n: "n < 2 ^ 64"
  obtain c cs where d: "dec n = c # cs" by (cases "dec n") simp_all
  have "c \<noteq> CHR ''+''" using dec_digits [of c n] digit_not_slash d by fastforce
  then show ?thesis using parse_digits_dec [OF n] by (simp add: parse_usize_def d)
qed

lemma split_on_none: "c \<notin> set s \<Longrightarrow> split_on c s = [s]"
  by (induction s) auto

lemma split_on_append: "c \<notin> set s \<Longrightarrow> split_on c (s @ c # t) = s # split_on c t"
  by (induction s) auto

lemma slash_not_dec [simp]: "CHR ''/'' \<notin> set (dec n)"
  using dec_digits digit_not_slash by fastforce

lemma parse_shard_spec: "i < n \<Longrightarrow> n < 2 ^ 64 \<Longrightarrow> parse_shard (Some (shard_spec i n)) = (i, n)"
  by (simp add: parse_shard_def shard_spec_def split_on_append split_on_none parse_usize_dec)

text \<open>What the parent prints as a shard spec, the worker reads back; and whatever the spec, even a malformed
  one, the worker gets a shard that exists.\<close>

theorem shard_spec_roundtrip:
  "(i < n \<longrightarrow> n < 2 ^ 64 \<longrightarrow> parse_shard (Some (shard_spec i n)) = (i, n))
   \<and> fst (parse_shard spec) < snd (parse_shard spec)"
proof
  show "i < n \<longrightarrow> n < 2 ^ 64 \<longrightarrow> parse_shard (Some (shard_spec i n)) = (i, n)" using parse_shard_spec by blast
  show "fst (parse_shard spec) < snd (parse_shard spec)"
    by (auto simp: parse_shard_def Let_def split: option.split)
qed

theorem shard_spec_roundtrip_witness: "parse_shard (Some (shard_spec 3 16)) = (3, 16)"
  using shard_spec_roundtrip [of 3 16 None] by simp

section \<open>Escaped text is inert\<close>

definition printable :: "char \<Rightarrow> bool" where
  "printable c \<longleftrightarrow> 32 \<le> (of_char c :: nat) \<and> (of_char c :: nat) \<le> 126"

lemma of_char_lt: "(of_char c :: nat) < 256"
  by (metis of_char_mod_256 mod_less_divisor zero_less_numeral)

lemma hex_digit_printable: "n < 16 \<Longrightarrow> printable (hex_digit n)"
  by (simp add: hex_digit_def printable_def)

lemma esc_byte_printable: "list_all printable (esc_byte c)"
proof -
  have "(of_char c :: nat) div 16 < 16" using of_char_lt [of c] by (simp add: less_mult_imp_div_less)
  then show ?thesis
    using hex_digit_printable by (auto simp: esc_byte_def printable_def is_graphic_def)
qed

lemma esc_id: "list_all printable s \<Longrightarrow> esc s = s"
proof -
  have "printable c \<Longrightarrow> esc_byte c = [c]" for c
  proof -
    assume p: "printable c"
    show "esc_byte c = [c]"
    proof (cases "(of_char c :: nat) = 32")
      case True
      have "c = char_of (of_char c :: nat)" by simp
      also have "\<dots> = CHR '' ''" unfolding True by code_simp
      finally show ?thesis by (simp add: esc_byte_def)
    qed (use p in \<open>auto simp: esc_byte_def printable_def is_graphic_def\<close>)
  qed
  then show "list_all printable s \<Longrightarrow> esc s = s" by (induction s) (simp_all add: esc_def)
qed

lemma printable_Char [simp]:
  "printable (Char b0 b1 b2 b3 b4 b5 b6 b7) \<longleftrightarrow> \<not> b7 \<and> (b5 \<or> b6) \<and> \<not> (b0 \<and> b1 \<and> b2 \<and> b3 \<and> b4 \<and> b5 \<and> b6)"
  by (cases b0; cases b1; cases b2; cases b3; cases b4; cases b5; cases b6; cases b7) (simp_all add: printable_def)

lemma printable_dec [simp]: "list_all printable (dec n)"
proof -
  have "printable c" if "c \<in> set (dec n)" for c
    using dec_digits [OF that] by (auto simp: printable_def digit_def split: if_splits)
  then show ?thesis by (simp add: list_all_iff)
qed

lemma hex_digits_set: "c \<in> set (hex_digits n) \<Longrightarrow> \<exists>d<16. c = hex_digit d"
proof (induction n rule: hex_digits.induct)
  case (1 n)
  show ?case
  proof (cases "n < 16")
    case True
    then show ?thesis using 1(2) by (subst (asm) hex_digits.simps) auto
  next
    case False
    then have "c \<in> set (hex_digits (n div 16)) \<or> c = hex_digit (n mod 16)" using 1(2) by (subst (asm) hex_digits.simps) auto
    then show ?thesis using 1(1) False by (auto intro: exI [of _ "n mod 16"])
  qed
qed

lemma printable_hex_digits [simp]: "list_all printable (hex_digits n)"
  using hex_digits_set [of _ n] hex_digit_printable by (fastforce simp: list_all_iff)

lemma printable_hex_u64 [simp]: "list_all printable (hex_u64 v)"
  by (simp add: hex_u64_def)

lemma printable_fill [simp]: "printable c \<Longrightarrow> list_all printable (fill_left c w s) \<longleftrightarrow> list_all printable s"
  by (auto simp: fill_left_def list_all_iff)

lemma printable_hex_010 [simp]: "list_all printable (hex_010 v)"
  by (simp add: hex_010_def)

lemma printable_fixed [simp]: "list_all printable (fixed n x)"
  by (cases "(n, x)" rule: fixed.cases) (simp_all add: fixed_places_def Let_def)

lemma printable_fixed_plus [simp]: "list_all printable (fixed_plus n x)"
  by (simp add: fixed_plus_def)

lemma printable_percent [simp]: "list_all printable (percent F n x)"
  by (simp add: percent_def)

lemma printable_esc [simp]: "list_all printable (esc s)"
  using esc_byte_printable by (auto simp: esc_def list_all_iff)

text \<open>Text from a file cannot steer the terminal or the disassembler: escaped text holds printable ASCII
  characters only, and text that is printable already is not changed; an identifier of a rizin script holds,
  after its prefix, letters, digits, underscores and dots only, so it can never be anything but one argument.\<close>

theorem output_is_inert:
  "list_all printable (esc s) \<and> (list_all printable s \<longrightarrow> esc s = s)
   \<and> (\<exists>t. r2_ident s = ''fnp.'' @ t \<and> list_all (\<lambda>c. is_alphanumeric c \<or> c = CHR ''_'' \<or> c = CHR ''.'') t)"
proof (intro conjI)
  show "list_all printable (esc s)" by simp
  show "list_all printable s \<longrightarrow> esc s = s" using esc_id by blast
  show "\<exists>t. r2_ident s = ''fnp.'' @ t \<and> list_all (\<lambda>c. is_alphanumeric c \<or> c = CHR ''_'' \<or> c = CHR ''.'') t"
    by (auto simp: r2_ident_def r2_char_def list_all_iff)
qed

theorem output_is_inert_witness: "esc ''gzip_main'' = ''gzip_main'' \<and> list_all printable (esc [char_of (27 :: nat), CHR ''['', CHR ''2'', CHR ''J''])"
proof -
  have "list_all printable ''gzip_main''" by (simp add: printable_def)
  then show ?thesis using output_is_inert [of "''gzip_main''"] output_is_inert [of "[char_of (27 :: nat), CHR ''['', CHR ''2'', CHR ''J'']"] by blast
qed

end
