(* ===== verification/Cli.thy ===== *)
theory Cli
  imports Index Sandbox Text
begin

text \<open>
  The command line's privilege separation (\<open>cli/src/main.rs\<close>): the jailed worker, the parent's exchange with it,
  sharding an index over several workers, and loading inputs and corpora. What the operating system and other
  packages do is parameters: what a spawned worker's exchange gives, how replies are encoded, what \<open>sqlite\<close>
  finds in an image, the text of an error.
\<close>

section \<open>Standard output\<close>

datatype cli_error =
    StdoutClosed | StdoutError
  | BadGraphWeight | R2Unsupported
  | InputOpen string | InputStat string | NotRegular string | OverCap string | InputRead string
  | NoSpawn | ReplyRead | TimeBudget u64 | ReaderGone | WaitFailed
  | Abnormal "string option" | ReplyOverCap | BadReply
  | WorkerSaid string | WrongKind | BadSigLen | ShardPanicked
  | LoadError load_error | DbError db_error | NoSuchFunction string
  | HardenFailed | JailFailed | StdinFailed

datatype io_result = IoOk | BrokenPipe | IoFailed

definition stdout_result :: "io_result \<Rightarrow> cli_error + unit" where
  "stdout_result r = (case r of IoOk \<Rightarrow> Inr () | BrokenPipe \<Rightarrow> Inl StdoutClosed | IoFailed \<Rightarrow> Inl StdoutError)"

text \<open>The end of \<open>main\<close>: a reader that hung up is not an error.\<close>

definition main_result :: "cli_error + unit \<Rightarrow> cli_error + unit" where
  "main_result r = (case r of Inl e \<Rightarrow> if e = StdoutClosed then Inr () else Inl e | Inr u \<Rightarrow> Inr u)"

section \<open>Caps\<close>

definition MAX_INPUT :: nat where "MAX_INPUT = 512 * 2 ^ 20"
definition MAX_REPLY :: nat where "MAX_REPLY = 128 * 2 ^ 20"
definition MAX_AGGREGATE_INPUT :: nat where "MAX_AGGREGATE_INPUT = 2 * 2 ^ 30"
definition DEADLINE_THREAD_CLAMP :: u64 where "DEADLINE_THREAD_CLAMP = 16"

definition worker_deadline :: "u64 option \<Rightarrow> u64" where
  "worker_deadline t = sat_add64 (sat_mul64 120 (min (threads_or_8 t) DEADLINE_THREAD_CLAMP)) 300"

section \<open>Configuration\<close>

text \<open>An environment variable that is set and is text.\<close>

type_synonym env = "string \<rightharpoonup> string"

definition emu_config :: "env \<Rightarrow> Config" where
  "emu_config env =
     (case Option.bind (env ''FNPRINT_BLANKET'') parse_usize of
        Some n \<Rightarrow> default_config\<lparr>blanket_restarts := min n 16\<rparr>
      | None \<Rightarrow> default_config)"

definition shard_count :: "env \<Rightarrow> nat" where
  "shard_count env = (case Option.bind (env ''FNPRINT_SHARDS'') parse_usize of Some n \<Rightarrow> max 1 (min n 64) | None \<Rightarrow> 1)"

definition clamp_shards_for_input :: "nat \<Rightarrow> nat \<Rightarrow> nat" where
  "clamp_shards_for_input requested n = (if n = 0 then requested else min requested (max (MAX_AGGREGATE_INPUT div n) 1))"

section \<open>The worker\<close>

datatype WorkerReply = IndexOk "IndexedFunc list" | DumpOk "string list" | DbOk "FuncRec list" | ErrReply string

text \<open>What the worker uses of other packages: the engine, the ELF and unwind parsers, what \<open>sqlite\<close> finds in an
  image (or its error), and how errors and effects print.\<close>

record tools =
  tl_emu :: uworld
  tl_parse :: "u8 list \<Rightarrow> elf option"
  tl_walk :: eh_walker
  tl_sqlite :: "u8 list \<Rightarrow> db_error + (string option \<times> (string \<times> string \<times> u64) list \<times> row list \<times> (u64 \<times> u64 \<times> u64) list)"
  tl_load_text :: "load_error \<Rightarrow> string"
  tl_db_text :: "db_error \<Rightarrow> string"
  tl_effect :: "Effect \<Rightarrow> string"

definition render_traces :: "tools \<Rightarrow> EffectTrace list \<Rightarrow> string list" where
  "render_traces tt ts =
     concat (map (\<lambda>(i, t).
       (''-- path '' @ dec i @ '' ('' @ dec (length (effects t)) @ '' effects, instret '' @ dec (unat (instret t))
         @ '', capped '' @ (if capped t then ''true'' else ''false'') @ '', coverage '' @ fixed 2 (coverage t) @ '') --'')
       # map (\<lambda>e. ''   '' @ tl_effect tt e) (effects t)) (enumerated ts))"

definition dump_reply :: "tools \<Rightarrow> string \<Rightarrow> load_error option + EffectTrace list \<Rightarrow> WorkerReply" where
  "dump_reply tt name r =
     (case r of
        Inl (Some e) \<Rightarrow> ErrReply (tl_load_text tt e)
      | Inl None \<Rightarrow> ErrReply (''no function named '' @ name)
      | Inr ts \<Rightarrow> DumpOk (render_traces tt ts))"

definition worker_reply :: "tools \<Rightarrow> env \<Rightarrow> string \<Rightarrow> string option \<Rightarrow> u8 list \<Rightarrow> WorkerReply option" where
  "worker_reply tt env op func input =
     (if op = ''index'' then
        (let (idx, cnt) = parse_shard func in
         map_option (\<lambda>r. case r of Inl e \<Rightarrow> ErrReply (tl_load_text tt e) | Inr fs \<Rightarrow> IndexOk fs)
           (index_bytes_shard (tl_emu tt) (tl_parse tt) (tl_walk tt) input (emu_config env) idx cnt))
      else if op = ''dump'' then
        (let name = (case func of None \<Rightarrow> '''' | Some f \<Rightarrow> f) in
         map_option (dump_reply tt name) (dump_traces (tl_emu tt) (tl_parse tt) (tl_walk tt) input name (emu_config env)))
      else if op = ''dbload'' then
        Some (case bindR (tl_sqlite tt input) (\<lambda>(kind, cols, rows, bs). bindR (open_image kind cols rows bs) db_all) of
            Inr rs \<Rightarrow> DbOk rs
          | Inl e \<Rightarrow> ErrReply (tl_db_text tt e))
      else Some (ErrReply (''unknown worker op: '' @ op)))"

text \<open>The worker process: it hardens and jails itself before it reads a byte, and reads at most one byte past the
  cap. \<open>None\<close> is a worker that never answers; an error is an exit without a reply.\<close>

definition worker_main ::
  "(string \<Rightarrow> u32) \<Rightarrow> world \<Rightarrow> proc \<Rightarrow> tools \<Rightarrow> env \<Rightarrow> string \<Rightarrow> string option \<Rightarrow> u8 list option
    \<Rightarrow> (cli_error + WorkerReply) option" where
  "worker_main nr w p tt env op func stdin =
     (case harden_worker_preinput w p of
        (p, Inl _) \<Rightarrow> Some (Inl HardenFailed)
      | (p, Inr _) \<Rightarrow>
          (case lock_down_worker nr w p of
             (p, Inl _) \<Rightarrow> Some (Inl JailFailed)
           | (p, Inr _) \<Rightarrow>
               (case stdin of
                  None \<Rightarrow> Some (Inl StdinFailed)
                | Some bs \<Rightarrow>
                    let input = take (MAX_INPUT + 1) bs in
                    if length input > MAX_INPUT then Some (Inr (ErrReply ''input over size cap''))
                    else map_option Inr (worker_reply tt env op func input))))"

text \<open>The hidden command line of a worker: what the parent passes, and how \<open>main\<close> takes it apart before it looks at any
  other argument.\<close>

definition WORKER_TOKEN :: string where "WORKER_TOKEN = ''__worker''"

definition worker_args :: "string \<Rightarrow> string option \<Rightarrow> string list" where
  "worker_args op func = WORKER_TOKEN # op # (case func of None \<Rightarrow> [] | Some f \<Rightarrow> [f])"

definition worker_call :: "string list \<Rightarrow> (string \<times> string option) option" where
  "worker_call args =
     (case args of
        _ # t # rest \<Rightarrow>
          if t = WORKER_TOKEN
          then Some (case rest of [] \<Rightarrow> ('''', None) | [op] \<Rightarrow> (op, None) | op # func # _ \<Rightarrow> (op, Some func))
          else None
      | _ \<Rightarrow> None)"

lemma worker_call_args [simp]: "worker_call (exe # worker_args op func) = Some (op, func)"
  by (simp add: worker_call_def worker_args_def split: option.split)

section \<open>The parent's side of the exchange\<close>

text \<open>What the parent sees of a worker: nothing could be spawned, the read failed, the deadline passed, the reader
  vanished, the wait failed, or a stream, how the process ended, and the trimmed tail of what it wrote to its error output.\<close>

datatype exchange = XNoSpawn | XReadFailed | XTimeout u64 | XReaderGone | XWaitFailed | XReplied "u8 list" bool string

definition run_worker :: "(u8 list \<Rightarrow> WorkerReply option) \<Rightarrow> exchange \<Rightarrow> cli_error + WorkerReply" where
  "run_worker dcd x =
     (case x of
        XNoSpawn \<Rightarrow> Inl NoSpawn
      | XReadFailed \<Rightarrow> Inl ReplyRead
      | XTimeout d \<Rightarrow> Inl (TimeBudget d)
      | XReaderGone \<Rightarrow> Inl ReaderGone
      | XWaitFailed \<Rightarrow> Inl WaitFailed
      | XReplied stream success err_tail \<Rightarrow>
          let out = take (MAX_REPLY + 1) stream in
          if \<not> success then Inl (Abnormal (if err_tail = '''' then None else Some (esc err_tail)))
          else if length out > MAX_REPLY then Inl ReplyOverCap
          else case dcd out of None \<Rightarrow> Inl BadReply | Some r \<Rightarrow> Inr r)"

text \<open>The one variable the worker is given.\<close>

definition worker_env :: "env \<Rightarrow> env" where
  "worker_env env = [''FNPRINT_BLANKET'' \<mapsto> dec (blanket_restarts (emu_config env))]"

definition validate_reply_fps :: "IndexedFunc list \<Rightarrow> cli_error + unit" where
  "validate_reply_fps fs = (if list_all (\<lambda>f. length (sig (if_fp f)) = SIG_LEN) fs then Inr () else Inl BadSigLen)"

definition sanitize_coverage :: "IndexedFunc list \<Rightarrow> IndexedFunc list" where
  "sanitize_coverage fs =
     map (\<lambda>f. f\<lparr>if_coverage := if is_finite (if_coverage f) then fclamp (Fin 0) (Fin 1) (if_coverage f) else Fin 1\<rparr>) fs"

definition accept_index :: "cli_error + WorkerReply \<Rightarrow> cli_error + IndexedFunc list" where
  "accept_index r =
     bindR r (\<lambda>r. case r of
         IndexOk fs \<Rightarrow> bindR (validate_reply_fps fs) (\<lambda>_. Inr (sanitize_coverage fs))
       | ErrReply e \<Rightarrow> Inl (WorkerSaid (esc e))
       | _ \<Rightarrow> Inl WrongKind)"

definition shard_key :: "IndexedFunc \<Rightarrow> u64 \<times> string option \<times> string" where
  "shard_key f = (if_entry f, if_name f, source_str (if_source f))"

text \<open>What joining a thread gives; \<open>None\<close> is one that panicked. The first error is kept.\<close>

definition merge_shard ::
  "(u8 list \<Rightarrow> WorkerReply option) \<Rightarrow> exchange option \<Rightarrow> IndexedFunc list \<times> cli_error option
    \<Rightarrow> IndexedFunc list \<times> cli_error option" where
  "merge_shard dcd j acc =
     (let (fs, err) = acc; fail = (\<lambda>e. (fs, Some (case err of None \<Rightarrow> e | Some e' \<Rightarrow> e'))) in
      case j of
        None \<Rightarrow> fail ShardPanicked
      | Some x \<Rightarrow> (case accept_index (run_worker dcd x) of Inl e \<Rightarrow> fail e | Inr gs \<Rightarrow> (fs @ gs, err)))"

definition run_workers_sharded ::
  "(u8 list \<Rightarrow> WorkerReply option) \<Rightarrow> (nat \<Rightarrow> exchange option) \<Rightarrow> nat \<Rightarrow> cli_error + IndexedFunc list" where
  "run_workers_sharded dcd joined n =
     (let (fs, err) = fold (\<lambda>i. merge_shard dcd (joined i)) [0..<n] ([], None) in
      case err of Some e \<Rightarrow> Inl e | None \<Rightarrow> Inr (sort_key shard_key fs))"

text \<open>The parent: its environment, what a worker spawned on an operation gives, how a reply decodes, which shard
  threads panic, and the tools it uses itself without the sandbox.\<close>

record parent =
  pa_env :: env
  pa_spawn :: "string \<Rightarrow> string option \<Rightarrow> u8 list \<Rightarrow> exchange"
  pa_decode :: "u8 list \<Rightarrow> WorkerReply option"
  pa_panics :: "nat \<Rightarrow> bool"
  pa_tools :: tools
  pa_open_db :: "string \<Rightarrow> db_error + Db"

definition run_index :: "parent \<Rightarrow> u8 list \<Rightarrow> bool \<Rightarrow> (cli_error + IndexedFunc list) option" where
  "run_index pa raw no_sandbox =
     (if no_sandbox then
        map_option (\<lambda>r. case r of Inl e \<Rightarrow> Inl (LoadError e) | Inr fs \<Rightarrow> Inr fs)
          (index_bytes (tl_emu (pa_tools pa)) (tl_parse (pa_tools pa)) (tl_walk (pa_tools pa)) raw (emu_config (pa_env pa)))
      else
        let n = clamp_shards_for_input (shard_count (pa_env pa)) (length raw) in
        Some (if n \<le> 1 then accept_index (run_worker (pa_decode pa) (pa_spawn pa ''index'' None raw))
              else run_workers_sharded (pa_decode pa)
                (\<lambda>i. if pa_panics pa i then None else Some (pa_spawn pa ''index'' (Some (shard_spec i n)) raw)) n))"

definition run_dump :: "parent \<Rightarrow> u8 list \<Rightarrow> string \<Rightarrow> bool \<Rightarrow> (cli_error + string list) option" where
  "run_dump pa raw func no_sandbox =
     (if no_sandbox then
        map_option (\<lambda>r. case r of
            Inl (Some e) \<Rightarrow> Inl (LoadError e)
          | Inl None \<Rightarrow> Inl (NoSuchFunction func)
          | Inr ts \<Rightarrow> Inr (render_traces (pa_tools pa) ts))
          (dump_traces (tl_emu (pa_tools pa)) (tl_parse (pa_tools pa)) (tl_walk (pa_tools pa)) raw func (emu_config (pa_env pa)))
      else
        Some (bindR (run_worker (pa_decode pa) (pa_spawn pa ''dump'' (Some func) raw)) (\<lambda>r. case r of
            DumpOk ls \<Rightarrow> Inr ls
          | ErrReply e \<Rightarrow> Inl (WorkerSaid (esc e))
          | _ \<Rightarrow> Inl WrongKind)))"

section \<open>Inputs\<close>

text \<open>A path as the file system shows it: can it be opened and examined, is it a regular file, its reported
  length, and the bytes a read gives.\<close>

record input_file =
  fi_open :: bool
  fi_stat :: bool
  fi_regular :: bool
  fi_len :: nat
  fi_bytes :: "u8 list option"

definition read_input :: "string \<Rightarrow> input_file \<Rightarrow> cli_error + u8 list" where
  "read_input path f =
     (if \<not> fi_open f then Inl (InputOpen (esc path))
      else if \<not> fi_stat f then Inl (InputStat (esc path))
      else if \<not> fi_regular f then Inl (NotRegular (esc path))
      else if fi_len f > MAX_INPUT then Inl (OverCap (esc path))
      else case fi_bytes f of
        None \<Rightarrow> Inl (InputRead (esc path))
      | Some bs \<Rightarrow>
          let got = take (MAX_INPUT + 1) bs in
          if length got > MAX_INPUT then Inl (OverCap (esc path)) else Inr got)"

definition validate_corpus_records :: "FuncRec list \<Rightarrow> cli_error + unit" where
  "validate_corpus_records rs = (if list_all (\<lambda>r. length (sig (rec_fp r)) = SIG_LEN) rs then Inr () else Inl BadSigLen)"

definition mapL :: "('e \<Rightarrow> 'f) \<Rightarrow> 'e + 'a \<Rightarrow> 'f + 'a" where
  "mapL f r = (case r of Inl e \<Rightarrow> Inl (f e) | Inr x \<Rightarrow> Inr x)"

definition load_corpus_records :: "parent \<Rightarrow> (string \<Rightarrow> input_file) \<Rightarrow> string \<Rightarrow> bool \<Rightarrow> cli_error + FuncRec list" where
  "load_corpus_records pa fs path no_sandbox =
     (if no_sandbox then mapL DbError (bindR (pa_open_db pa path) db_all)
      else
        bindR (read_input path (fs path)) (\<lambda>raw.
        bindR (run_worker (pa_decode pa) (pa_spawn pa ''dbload'' None raw)) (\<lambda>r. case r of
            DbOk rs \<Rightarrow> bindR (validate_corpus_records rs) (\<lambda>_. Inr rs)
          | ErrReply e \<Rightarrow> Inl (WorkerSaid (esc e))
          | _ \<Rightarrow> Inl WrongKind)))"

definition load_corpus :: "parent \<Rightarrow> (string \<Rightarrow> input_file) \<Rightarrow> string \<Rightarrow> bool \<Rightarrow> cli_error + MemCorpus" where
  "load_corpus pa fs path no_sandbox = bindR (load_corpus_records pa fs path no_sandbox) (\<lambda>rs. Inr (from_records rs))"

definition from_corpus :: "FuncRec \<Rightarrow> IndexedFunc" where
  "from_corpus r = \<lparr>if_name = rec_name r, if_entry = rec_entry r, if_source = Symtab, if_fp = rec_fp r,
     if_coverage = Fin 1, if_callees = rec_callees r\<rparr>"

definition load_index :: "parent \<Rightarrow> (string \<Rightarrow> input_file) \<Rightarrow> string \<Rightarrow> bool \<Rightarrow> (cli_error + IndexedFunc list) option" where
  "load_index pa fs path no_sandbox =
     (if is_db path then Some (bindR (load_corpus_records pa fs path no_sandbox) (\<lambda>rs. Inr (map from_corpus rs)))
      else case read_input path (fs path) of
        Inl e \<Rightarrow> Some (Inl e)
      | Inr raw \<Rightarrow> run_index pa raw no_sandbox)"

section \<open>The parent and an honest worker\<close>

lemma emu_config_restarts: "blanket_restarts (emu_config env) \<le> 16"
  by (simp add: emu_config_def default_config_def BLANKET_RESTARTS_def split: option.split)

lemma worker_env_config: "emu_config (worker_env env) = emu_config env"
proof -
  have "parse_usize (dec (blanket_restarts (emu_config env))) = Some (blanket_restarts (emu_config env))"
    using emu_config_restarts [of env] by (intro parse_usize_dec) simp
  then have "emu_config (worker_env env) = default_config\<lparr>blanket_restarts := blanket_restarts (emu_config env)\<rparr>"
    using emu_config_restarts [of env] unfolding emu_config_def [of "worker_env env"]
    by (simp add: worker_env_def min_absorb1)
  also have "\<dots> = emu_config env" by (simp add: emu_config_def default_config_def split: option.split)
  finally show ?thesis .
qed

definition jail_up :: "(string \<Rightarrow> u32) \<Rightarrow> world \<Rightarrow> proc \<Rightarrow> bool" where
  "jail_up nr w p \<longleftrightarrow> snd (harden_worker_preinput w p) = Inr ()
     \<and> snd (lock_down_worker nr w (fst (harden_worker_preinput w p))) = Inr ()"

lemma worker_main_up:
  "jail_up nr w p \<Longrightarrow> length raw \<le> MAX_INPUT \<Longrightarrow>
   worker_main nr w p tt env op func (Some raw) = map_option Inr (worker_reply tt env op func raw)"
  by (simp add: worker_main_def jail_up_def Let_def split: prod.split sum.split) auto

text \<open>The exchange with a worker that runs the code.\<close>

definition honest_exchange ::
  "(string \<Rightarrow> u32) \<Rightarrow> world \<Rightarrow> proc \<Rightarrow> tools \<Rightarrow> (WorkerReply \<Rightarrow> u8 list) \<Rightarrow> env \<Rightarrow> string \<Rightarrow> string option \<Rightarrow> u8 list \<Rightarrow> exchange" where
  "honest_exchange nr w p tt encode env op func raw =
     (case Option.bind (worker_call (''fnprint'' # worker_args op func))
             (\<lambda>(op, func). worker_main nr w p tt (worker_env env) op func (Some raw)) of
        None \<Rightarrow> XTimeout 0
      | Some (Inl _) \<Rightarrow> XReplied [] False ''''
      | Some (Inr r) \<Rightarrow> XReplied (encode r) True '''')"

lemma validate_ok: "list_all indexed_ok fs \<Longrightarrow> validate_reply_fps fs = Inr ()"
  by (auto simp: validate_reply_fps_def indexed_ok_def wf_fp_def list_all_iff)

lemma sanitize_unit: "flt_le (Fin 0) c \<Longrightarrow> flt_le c (Fin 1) \<Longrightarrow> is_finite c \<and> fclamp (Fin 0) (Fin 1) c = c"
  by (cases c) (auto simp: is_finite_def fclamp_def flt_le_def flt_less_def)

lemma sanitize_ok: "list_all indexed_ok fs \<Longrightarrow> sanitize_coverage fs = fs"
  by (induction fs) (auto simp: sanitize_coverage_def indexed_ok_def sanitize_unit)

definition same_codec :: "tools \<Rightarrow> Config \<Rightarrow> (WorkerReply \<Rightarrow> u8 list) \<Rightarrow> (u8 list \<Rightarrow> WorkerReply option) \<Rightarrow> u8 list \<Rightarrow> bool" where
  "same_codec tt cfg encode dcd raw \<longleftrightarrow> (\<forall>i n gs.
     index_bytes_shard (tl_emu tt) (tl_parse tt) (tl_walk tt) raw cfg i n = Some (Inr gs) \<longrightarrow>
     dcd (encode (IndexOk gs)) = Some (IndexOk gs) \<and> length (encode (IndexOk gs)) \<le> MAX_REPLY)"

lemma honest_index:
  assumes "jail_up nr w p" and "length raw \<le> MAX_INPUT" and "same_codec tt (emu_config env) encode dcd raw"
    and "index_bytes_shard (tl_emu tt) (tl_parse tt) (tl_walk tt) raw (emu_config env) (fst (parse_shard func)) (snd (parse_shard func))
      = Some (Inr gs)"
    and "list_all indexed_ok gs"
  shows "accept_index (run_worker dcd (honest_exchange nr w p tt encode env ''index'' func raw)) = Inr gs"
proof -
  have "worker_reply tt (worker_env env) ''index'' func raw = Some (IndexOk gs)"
    using assms(4) by (simp add: worker_reply_def worker_env_config case_prod_unfold)
  then have x: "honest_exchange nr w p tt encode env ''index'' func raw = XReplied (encode (IndexOk gs)) True ''''"
    using worker_main_up [OF assms(1,2)] by (simp add: honest_exchange_def)
  have c: "dcd (encode (IndexOk gs)) = Some (IndexOk gs)" "length (encode (IndexOk gs)) \<le> MAX_REPLY"
    using assms(3,4) by (auto simp: same_codec_def)
  then have "take (MAX_REPLY + 1) (encode (IndexOk gs)) = encode (IndexOk gs)" by simp
  then have "run_worker dcd (XReplied (encode (IndexOk gs)) True '''') = Inr (IndexOk gs)"
    using c unfolding run_worker_def by (simp add: Let_def)
  then show ?thesis using assms(5) by (simp add: x accept_index_def validate_ok sanitize_ok)
qed

lemma merge_all_ok:
  "(\<And>i. i < n \<Longrightarrow> \<exists>x. joined i = Some x \<and> accept_index (run_worker dcd x) = Inr (gss i)) \<Longrightarrow>
   fold (\<lambda>i. merge_shard dcd (joined i)) [0..<n] ([], None) = (concat (map gss [0..<n]), None)"
proof (induction n)
  case (Suc n)
  then obtain x where "joined n = Some x" "accept_index (run_worker dcd x) = Inr (gss n)" by blast
  then show ?case using Suc by (simp add: merge_shard_def)
qed simp

text \<open>The merge puts the shards back in the order of a single process.\<close>

lemma sort_key_shards:
  assumes "mset gs = mset fs" and "sorted_wrt (<) (map if_entry fs)"
  shows "sort_key shard_key gs = fs"
proof -
  have d: "distinct (map if_entry fs)" using assms(2) by (simp add: strict_sorted_iff)
  then have "inj_on if_entry (set fs)" by (simp add: distinct_map)
  then have inj: "inj_on shard_key (set fs)" by (auto simp: inj_on_def shard_key_def)
  have "set gs = set fs" using assms(1) by (rule mset_eq_setD)
  then have "sort_key shard_key gs = sort_key shard_key fs" using inj assms(1) by (intro sort_key_unique) simp_all
  also have "\<dots> = fs"
  proof (rule sort_key_id_if_sorted)
    show "sorted (map shard_key fs)"
      using assms(2) by (simp add: sorted_map) (rule sorted_wrt_mono_rel, auto simp: shard_key_def less_eq_prod_def sorted_wrt_map)
  qed
  finally show ?thesis .
qed

lemma index_bytes_load:
  assumes "index_bytes w parse walk raw cfg = Some (Inr fs)"
  obtains l where "load parse walk raw = Inr l" and "index_loaded w cfg l 0 1 = Some fs"
  using assms by (auto simp: index_bytes_def index_bytes_shard_def Let_def split: sum.splits)

text \<open>C1: The sandbox and sharding change where an index is computed, never the index: when the jail comes up and
  replies survive their encoding, a jailed index over any number of shards is the index the process would compute
  itself, function for function and in the same order.\<close>

theorem jailed_index_equals_in_process:
  assumes "jail_up nr w p" and "length raw \<le> MAX_INPUT"
    and "pa_spawn pa = honest_exchange nr w p (pa_tools pa) encode (pa_env pa)" and "pa_panics pa = (\<lambda>_. False)"
    and "same_codec (pa_tools pa) (emu_config (pa_env pa)) encode (pa_decode pa) raw"
    and "run_index pa raw True = Some (Inr fs)"
  shows "run_index pa raw False = Some (Inr fs)"
proof -
  let ?t = "pa_tools pa" and ?c = "emu_config (pa_env pa)"
  have i: "index_bytes (tl_emu ?t) (tl_parse ?t) (tl_walk ?t) raw ?c = Some (Inr fs)"
    using assms(6) by (cases "index_bytes (tl_emu ?t) (tl_parse ?t) (tl_walk ?t) raw ?c") (auto simp: run_index_def split: sum.splits)
  obtain l where l: "load (tl_parse ?t) (tl_walk ?t) raw = Inr l" and il: "index_loaded (tl_emu ?t) ?c l 0 1 = Some fs"
    using index_bytes_load [OF i] .
  have ok: "list_all indexed_ok fs" "sorted_wrt (<) (map if_entry fs)" using index_bytes_ok [OF i] by auto
  let ?n = "clamp_shards_for_input (shard_count (pa_env pa)) (length raw)"
  show ?thesis
  proof (cases "?n \<le> 1")
    case True
    have "index_bytes_shard (tl_emu ?t) (tl_parse ?t) (tl_walk ?t) raw ?c (fst (parse_shard None)) (snd (parse_shard None)) = Some (Inr fs)"
      using i by (simp add: parse_shard_def index_bytes_def)
    from honest_index [OF assms(1,2,5) this ok(1)] show ?thesis using True by (simp add: run_index_def assms(3))
  next
    case False
    have "?n < 2 ^ 64"
    proof -
      have "?n \<le> shard_count (pa_env pa)" by (simp add: clamp_shards_for_input_def)
      also have "\<dots> \<le> 64" by (simp add: shard_count_def split: option.split)
      finally show ?thesis by simp
    qed
    obtain gss where gss: "\<And>i. i < ?n \<Longrightarrow> index_loaded (tl_emu ?t) ?c l i ?n = Some (gss i)" and ms: "mset (concat (map gss [0..<?n])) = mset fs"
      using index_loaded_shards [OF il, of ?n] False by auto
    have "accept_index (run_worker (pa_decode pa) (pa_spawn pa ''index'' (Some (shard_spec i ?n)) raw)) = Inr (gss i)"
      if i: "i < ?n" for i
    proof -
      have p: "parse_shard (Some (shard_spec i ?n)) = (i, ?n)" using parse_shard_spec [OF i \<open>?n < 2 ^ 64\<close>] .
      have s: "index_bytes_shard (tl_emu ?t) (tl_parse ?t) (tl_walk ?t) raw ?c i ?n = Some (Inr (gss i))"
        using index_shard_in_range [OF l i] gss [OF i] by simp
      have "set (gss i) \<subseteq> set (concat (map gss [0..<?n]))" using i by auto
      also have "\<dots> = set fs" using ms by (rule mset_eq_setD)
      finally have "list_all indexed_ok (gss i)" using ok(1) by (auto simp: list_all_iff)
      then show ?thesis using honest_index [OF assms(1,2,5), of "Some (shard_spec i ?n)" "gss i"] s p by (simp add: assms(3))
    qed
    then have "fold (\<lambda>i. merge_shard (pa_decode pa) (if pa_panics pa i then None else Some (pa_spawn pa ''index'' (Some (shard_spec i ?n)) raw)))
        [0..<?n] ([], None) = (concat (map gss [0..<?n]), None)"
      by (intro merge_all_ok) (simp add: assms(4))
    then show ?thesis using False sort_key_shards [OF ms ok(2)] by (simp add: run_index_def run_workers_sharded_def)
  qed
qed

text \<open>At a file of two functions over two shards, the encoding of an index being the positions of its functions.\<close>

definition ret_tools :: tools where
  "ret_tools = \<lparr>tl_emu = ret_world, tl_parse = (\<lambda>_. Some tiny_elf), tl_walk = tiny_walk, tl_sqlite = (\<lambda>_. Inl SqliteError),
     tl_load_text = (\<lambda>_. ''bad elf''), tl_db_text = (\<lambda>_. ''bad db''), tl_effect = (\<lambda>_. ''effect'')\<rparr>"

definition position_in :: "'a list \<Rightarrow> 'a \<Rightarrow> nat" where
  "position_in xs x = length (takeWhile (\<lambda>y. y \<noteq> x) xs)"

lemma position_in_lt: "x \<in> set xs \<Longrightarrow> position_in xs x < length xs \<and> xs ! position_in xs x = x"
  by (induction xs) (auto simp: position_in_def)

fun positions_encode :: "IndexedFunc list \<Rightarrow> WorkerReply \<Rightarrow> u8 list" where
  "positions_encode fs (IndexOk gs) = map (\<lambda>g. of_nat (position_in fs g)) gs"
| "positions_encode fs _ = []"

definition positions_decode :: "IndexedFunc list \<Rightarrow> u8 list \<Rightarrow> WorkerReply option" where
  "positions_decode fs bs = Some (IndexOk (map (\<lambda>b. fs ! unat b) bs))"

lemma positions_codec:
  assumes "index_bytes (tl_emu tt) (tl_parse tt) (tl_walk tt) raw cfg = Some (Inr fs)" and "length fs < 256"
  shows "same_codec tt cfg (positions_encode fs) (positions_decode fs) raw"
  unfolding same_codec_def
proof (intro allI impI conjI)
  fix i n gs
  assume "index_bytes_shard (tl_emu tt) (tl_parse tt) (tl_walk tt) raw cfg i n = Some (Inr gs)"
  note sub = index_shard_subset [OF assms(1) this]
  have "fs ! unat (of_nat (position_in fs g) :: u8) = g" if "g \<in> set gs" for g
  proof -
    have "position_in fs g < length fs" "fs ! position_in fs g = g" using position_in_lt [of g fs] sub that by auto
    then show ?thesis using assms(2) by (simp add: unat_of_nat)
  qed
  then show "positions_decode fs (positions_encode fs (IndexOk gs)) = Some (IndexOk gs)"
    by (simp add: positions_decode_def map_idI)
  show "length (positions_encode fs (IndexOk gs)) \<le> MAX_REPLY" using sub assms(2) by (simp add: MAX_REPLY_def)
qed

lemma quiet_jail_up: "jail_up x86_64_nr quiet_world fresh_worker"
proof -
  define p where "p = fst (harden_worker_preinput quiet_world fresh_worker)"
  have h: "snd (harden_worker_preinput quiet_world fresh_worker) = Inr ()" and i: "installed p = []"
    by (simp_all add: p_def harden_worker_preinput_def close_inherited_fds_def attempt_def then_do_def quiet_world_def fresh_worker_def)
  obtain q r where q: "lock_down_worker x86_64_nr quiet_world p = (q, r)" by fastforce
  have "List.find wx_line (maps_lines quiet_world) = None" by code_simp
  then have "r = Inr ()" using lock_down_ok_iff [OF abi_ok_x86_64 i q] by (simp add: quiet_world_def)
  then show ?thesis using q h by (simp add: jail_up_def p_def)
qed

lemma tiny_index_length:
  assumes "index_bytes w (\<lambda>_. Some tiny_elf) tiny_walk tiny_raw cfg = Some (Inr fs)"
  shows "length fs < 256"
proof -
  obtain e l where e: "(\<lambda>_. Some tiny_elf) tiny_raw = Some e" and l: "load (\<lambda>_. Some tiny_elf) tiny_walk tiny_raw = Inr l"
    and m: "map if_entry fs = map fn_entry (filter (has_code (image l)) (Loaded.funcs l))" and s: "sorted_wrt (<) (map if_entry fs)"
    using index_bytes_ok [OF assms] by blast
  have "set (Loaded.funcs l) \<subseteq> set (discover tiny_walk tiny_elf tiny_raw)"
    using load_funcs [of "\<lambda>_. Some tiny_elf" tiny_raw tiny_elf tiny_walk l, OF refl l] by (elim conjE) assumption
  then have "fn_entry ` set (Loaded.funcs l) \<subseteq> {0x1002, 0x1005}" unfolding tiny_discover by auto
  then have sub: "set (map if_entry fs) \<subseteq> {0x1002, 0x1005}" unfolding m by auto
  have "length fs = card (set (map if_entry fs))" using s by (metis distinct_card length_map strict_sorted_iff)
  also have "\<dots> \<le> card {0x1002 :: u64, 0x1005}" using sub by (intro card_mono) auto
  finally show ?thesis by (simp add: card_insert_if)
qed

theorem jailed_index_equals_in_process_witness:
  "\<exists>pa fs. pa_env pa = [''FNPRINT_SHARDS'' \<mapsto> ''2''] \<and> run_index pa tiny_raw True = Some (Inr fs) \<and> run_index pa tiny_raw False = Some (Inr fs)"
proof -
  obtain fs where fs: "index_bytes ret_world (\<lambda>_. Some tiny_elf) tiny_walk tiny_raw default_config = Some (Inr fs)"
    using tiny_indexes by blast
  let ?env = "[''FNPRINT_SHARDS'' \<mapsto> ''2'']"
  let ?pa = "\<lparr>pa_env = ?env, pa_spawn = honest_exchange x86_64_nr quiet_world fresh_worker ret_tools (positions_encode fs) ?env,
    pa_decode = positions_decode fs, pa_panics = (\<lambda>_. False), pa_tools = ret_tools, pa_open_db = (\<lambda>_. Inl SqliteError)\<rparr>"
  have c: "emu_config ?env = default_config" by (simp add: emu_config_def)
  have r: "run_index ?pa tiny_raw True = Some (Inr fs)" using fs by (simp add: run_index_def c ret_tools_def)
  have k: "same_codec (pa_tools ?pa) (emu_config (pa_env ?pa)) (positions_encode fs) (pa_decode ?pa) tiny_raw"
    using positions_codec [of ret_tools tiny_raw default_config fs] fs tiny_index_length [OF fs] by (simp add: c ret_tools_def)
  have "length tiny_raw \<le> MAX_INPUT" by (simp add: tiny_length MAX_INPUT_def)
  from jailed_index_equals_in_process [OF quiet_jail_up this _ _ k r] have "run_index ?pa tiny_raw False = Some (Inr fs)" by simp
  with r show ?thesis by (intro exI [of _ ?pa] exI [of _ fs]) simp
qed

section \<open>What the parent accepts\<close>

lemma sanitized: "f \<in> set (sanitize_coverage fs) \<Longrightarrow> flt_le (Fin 0) (if_coverage f) \<and> flt_le (if_coverage f) (Fin 1)"
proof -
  have "flt_le (Fin 0) c' \<and> flt_le c' (Fin 1)"
    if "c' = (if is_finite c then fclamp (Fin 0) (Fin 1) c else Fin 1)" for c c'
  proof (cases "is_finite c")
    case True
    then have "c \<noteq> NaN" by (auto simp: is_finite_def)
    then show ?thesis using fclamp_unit [of c] that True by simp
  next
    case False
    then show ?thesis using that by (simp add: flt_le_def)
  qed
  then show "f \<in> set (sanitize_coverage fs) \<Longrightarrow> flt_le (Fin 0) (if_coverage f) \<and> flt_le (if_coverage f) (Fin 1)"
    by (auto simp: sanitize_coverage_def)
qed

definition accepted :: "IndexedFunc \<Rightarrow> bool" where
  "accepted f \<longleftrightarrow> wf_fp (if_fp f) \<and> flt_le (Fin 0) (if_coverage f) \<and> flt_le (if_coverage f) (Fin 1)"

lemma accept_index_accepted: "accept_index r = Inr fs \<Longrightarrow> list_all accepted fs"
proof -
  assume "accept_index r = Inr fs"
  then obtain gs where v: "validate_reply_fps gs = Inr ()" and fs: "fs = sanitize_coverage gs"
    unfolding accept_index_def bindR_Inr by (elim exE conjE) (auto simp: bindR_Inr split: WorkerReply.split_asm)
  have "wf_fp (if_fp f)" if "f \<in> set fs" for f
    using that v by (auto simp: fs sanitize_coverage_def validate_reply_fps_def wf_fp_def list_all_iff split: if_splits)
  then show ?thesis using sanitized [of _ gs] by (auto simp: accepted_def list_all_iff fs)
qed

lemma merge_accepted:
  "fold (\<lambda>i. merge_shard dcd (joined i)) ns (gs, err) = (fs, None) \<Longrightarrow> list_all accepted gs \<Longrightarrow>
   err = None \<and> list_all accepted fs \<and> (\<forall>i\<in>set ns. \<exists>x gs. joined i = Some x \<and> accept_index (run_worker dcd x) = Inr gs)"
proof (induction ns arbitrary: gs err)
  case (Cons i ns)
  obtain gs' err' where m: "merge_shard dcd (joined i) (gs, err) = (gs', err')" by fastforce
  have step: "list_all accepted gs' \<and> (err' = None \<longrightarrow> err = None \<and> (\<exists>x hs. joined i = Some x \<and> accept_index (run_worker dcd x) = Inr hs))"
    using m Cons.prems(2) accept_index_accepted by (auto simp: merge_shard_def Let_def split: option.splits sum.splits)
  from Cons.IH [of gs' err'] Cons.prems(1) m step show ?case by simp
qed simp



section \<open>Bounds and order\<close>

text \<open>The parent's bounds hold: an input it takes is a regular file, whole and within the cap; the shards of an
  index together read at most the aggregate budget, or there is a single one; and the parent's deadline is
  300 seconds above the worker's own CPU limit for any number of threads, so the limit fires first.\<close>

lemma parent_bounds:
  "(read_input path f = Inr bs \<longrightarrow> fi_regular f \<and> fi_bytes f = Some bs \<and> length bs \<le> MAX_INPUT)
   \<and> (clamp_shards_for_input requested n * n \<le> MAX_AGGREGATE_INPUT \<or> clamp_shards_for_input requested n \<le> 1)
   \<and> clamp_shards_for_input requested n \<le> requested \<and> 1 \<le> shard_count env \<and> shard_count env \<le> 64
   \<and> unat (worker_deadline t) = unat (cpu_time_cap t) + 300"
proof (intro conjI)
  show "read_input path f = Inr bs \<longrightarrow> fi_regular f \<and> fi_bytes f = Some bs \<and> length bs \<le> MAX_INPUT"
    by (auto simp: read_input_def Let_def split: if_splits option.splits)
  show "clamp_shards_for_input requested n * n \<le> MAX_AGGREGATE_INPUT \<or> clamp_shards_for_input requested n \<le> 1"
  proof (cases "n = 0 \<or> MAX_AGGREGATE_INPUT div n \<le> 1")
    case True
    then show ?thesis by (auto simp: clamp_shards_for_input_def)
  next
    case False
    then have "clamp_shards_for_input requested n \<le> MAX_AGGREGATE_INPUT div n" by (auto simp: clamp_shards_for_input_def)
    then have "clamp_shards_for_input requested n * n \<le> MAX_AGGREGATE_INPUT div n * n" by (rule mult_le_mono1)
    also have "\<dots> \<le> MAX_AGGREGATE_INPUT" by (rule div_times_less_eq_dividend)
    finally show ?thesis ..
  qed
  show "clamp_shards_for_input requested n \<le> requested" by (simp add: clamp_shards_for_input_def)
  show "1 \<le> shard_count env" "shard_count env \<le> 64" by (simp_all add: shard_count_def split: option.split)
  have "worker_deadline t = sat_add64 (cpu_time_cap t) 300"
    by (simp add: worker_deadline_def cpu_time_cap_def DEADLINE_THREAD_CLAMP_def CPU_THREAD_CLAMP_def CPU_BACKSTOP_WALL_SECS_def)
  moreover have "unat (cpu_time_cap t) \<le> 1920" using limits_bounds [of t] by simp
  ultimately show "unat (worker_deadline t) = unat (cpu_time_cap t) + 300" by (simp add: unat_sat_add64)
qed

text \<open>C4: A worker answers only from inside the jail: if it gives any reply at all, it had dropped the inherited
  descriptors, armed its parent-death signal, set the four resource limits and no new privileges, and installed
  exactly the three filters; if any of that fails it exits with an error that does not depend on the input.\<close>

theorem worker_answers_from_jail:
  assumes "worker_main nr w p tt env op func stdin = Some r" and "installed p = []"
  shows "case r of
      Inr _ \<Rightarrow> (\<exists>p'. installed p' = jail nr \<and> no_new_privs p' \<and> limits p' RCore = Some 0 \<and> limits p' RNofile = Some 64
        \<and> limits p' RCpu = Some (cpu_time_cap (threads w)) \<and> limits p' RAs = Some (addr_space_cap (threads w))
        \<and> lock_down_worker nr w (fst (harden_worker_preinput w p)) = (p', Inr ())
        \<and> pdeathsig (fst (harden_worker_preinput w p)) \<and> set (fds (fst (harden_worker_preinput w p))) \<subseteq> {0, 1, 2})
    | Inl e \<Rightarrow> e = StdinFailed \<and> stdin = None
        \<or> (\<forall>stdin'. worker_main nr w p tt env op func stdin' = Some r)"
proof -
  obtain p1 h where h: "harden_worker_preinput w p = (p1, h)" by fastforce
  show ?thesis
  proof (cases h)
    case (Inl e)
    then show ?thesis using assms(1) h by (auto simp: worker_main_def)
  next
    case (Inr u)
    have p1: "installed p1 = []" "pdeathsig p1" "set (fds p1) \<subseteq> {0, 1, 2}"
      using h Inr assms(2)
      by (auto simp: harden_worker_preinput_def close_inherited_fds_def attempt_def then_do_def split: if_splits option.splits)
    obtain p2 l where l: "lock_down_worker nr w p1 = (p2, l)" by fastforce
    show ?thesis
    proof (cases l)
      case (Inl e)
      then show ?thesis using assms(1) h Inr l by (auto simp: worker_main_def)
    next
      case r: (Inr v)
      then have "lock_down_worker nr w p1 = (p2, Inr ())" using l by simp
      with lock_down_Inr [OF this p1(1)] show ?thesis
        using assms(1) h Inr p1 by (auto simp: worker_main_def Let_def split: option.splits if_splits sum.splits)
    qed
  qed
qed

theorem worker_answers_from_jail_witness:
  "worker_main x86_64_nr quiet_world fresh_worker ret_tools Map.empty ''version'' None (Some []) = Some (Inr (ErrReply ''unknown worker op: version''))
   \<and> (\<exists>p' :: proc. installed p' = jail x86_64_nr \<and> no_new_privs p')"
proof -
  have w: "worker_main x86_64_nr quiet_world fresh_worker ret_tools Map.empty ''version'' None (Some []) = Some (Inr (ErrReply ''unknown worker op: version''))"
    using worker_main_up [OF quiet_jail_up, of "[]" ret_tools Map.empty "''version''" None] by (simp add: worker_reply_def)
  have "installed fresh_worker = []" by (simp add: fresh_worker_def)
  from worker_answers_from_jail [OF w this] obtain p' :: proc where "installed p' = jail x86_64_nr" "no_new_privs p'" by auto
  with w show ?thesis by blast
qed

section \<open>A worker always answers\<close>

lemma emu_config_cap: "instr_cap (emu_config env) < u64_max"
  by (simp add: emu_config_def default_config_def word_less_nat_alt split: option.split)

lemma worker_reply_total:
  assumes "\<And>su. stops_within L (uw_engine (tl_emu tt) su)"
    and "bodies_fit (tl_parse tt) (tl_walk tt) raw"
  shows "\<exists>reply. worker_reply tt env op func raw = Some reply"
proof -
  have "\<exists>r. index_bytes_shard (tl_emu tt) (tl_parse tt) (tl_walk tt) raw (emu_config env) i n = Some r" for i n
    using index_shard_total [OF assms(1) emu_config_cap assms(2)] by blast
  moreover have "\<exists>r. dump_traces (tl_emu tt) (tl_parse tt) (tl_walk tt) raw name (emu_config env) = Some r" for name
    using dump_traces_total [OF assms(1) emu_config_cap assms(2)] by blast
  ultimately show ?thesis
    by (auto simp: worker_reply_def Let_def split: prod.split)
qed

text \<open>C19: A worker never hangs on what it is fed: on an engine that stops when a hook asks it to, a worker given any
  bytes, operation and shard either exits with an error before it reads, or gives a reply, and gives one whenever
  its jail comes up. What it needs of the file is that no discovered function runs past the top of the address
  space.\<close>

theorem worker_always_answers:
  assumes "\<And>su. stops_within L (uw_engine (tl_emu tt) su)"
    and "bodies_fit (tl_parse tt) (tl_walk tt) (take (MAX_INPUT + 1) bs)"
  shows "\<exists>r. worker_main nr w p tt env op func (Some bs) = Some r \<and> (jail_up nr w p \<longleftrightarrow> (\<exists>reply. r = Inr reply))"
proof -
  obtain p1 h where h: "harden_worker_preinput w p = (p1, h)" by fastforce
  obtain p2 l where l: "lock_down_worker nr w p1 = (p2, l)" by fastforce
  obtain reply where "worker_reply tt env op func (take (MAX_INPUT + 1) bs) = Some reply"
    using worker_reply_total [OF assms] by blast
  then show ?thesis using h l
    by (cases h; cases l) (auto simp: worker_main_def jail_up_def Let_def)
qed

theorem worker_always_answers_witness:
  "\<exists>reply. worker_main x86_64_nr quiet_world fresh_worker ret_tools Map.empty ''index'' None (Some tiny_raw) = Some (Inr reply)"
proof -
  have "stops_within 0 (uw_engine (tl_emu ret_tools) su)" for su by (simp add: ret_tools_def ret_world_def ret_engine_stops)
  moreover have "take (MAX_INPUT + 1) tiny_raw = tiny_raw" by (simp add: tiny_length MAX_INPUT_def)
  moreover have "bodies_fit (tl_parse ret_tools) (tl_walk ret_tools) tiny_raw" using tiny_fits by (simp add: ret_tools_def)
  ultimately obtain r where "worker_main x86_64_nr quiet_world fresh_worker ret_tools Map.empty ''index'' None (Some tiny_raw) = Some r"
      "jail_up x86_64_nr quiet_world fresh_worker \<longleftrightarrow> (\<exists>reply. r = Inr reply)"
    using worker_always_answers [of 0 ret_tools tiny_raw x86_64_nr quiet_world fresh_worker Map.empty "''index''" None] by auto
  with quiet_jail_up show ?thesis by blast
qed

end
