(* ===== verification/Align.thy ===== *)
theory Align
  imports Funcs Store
begin

text \<open>
  The 1:1 alignment of two function sets (\<open>crates/fnprint-core/src/align.rs\<close>): candidate pairs from
  the LSH bands, a greedy assignment by score, and rounds that rescore the candidates with the
  call-graph consistency of the current assignment. Arithmetic is \<open>f64\<close> with its rounding, so
  scores are compared exactly as \<open>total_cmp\<close> and \<open>>=\<close> compare them.
\<close>

section \<open>Data\<close>

record Node =
  nd_fp :: Fingerprint
  nd_entry :: u64
  nd_callees :: "u64 list"
  nd_name :: "string option"
  nd_group :: string

definition from_indexed :: "IndexedFunc \<Rightarrow> Node" where
  "from_indexed f = \<lparr>nd_fp = if_fp f, nd_entry = if_entry f, nd_callees = if_callees f,
     nd_name = if_name f, nd_group = ''''\<rparr>"

definition from_rec :: "FuncRec \<Rightarrow> Node" where
  "from_rec r = \<lparr>nd_fp = rec_fp r, nd_entry = rec_entry r, nd_callees = rec_callees r,
     nd_name = rec_name r, nd_group = rec_binary r\<rparr>"

definition GRAPH_WEIGHT :: flt where "GRAPH_WEIGHT = Fin 1"
definition FLOOR :: flt where "FLOOR = fl64 (2 / 10)"

record Opts =
  threshold :: flt
  graph_weight :: flt
  rounds :: nat

definition default_opts :: Opts where
  "default_opts = \<lparr>threshold = fl64 (7 / 10), graph_weight = GRAPH_WEIGHT, rounds = 2\<rparr>"

record Pair =
  pr_a :: nat
  pr_b :: nat
  pr_sim :: flt
  pr_graph :: flt
  pr_score :: flt

record Cand =
  c_a :: nat
  c_b :: nat
  c_sim :: flt
  c_graph :: flt

definition usable :: "Fingerprint \<Rightarrow> bool" where
  "usable p \<longleftrightarrow> MIN_COMPLEXITY \<le> complexity p \<and> 0 < shingles p"

section \<open>Candidates\<close>

text \<open>The band index over the usable functions of \<open>b\<close>.\<close>

definition band_index :: "Node list \<Rightarrow> (nat \<times> u64) \<rightharpoonup> nat list" where
  "band_index b = multimap (concat (map (\<lambda>(j, n).
     if usable (nd_fp n) then map (\<lambda>bk. (bk, j)) (enumerated (band_keys BAND_ROWS (nd_fp n))) else [])
     (enumerated b)))"

definition b_usable :: "Node list \<Rightarrow> nat list" where
  "b_usable b = filter (\<lambda>j. usable (nd_fp (b ! j))) [0..<length b]"

definition pool_of :: "Node list \<Rightarrow> Node \<Rightarrow> nat list" where
  "pool_of b n =
     (let seen = sort_dedup (concat (map (\<lambda>bk. lookup_all (band_index b) bk)
                   (enumerated (band_keys BAND_ROWS (nd_fp n)))))
      in if seen = [] then b_usable b else seen)"

definition candidates :: "Node list \<Rightarrow> Node list \<Rightarrow> Cand list" where
  "candidates a b = concat (map (\<lambda>(i, n).
     if usable (nd_fp n) then
       concat (map (\<lambda>j. let sim = similarity (nd_fp n) (nd_fp (b ! j))
                     in if flt_le FLOOR sim then [\<lparr>c_a = i, c_b = j, c_sim = sim, c_graph = Fin 0\<rparr>] else [])
          (pool_of b n))
     else []) (enumerated a))"

section \<open>The call graph\<close>

definition a_callees_of :: "Node list \<Rightarrow> nat list list" where
  "a_callees_of a =
     (let idx = collect_map (map (\<lambda>(i, n). (nd_entry n, i)) (enumerated a))
      in map (\<lambda>n. List.map_filter idx (nd_callees n)) a)"

definition b_callees_of :: "Node list \<Rightarrow> nat list list" where
  "b_callees_of b =
     (let idx = collect_map (map (\<lambda>(j, n). ((nd_group n, nd_entry n), j)) (enumerated b))
      in map (\<lambda>n. List.map_filter (\<lambda>e. idx (nd_group n, e)) (nd_callees n)) b)"

definition reverse :: "nat list list \<Rightarrow> nat \<Rightarrow> nat list list" where
  "reverse cs n =
     map sort_dedup (foldl (\<lambda>callers (i, c). callers[c := callers ! c @ [i]]) (replicate n [])
       (concat (map (\<lambda>(i, c). map (\<lambda>x. (i, x)) c) (enumerated cs))))"

definition hits :: "nat list \<Rightarrow> nat list \<Rightarrow> nat option list \<Rightarrow> nat" where
  "hits xs ys partner =
     length (filter (\<lambda>x. case partner ! x of None \<Rightarrow> False | Some y \<Rightarrow> binary_search ys y) xs)"

definition graph_score ::
  "nat \<Rightarrow> nat \<Rightarrow> nat option list \<Rightarrow> bool list \<Rightarrow> nat list list \<Rightarrow> nat list list \<Rightarrow> nat list list \<Rightarrow> nat list list \<Rightarrow> flt" where
  "graph_score a b partner b_paired a_callees a_callers b_callees b_callers =
     (let na = length (filter (\<lambda>x. partner ! x \<noteq> None) (a_callees ! a))
             + length (filter (\<lambda>x. partner ! x \<noteq> None) (a_callers ! a));
          nb = length (filter (\<lambda>y. b_paired ! y) (b_callees ! b))
             + length (filter (\<lambda>y. b_paired ! y) (b_callers ! b))
      in if na + nb = 0 then Fin 0
         else let hit = hits (a_callees ! a) (b_callees ! b) partner
                      + hits (a_callers ! a) (b_callers ! b) partner
              in fdiv binary64 (f64_of_nat (2 * hit)) (f64_of_nat (na + nb)))"

section \<open>Greedy assignment\<close>

text \<open>The rank of a candidate, and the comparator of \<open>assign_greedy\<close> as a sort key.\<close>

definition rank :: "flt \<Rightarrow> Cand \<Rightarrow> flt" where
  "rank w c = fadd binary64 (c_sim c) (fmul binary64 w (c_graph c))"

definition greedy_key :: "flt \<Rightarrow> Node list \<Rightarrow> Node list \<Rightarrow> Cand \<Rightarrow> flt desc \<times> flt desc \<times> u64 \<times> string \<times> u64" where
  "greedy_key w a b c =
     (Desc (rank w c), Desc (c_sim c), nd_entry (a ! c_a c), nd_group (b ! c_b c), nd_entry (b ! c_b c))"

definition pair_of :: "flt \<Rightarrow> Cand \<Rightarrow> Pair" where
  "pair_of w c = \<lparr>pr_a = c_a c, pr_b = c_b c, pr_sim = c_sim c, pr_graph = c_graph c,
     pr_score = fmin (rank w c) (Fin 1)\<rparr>"

fun greedy_loop :: "flt \<Rightarrow> bool list \<Rightarrow> bool list \<Rightarrow> Cand list \<Rightarrow> Pair list" where
  "greedy_loop w a_taken b_taken [] = []"
| "greedy_loop w a_taken b_taken (c # cs) =
     (if a_taken ! c_a c \<or> b_taken ! c_b c then greedy_loop w a_taken b_taken cs
      else pair_of w c # greedy_loop w (a_taken[c_a c := True]) (b_taken[c_b c := True]) cs)"

text \<open>The candidates come back in their sorted order: the source sorts them in place.\<close>

definition assign_greedy :: "Cand list \<Rightarrow> Node list \<Rightarrow> Node list \<Rightarrow> flt \<Rightarrow> Cand list \<times> Pair list" where
  "assign_greedy cs a b w =
     (let cs' = sort_key (greedy_key w a b) cs
      in (cs', sort_key pr_a (greedy_loop w (replicate (length a) False) (replicate (length b) False) cs')))"

section \<open>Rounds\<close>

definition partner_of :: "nat \<Rightarrow> Pair list \<Rightarrow> nat option list" where
  "partner_of n ps = foldl (\<lambda>v p. v[pr_a p := Some (pr_b p)]) (replicate n None) ps"

definition paired_of :: "(Pair \<Rightarrow> nat) \<Rightarrow> nat \<Rightarrow> Pair list \<Rightarrow> bool list" where
  "paired_of f n ps = foldl (\<lambda>v p. v[f p := True]) (replicate n False) ps"

text \<open>\<open>PartialEq\<close> on pairs compares the \<open>f64\<close> fields with \<open>==\<close>, false on NaN.\<close>

definition flt_eq :: "flt \<Rightarrow> flt \<Rightarrow> bool" where
  "flt_eq x y \<longleftrightarrow> x \<noteq> NaN \<and> x = y"

definition pair_eq :: "Pair \<Rightarrow> Pair \<Rightarrow> bool" where
  "pair_eq p q \<longleftrightarrow> pr_a p = pr_a q \<and> pr_b p = pr_b q \<and> flt_eq (pr_sim p) (pr_sim q)
     \<and> flt_eq (pr_graph p) (pr_graph q) \<and> flt_eq (pr_score p) (pr_score q)"

definition rescore :: "Node list \<Rightarrow> Node list \<Rightarrow> Pair list \<Rightarrow> Cand list \<Rightarrow> Cand list" where
  "rescore a b ps cs =
     (let partner = partner_of (length a) ps;
          b_paired = paired_of pr_b (length b) ps;
          a_callees = a_callees_of a; b_callees = b_callees_of b;
          a_callers = reverse a_callees (length a); b_callers = reverse b_callees (length b)
      in map (\<lambda>c. c\<lparr>c_graph := graph_score (c_a c) (c_b c) partner b_paired
                   a_callees a_callers b_callees b_callers\<rparr>) cs)"

fun align_rounds :: "nat \<Rightarrow> Node list \<Rightarrow> Node list \<Rightarrow> flt \<Rightarrow> Cand list \<Rightarrow> Pair list \<Rightarrow> Pair list" where
  "align_rounds 0 a b w cs asg = asg"
| "align_rounds (Suc n) a b w cs asg =
     (let (cs', next) = assign_greedy (rescore a b asg cs) a b w
      in if list_all2 pair_eq next asg then next else align_rounds n a b w cs' next)"

definition align :: "Node list \<Rightarrow> Node list \<Rightarrow> Opts \<Rightarrow> Pair list" where
  "align a b opts =
     (let w = fmax (graph_weight opts) (Fin 0);
          n = (if flt_less (Fin 0) w then rounds opts else 0);
          (cs, asg) = assign_greedy (candidates a b) a b w;
          out = filter (\<lambda>p. flt_le (threshold opts) (pr_score p)) (align_rounds n a b w cs asg)
      in sort_key (\<lambda>p. (Desc (pr_score p), Desc (pr_sim p), nd_entry (a ! pr_a p))) out)"

section \<open>Greedy selection, abstractly\<close>

text \<open>The specification of the loop: the two sides claimed so far are sets.\<close>

fun greedy_sel :: "('c \<Rightarrow> nat) \<Rightarrow> ('c \<Rightarrow> nat) \<Rightarrow> nat set \<Rightarrow> nat set \<Rightarrow> 'c list \<Rightarrow> 'c list" where
  "greedy_sel l r A B [] = []"
| "greedy_sel l r A B (c # cs) =
     (if l c \<in> A \<or> r c \<in> B then greedy_sel l r A B cs
      else c # greedy_sel l r (insert (l c) A) (insert (r c) B) cs)"

lemma greedy_sel_subset: "set (greedy_sel l r A B cs) \<subseteq> set cs"
  by (induction l r A B cs rule: greedy_sel.induct) auto

lemma greedy_sel_fresh: "c \<in> set (greedy_sel l r A B cs) \<Longrightarrow> l c \<notin> A \<and> r c \<notin> B"
  by (induction l r A B cs rule: greedy_sel.induct) (auto split: if_splits)

lemma greedy_sel_distinct: "distinct (map l (greedy_sel l r A B cs)) \<and> distinct (map r (greedy_sel l r A B cs))"
  by (induction l r A B cs rule: greedy_sel.induct) (auto dest: greedy_sel_fresh)

text \<open>Nothing is passed over without a claim of one of its sides by something ranked no lower.\<close>

lemma greedy_sel_maximal:
  fixes k :: "'c \<Rightarrow> 'k::linorder"
  assumes "sorted (map k cs)" and "c \<in> set cs" and "l c \<notin> A" and "r c \<notin> B"
  shows "\<exists>d \<in> set (greedy_sel l r A B cs). (l d = l c \<or> r d = r c) \<and> k d \<le> k c"
  using assms
proof (induction l r A B cs rule: greedy_sel.induct)
  case (2 l r A B d cs)
  show ?case
  proof (cases "c = d")
    case True
    then show ?thesis using "2.prems" by auto
  next
    case False
    then have c: "c \<in> set cs" and kd: "k d \<le> k c" using "2.prems" by auto
    show ?thesis
    proof (cases "l d \<in> A \<or> r d \<in> B")
      case True
      then show ?thesis using "2.IH"(1) "2.prems" c by simp
    next
      case new: False
      show ?thesis
      proof (cases "l c = l d \<or> r c = r d")
        case True
        then show ?thesis using new kd by auto
      next
        case False
        then have "\<exists>d' \<in> set (greedy_sel l r (insert (l d) A) (insert (r d) B) cs).
            (l d' = l c \<or> r d' = r c) \<and> k d' \<le> k c"
          using "2.IH"(2) [OF new] "2.prems" c by simp
        then show ?thesis using new by auto
      qed
    qed
  qed
qed simp

text \<open>The indices a \<open>Vec<bool>\<close> marks.\<close>

definition marked :: "bool list \<Rightarrow> nat set" where
  "marked v = {i. i < length v \<and> v ! i}"

lemma marked_update [simp]: "k < length v \<Longrightarrow> marked (v[k := True]) = insert k (marked v)"
  by (auto simp: marked_def nth_list_update)

lemma marked_replicate [simp]: "marked (replicate n False) = {}"
  by (auto simp: marked_def)

lemma marked_iff: "k < length v \<Longrightarrow> k \<in> marked v \<longleftrightarrow> v ! k"
  by (simp add: marked_def)

lemma greedy_loop_sel:
  assumes "\<forall>c \<in> set cs. c_a c < length ta \<and> c_b c < length tb"
  shows "greedy_loop w ta tb cs = map (pair_of w) (greedy_sel c_a c_b (marked ta) (marked tb) cs)"
  using assms
  by (induction w ta tb cs rule: greedy_loop.induct) (simp_all add: marked_iff)

section \<open>The assignment\<close>

text \<open>Candidates that index the two sides.\<close>

definition in_range :: "Node list \<Rightarrow> Node list \<Rightarrow> Cand list \<Rightarrow> bool" where
  "in_range a b cs \<longleftrightarrow> (\<forall>c \<in> set cs. c_a c < length a \<and> c_b c < length b)"

lemma assign_greedy_sel:
  assumes "in_range a b cs"
  shows "snd (assign_greedy cs a b w) = sort_key pr_a (map (pair_of w) (greedy_sel c_a c_b {} {} (sort_key (greedy_key w a b) cs)))"
  using assms by (simp add: assign_greedy_def Let_def greedy_loop_sel in_range_def)

lemma pair_of_sel [simp]: "pr_a (pair_of w c) = c_a c" "pr_b (pair_of w c) = c_b c"
  "pr_sim (pair_of w c) = c_sim c" "pr_graph (pair_of w c) = c_graph c"
  "pr_score (pair_of w c) = fmin (rank w c) (Fin 1)"
  by (simp_all add: pair_of_def)

lemma distinct_map_sort_key: "distinct (map f (sort_key k xs)) \<longleftrightarrow> distinct (map f xs)"
  by (simp add: distinct_map)

lemma assign_greedy_distinct:
  assumes "in_range a b cs"
  shows "distinct (map pr_a (snd (assign_greedy cs a b w)))" and "distinct (map pr_b (snd (assign_greedy cs a b w)))"
  using greedy_sel_distinct [of c_a c_b "{}" "{}" "sort_key (greedy_key w a b) cs"]
  by (simp_all add: assign_greedy_sel [OF assms] distinct_map_sort_key o_def)

lemma assign_greedy_from:
  assumes "in_range a b cs" and "p \<in> set (snd (assign_greedy cs a b w))"
  shows "\<exists>c \<in> set cs. p = pair_of w c"
  using assms(2) greedy_sel_subset [of c_a c_b "{}" "{}" "sort_key (greedy_key w a b) cs"]
  by (auto simp: assign_greedy_sel [OF assms(1)])

lemma assign_greedy_maximal:
  assumes "in_range a b cs" and "c \<in> set cs"
  shows "\<exists>d \<in> set cs. pair_of w d \<in> set (snd (assign_greedy cs a b w))
    \<and> (c_a d = c_a c \<or> c_b d = c_b c) \<and> greedy_key w a b d \<le> greedy_key w a b c"
proof -
  have "\<exists>d \<in> set (greedy_sel c_a c_b {} {} (sort_key (greedy_key w a b) cs)).
      (c_a d = c_a c \<or> c_b d = c_b c) \<and> greedy_key w a b d \<le> greedy_key w a b c"
    by (rule greedy_sel_maximal) (use assms(2) in simp_all)
  then show ?thesis
    using greedy_sel_subset [of c_a c_b "{}" "{}" "sort_key (greedy_key w a b) cs"]
    by (auto simp: assign_greedy_sel [OF assms(1)])
qed

lemma mset_assign_greedy [simp]: "mset (fst (assign_greedy cs a b w)) = mset cs"
  by (simp add: assign_greedy_def Let_def)

section \<open>Rounds keep the candidates\<close>

text \<open>What rescoring does not touch.\<close>

definition core :: "Cand \<Rightarrow> nat \<times> nat \<times> flt" where
  "core c = (c_a c, c_b c, c_sim c)"

lemma core_rescore [simp]: "map core (rescore a b ps cs) = map core cs"
  by (simp add: rescore_def core_def Let_def o_def)

lemma set_core_in_range: "set (map core cs) = set (map core ds) \<Longrightarrow> in_range a b cs \<longleftrightarrow> in_range a b ds"
proof -
  have "in_range a b cs \<longleftrightarrow> (\<forall>x \<in> set (map core cs). fst x < length a \<and> fst (snd x) < length b)" for cs
    by (simp add: in_range_def core_def)
  then show "set (map core cs) = set (map core ds) \<Longrightarrow> in_range a b cs \<longleftrightarrow> in_range a b ds" by presburger
qed

lemma set_map_mset_cong: "mset xs = mset ys \<Longrightarrow> set (map f xs) = set (map f ys)"
  by (metis set_map set_mset_mset)

lemma align_rounds_from:
  assumes "asg = snd (assign_greedy cs0 a b w)" and "set (map core cs0) = set (map core cs)"
  shows "\<exists>ds. set (map core ds) = set (map core cs)
    \<and> align_rounds n a b w cs asg = snd (assign_greedy ds a b w)"
  using assms
proof (induction n arbitrary: cs asg cs0)
  case 0
  then show ?case by auto
next
  case (Suc n)
  obtain cs' nx where g: "assign_greedy (rescore a b asg cs) a b w = (cs', nx)" by fastforce
  then have nx: "nx = snd (assign_greedy (rescore a b asg cs) a b w)"
    and cs': "mset cs' = mset (rescore a b asg cs)"
    using mset_assign_greedy [of "rescore a b asg cs" a b w] by simp_all
  have core: "set (map core (rescore a b asg cs)) = set (map core cs)" by simp
  show ?case
  proof (cases "list_all2 pair_eq nx asg")
    case True
    then have "align_rounds (Suc n) a b w cs asg = nx" using g by simp
    with nx core show ?thesis by blast
  next
    case False
    have same: "set (map core (rescore a b asg cs)) = set (map core cs')"
      by (rule set_map_mset_cong) (simp add: cs')
    from Suc.IH [OF nx this] obtain ds where "set (map core ds) = set (map core cs')"
        "align_rounds n a b w cs' nx = snd (assign_greedy ds a b w)" by blast
    moreover have "align_rounds (Suc n) a b w cs asg = align_rounds n a b w cs' nx" using False g by simp
    moreover have "set (map core cs') = set (map core cs)" using same core by (simp only:)
    ultimately show ?thesis by (metis (full_types))
  qed
qed

section \<open>The candidate pool\<close>

lemma set_lookup_band_index:
  "set (lookup_all (band_index b) bk)
   = {j. j < length b \<and> usable (nd_fp (b ! j)) \<and> bk \<in> set (enumerated (band_keys BAND_ROWS (nd_fp (b ! j))))}"
proof -
  let ?f = "\<lambda>(j, n). if usable (nd_fp n) then map (\<lambda>bk. (bk, j)) (enumerated (band_keys BAND_ROWS (nd_fp n))) else []"
  have "(bk, j) \<in> set (concat (map ?f (enumerated b))) \<longleftrightarrow>
      j < length b \<and> usable (nd_fp (b ! j)) \<and> bk \<in> set (enumerated (band_keys BAND_ROWS (nd_fp (b ! j))))" for j
    unfolding set_concat_pairs by (auto simp: set_enumerated [of b])
  moreover have "set (lookup_all (band_index b) bk) = {j. (bk, j) \<in> set (concat (map ?f (enumerated b)))}"
    unfolding band_index_def set_lookup_multimap ..
  ultimately show ?thesis by simp
qed

lemma set_seen:
  "set (concat (map (\<lambda>bk. lookup_all (band_index b) bk) (enumerated (band_keys BAND_ROWS p))))
   = {j. j < length b \<and> usable (nd_fp (b ! j)) \<and> shares_band p (nd_fp (b ! j))}"
  by (simp only: set_concat set_map image_image set_lookup_band_index shares_band_set) blast

lemma set_pool_of: "j \<in> set (pool_of b n) \<Longrightarrow> j < length b \<and> usable (nd_fp (b ! j))"
  using set_seen [of b "nd_fp n"] by (auto simp: pool_of_def Let_def b_usable_def split: if_splits)

lemma pool_of_shares:
  assumes "j < length b" "usable (nd_fp (b ! j))" "shares_band (nd_fp n) (nd_fp (b ! j))"
  shows "j \<in> set (pool_of b n)"
proof -
  let ?seen = "concat (map (\<lambda>bk. lookup_all (band_index b) bk) (enumerated (band_keys BAND_ROWS (nd_fp n))))"
  have j: "j \<in> set ?seen" using assms by (simp only: set_seen mem_Collect_eq)
  then have "?seen \<noteq> []" by (metis empty_iff empty_set)
  then have "pool_of b n = sort_dedup ?seen" by (simp only: pool_of_def Let_def sort_dedup_eq_Nil if_False)
  with j show ?thesis by (simp only: set_sort_dedup)
qed

text \<open>What every candidate is.\<close>

definition cand_ok :: "Node list \<Rightarrow> Node list \<Rightarrow> nat \<times> nat \<times> flt \<Rightarrow> bool" where
  "cand_ok a b = (\<lambda>(i, j, s). i < length a \<and> j < length b \<and> usable (nd_fp (a ! i)) \<and> usable (nd_fp (b ! j))
     \<and> s = similarity (nd_fp (a ! i)) (nd_fp (b ! j)) \<and> flt_le FLOOR s)"

lemma set_candidates:
  "c \<in> set (candidates a b) \<longleftrightarrow>
   (\<exists>i j. i < length a \<and> usable (nd_fp (a ! i)) \<and> j \<in> set (pool_of b (a ! i))
     \<and> flt_le FLOOR (similarity (nd_fp (a ! i)) (nd_fp (b ! j)))
     \<and> c = \<lparr>c_a = i, c_b = j, c_sim = similarity (nd_fp (a ! i)) (nd_fp (b ! j)), c_graph = Fin 0\<rparr>)"
  unfolding candidates_def set_concat_pairs
  by (auto simp: set_enumerated Let_def split: if_splits; blast)

lemma candidates_ok: "c \<in> set (candidates a b) \<Longrightarrow> cand_ok a b (core c)"
  by (auto simp: set_candidates cand_ok_def core_def dest: set_pool_of)

lemma candidates_in_range: "in_range a b (candidates a b)"
  using candidates_ok by (fastforce simp: in_range_def cand_ok_def core_def)

text \<open>The pairs \<open>align\<close> returns come from one greedy assignment of the rescored candidates.\<close>

lemma align_from:
  obtains w ds where "set (map core ds) = set (map core (candidates a b))" and "in_range a b ds"
    and "w = fmax (graph_weight opts) (Fin 0)"
    and "align a b opts = sort_key (\<lambda>p. (Desc (pr_score p), Desc (pr_sim p), nd_entry (a ! pr_a p)))
      (filter (\<lambda>p. flt_le (threshold opts) (pr_score p)) (snd (assign_greedy ds a b w)))"
    and "\<not> flt_less (Fin 0) w \<Longrightarrow> ds = candidates a b"
proof -
  define w where "w = fmax (graph_weight opts) (Fin 0)"
  define n where "n = (if flt_less (Fin 0) w then rounds opts else 0)"
  obtain cs asg where g: "assign_greedy (candidates a b) a b w = (cs, asg)" by fastforce
  then have asg: "asg = snd (assign_greedy (candidates a b) a b w)" and cs: "mset cs = mset (candidates a b)"
    using mset_assign_greedy [of "candidates a b" a b w] by simp_all
  have "set (map core (candidates a b)) = set (map core cs)"
    by (rule set_map_mset_cong) (simp add: cs)
  with align_rounds_from [OF asg this] obtain ds
    where ds: "set (map core ds) = set (map core (candidates a b))"
      "align_rounds n a b w cs asg = snd (assign_greedy ds a b w)" by metis
  define es where "es = (if n = 0 then candidates a b else ds)"
  have es: "set (map core es) = set (map core (candidates a b))"
    "align_rounds n a b w cs asg = snd (assign_greedy es a b w)"
  proof -
    show "set (map core es) = set (map core (candidates a b))" using ds(1) by (simp add: es_def)
    show "align_rounds n a b w cs asg = snd (assign_greedy es a b w)"
    proof (cases n)
      case 0
      then show ?thesis using asg by (simp add: es_def)
    qed (use ds(2) in \<open>simp add: es_def\<close>)
  qed
  show thesis
  proof (rule that [of es w])
    show "in_range a b es" using set_core_in_range [OF es(1)] candidates_in_range by blast
    show "align a b opts = sort_key (\<lambda>p. (Desc (pr_score p), Desc (pr_sim p), nd_entry (a ! pr_a p)))
      (filter (\<lambda>p. flt_le (threshold opts) (pr_score p)) (snd (assign_greedy es a b w)))"
      using es(2) g by (simp add: align_def Let_def w_def n_def)
    show "set (map core es) = set (map core (candidates a b))" by (rule es(1))
  qed (simp_all add: w_def es_def n_def)
qed

lemma align_pair_ok:
  assumes "p \<in> set (align a b opts)"
  shows "cand_ok a b (pr_a p, pr_b p, pr_sim p)" and "flt_le (threshold opts) (pr_score p)"
    and "pr_score p \<le> Fin 1"
proof -
  obtain w ds where ds: "set (map core ds) = set (map core (candidates a b))" "in_range a b ds"
    and al: "align a b opts = sort_key (\<lambda>p. (Desc (pr_score p), Desc (pr_sim p), nd_entry (a ! pr_a p)))
      (filter (\<lambda>p. flt_le (threshold opts) (pr_score p)) (snd (assign_greedy ds a b w)))"
    by (rule align_from [of a b opts]) blast
  from assms have p: "p \<in> set (snd (assign_greedy ds a b w))" and t: "flt_le (threshold opts) (pr_score p)"
    by (simp_all add: al)
  from assign_greedy_from [OF ds(2) p] obtain c where c: "c \<in> set ds" "p = pair_of w c" by blast
  have "core c \<in> set (map core (candidates a b))" using ds(1) c(1) by (metis image_eqI set_map)
  then obtain d where "d \<in> set (candidates a b)" "core c = core d" by auto
  with candidates_ok have "cand_ok a b (core c)" by metis
  then show "cand_ok a b (pr_a p, pr_b p, pr_sim p)" by (simp add: c core_def)
  show "flt_le (threshold opts) (pr_score p)" by (rule t)
  show "pr_score p \<le> Fin 1" by (simp add: c fmin_def)
qed

lemma align_distinct: "distinct (map pr_a (align a b opts)) \<and> distinct (map pr_b (align a b opts))"
proof -
  obtain w ds where ds: "in_range a b ds"
    and al: "align a b opts = sort_key (\<lambda>p. (Desc (pr_score p), Desc (pr_sim p), nd_entry (a ! pr_a p)))
      (filter (\<lambda>p. flt_le (threshold opts) (pr_score p)) (snd (assign_greedy ds a b w)))"
    by (rule align_from [of a b opts]) blast
  show ?thesis
    using assign_greedy_distinct [OF ds, of w] unfolding al distinct_map_sort_key
    by (simp add: distinct_map_filter)
qed

section \<open>Graph consistency\<close>

lemma length_fold_update: "length (foldl (\<lambda>v p. v[f p := g v p]) v ps) = length v"
  by (induction ps arbitrary: v) simp_all

lemma partner_of_nth:
  assumes "distinct (map pr_a ps)" and "\<forall>p \<in> set ps. pr_a p < n" and "x < n"
  shows "partner_of n ps ! x = Some y \<longleftrightarrow> (\<exists>p \<in> set ps. pr_a p = x \<and> pr_b p = y)"
proof -
  have "foldl (\<lambda>v p. v[pr_a p := Some (pr_b p)]) v ps ! x = Some y \<longleftrightarrow>
      (\<exists>p \<in> set ps. pr_a p = x \<and> pr_b p = y) \<or> (x \<notin> pr_a ` set ps \<and> v ! x = Some y)"
    if "length v = n" for v
    using assms(1,2) that
  proof (induction ps arbitrary: v)
    case (Cons p ps)
    then show ?case using assms(3) by (auto simp: nth_list_update)
  qed simp
  from this [of "replicate n None"] show ?thesis using assms(3) by (simp add: partner_of_def)
qed

lemma paired_of_nth:
  assumes "\<forall>p \<in> set ps. f p < n" and "y < n"
  shows "paired_of f n ps ! y \<longleftrightarrow> y \<in> f ` set ps"
proof -
  have "foldl (\<lambda>v p. v[f p := True]) v ps ! y \<longleftrightarrow> y \<in> f ` set ps \<or> v ! y" if "length v = n" for v
    using assms(1) that
  proof (induction ps arbitrary: v)
    case (Cons p ps)
    then show ?case using assms(2) by (auto simp: nth_list_update)
  qed simp
  from this [of "replicate n False"] show ?thesis using assms(2) by (simp add: paired_of_def)
qed

text \<open>Each neighbour of \<open>a\<close> that hits does so at its own paired neighbour of \<open>b\<close>.\<close>

lemma hits_le:
  assumes ps: "distinct (map pr_a ps)" "distinct (map pr_b ps)" "\<forall>p \<in> set ps. pr_a p < m \<and> pr_b p < n"
    and xs: "distinct xs" "\<forall>x \<in> set xs. x < m" and ys: "\<forall>y \<in> set ys. y < n"
  shows "hits xs ys (partner_of m ps) \<le> length (filter (\<lambda>x. partner_of m ps ! x \<noteq> None) xs)"
    and "hits xs ys (partner_of m ps) \<le> length (filter (\<lambda>y. paired_of pr_b n ps ! y) ys)"
proof -
  let ?P = "partner_of m ps"
  let ?hit = "\<lambda>x. case ?P ! x of None \<Rightarrow> False | Some y \<Rightarrow> binary_search ys y"
  have "filter ?hit xs = filter ?hit (filter (\<lambda>x. ?P ! x \<noteq> None) xs)"
    by (auto intro!: filter_cong split: option.splits)
  then show "hits xs ys ?P \<le> length (filter (\<lambda>x. ?P ! x \<noteq> None) xs)"
    unfolding hits_def by (metis length_filter_le)
  have bs: "binary_search ys y \<Longrightarrow> y \<in> set ys" for y
    by (rule binary_search_sound)
  have inj: "inj_on (\<lambda>x. the (?P ! x)) (set (filter ?hit xs))"
  proof (rule inj_onI)
    fix x x' assume x: "x \<in> set (filter ?hit xs)" "x' \<in> set (filter ?hit xs)" and eq: "the (?P ! x) = the (?P ! x')"
    then obtain y where y: "?P ! x = Some y" "?P ! x' = Some y" by (auto split: option.splits)
    have "x < m" "x' < m" using x xs(2) by auto
    with y obtain p q where "p \<in> set ps" "pr_a p = x" "pr_b p = y" "q \<in> set ps" "pr_a q = x'" "pr_b q = y"
      using partner_of_nth [OF ps(1)] ps(3) by meson
    with ps(2) show "x = x'" by (metis distinct_map inj_onD)
  qed
  have "(\<lambda>x. the (?P ! x)) ` set (filter ?hit xs) \<subseteq> set (filter (\<lambda>y. paired_of pr_b n ps ! y) ys)"
  proof
    fix y assume "y \<in> (\<lambda>x. the (?P ! x)) ` set (filter ?hit xs)"
    then obtain x where x: "x \<in> set xs" "?P ! x = Some y" "binary_search ys y"
      by (auto split: option.splits)
    moreover have "y \<in> set ys" using x(3) by (rule bs)
    moreover have "y \<in> pr_b ` set ps"
      using x partner_of_nth [OF ps(1), of m x y] ps(3) xs(2) by auto
    ultimately show "y \<in> set (filter (\<lambda>y. paired_of pr_b n ps ! y) ys)"
      using paired_of_nth [of ps pr_b n y] ps(3) ys by auto
  qed
  then have "card ((\<lambda>x. the (?P ! x)) ` set (filter ?hit xs)) \<le> card (set (filter (\<lambda>y. paired_of pr_b n ps ! y) ys))"
    by (intro card_mono) simp_all
  also have "\<dots> \<le> length (filter (\<lambda>y. paired_of pr_b n ps ! y) ys)" by (rule card_length)
  finally show "hits xs ys ?P \<le> length (filter (\<lambda>y. paired_of pr_b n ps ! y) ys)"
    by (simp only: card_image [OF inj] distinct_card [OF distinct_filter [OF xs(1)]] hits_def)
qed

lemma graph_score_unit:
  assumes ps: "distinct (map pr_a ps)" "distinct (map pr_b ps)" "\<forall>p \<in> set ps. pr_a p < m \<and> pr_b p < n"
    and a: "distinct (ac ! i)" "\<forall>x \<in> set (ac ! i). x < m" "distinct (ar ! i)" "\<forall>x \<in> set (ar ! i). x < m"
    and b: "\<forall>y \<in> set (bc ! j). y < n" "\<forall>y \<in> set (br ! j). y < n"
    and big: "length (ac ! i) + length (ar ! i) + length (bc ! j) + length (br ! j) \<le> 2 ^ 64"
  shows "\<exists>r. graph_score i j (partner_of m ps) (paired_of pr_b n ps) ac ar bc br = Fin r \<and> 0 \<le> r \<and> r \<le> 1"
proof -
  let ?P = "partner_of m ps" and ?Q = "paired_of pr_b n ps"
  define na where "na = length (filter (\<lambda>x. ?P ! x \<noteq> None) (ac ! i)) + length (filter (\<lambda>x. ?P ! x \<noteq> None) (ar ! i))"
  define nb where "nb = length (filter (\<lambda>y. ?Q ! y) (bc ! j)) + length (filter (\<lambda>y. ?Q ! y) (br ! j))"
  define hit where "hit = hits (ac ! i) (bc ! j) ?P + hits (ar ! i) (br ! j) ?P"
  have eq: "graph_score i j ?P ?Q ac ar bc br
      = (if na + nb = 0 then Fin 0 else fdiv binary64 (f64_of_nat (2 * hit)) (f64_of_nat (na + nb)))"
    by (simp add: graph_score_def na_def nb_def hit_def Let_def)
  have "hit \<le> na" "hit \<le> nb"
    unfolding hit_def na_def nb_def
    using hits_le [OF ps a(1,2) b(1)] hits_le [OF ps a(3,4) b(2)] by (simp_all only: add_mono)
  then have le: "2 * hit \<le> na + nb" by simp
  have bound: "na + nb \<le> 2 ^ 64"
    unfolding na_def nb_def
    by (rule order.trans [OF _ big]) (simp only: add.assoc, intro add_mono length_filter_le)
  show ?thesis
  proof (cases "na + nb = 0")
    case False
    then show ?thesis using fdiv_nat_unit [OF le _ bound] by (simp add: eq)
  qed (simp add: eq)
qed

lemma length_push_fold [simp]:
  "length (foldl (\<lambda>callers (k, c). callers[c := callers ! c @ [k]]) v kcs) = length v"
  by (induction kcs arbitrary: v) (auto simp: split_beta)

lemma set_push_fold:
  "i < length v \<Longrightarrow> \<forall>kc \<in> set kcs. snd kc < length v \<Longrightarrow>
   set (foldl (\<lambda>callers (k, c). callers[c := callers ! c @ [k]]) v kcs ! i) = set (v ! i) \<union> {k. (k, i) \<in> set kcs}"
  by (induction kcs arbitrary: v) (auto simp: nth_list_update split: if_splits)

lemma set_reverse:
  assumes "i < n" and "\<forall>c \<in> set cs. \<forall>x \<in> set c. x < n"
  shows "set (reverse cs n ! i) = {k. k < length cs \<and> i \<in> set (cs ! k)}"
proof -
  define kcs where "kcs = concat (map (\<lambda>(i, c). map (\<lambda>x. (i, x)) c) (enumerated cs))"
  have mem: "(k, x) \<in> set kcs \<longleftrightarrow> k < length cs \<and> x \<in> set (cs ! k)" for k x
    unfolding kcs_def set_concat_pairs by (auto simp: set_enumerated)
  have "\<forall>kc \<in> set kcs. snd kc < n"
    using assms(2) nth_mem by (fastforce simp: mem)
  then have "set (foldl (\<lambda>callers (k, c). callers[c := callers ! c @ [k]]) (replicate n []) kcs ! i)
      = set (replicate n [] ! i) \<union> {k. (k, i) \<in> set kcs}"
    using assms(1) by (intro set_push_fold) simp_all
  then show ?thesis using assms(1) by (simp add: reverse_def kcs_def [symmetric] mem)
qed

lemma length_reverse [simp]: "length (reverse cs n) = n"
  by (simp add: reverse_def)

lemma distinct_reverse: "i < n \<Longrightarrow> distinct (reverse cs n ! i)" "i < n \<Longrightarrow> sorted (reverse cs n ! i)"
  using length_reverse [of cs n] by (simp_all add: reverse_def)

lemma set_map_filter_Some: "set (List.map_filter f xs) = {v. \<exists>x \<in> set xs. f x = Some v}"
  by (force simp: map_filter_def)

lemma collect_map_enum:
  "collect_map (map (\<lambda>(i, n). (f n, i)) (enumerated a)) e = Some i \<Longrightarrow> i < length a \<and> f (a ! i) = e"
  by (auto dest!: collect_map_SomeD simp: set_enumerated)

lemma a_callees_of_nth: "i < length a \<Longrightarrow> set (a_callees_of a ! i) \<subseteq> {..<length a}"
  using collect_map_enum [where f = nd_entry and a = a]
  by (auto simp: a_callees_of_def set_map_filter_Some Let_def)

lemma b_callees_of_nth: "j < length b \<Longrightarrow> set (b_callees_of b ! j) \<subseteq> {..<length b}"
  using collect_map_enum [where f = "\<lambda>n. (nd_group n, nd_entry n)" and a = b]
  by (auto simp: b_callees_of_def set_map_filter_Some Let_def)

lemma length_callees_of [simp]: "length (a_callees_of a) = length a" "length (b_callees_of b) = length b"
  by (simp_all add: a_callees_of_def b_callees_of_def)

lemma distinct_map_filter_inj:
  assumes "distinct xs" and "\<And>x y v. f x = Some v \<Longrightarrow> f y = Some v \<Longrightarrow> x = y"
  shows "distinct (List.map_filter f xs)"
  using assms(1)
proof (induction xs)
  case (Cons x xs)
  then show ?case using assms(2) by (cases "f x") (fastforce simp: map_filter_simps map_filter_def)+
qed (simp add: map_filter_simps)

lemma distinct_a_callees:
  assumes "i < length a" and "distinct (nd_callees (a ! i))"
  shows "distinct (a_callees_of a ! i)"
proof -
  have "distinct (List.map_filter (collect_map (map (\<lambda>(i, n). (nd_entry n, i)) (enumerated a))) (nd_callees (a ! i)))"
    by (rule distinct_map_filter_inj [OF assms(2)]) (auto dest!: collect_map_enum)
  then show ?thesis using assms(1) by (simp add: a_callees_of_def)
qed

lemma FLOOR_le: "FLOOR \<le> Fin (3 / 4)"
proof -
  have "FLOOR \<le> fl64 (of_nat 96 / 128)" unfolding FLOOR_def by (rule fl_mono) simp_all
  also have "fl64 (of_nat 96 / 128) = Fin (3 / 4)" by (subst fl64_128ths) simp_all
  finally show ?thesis .
qed

lemma rank_flat:
  assumes "wf_fp (nd_fp (a ! c_a c))" "wf_fp (nd_fp (b ! c_b c))" "c \<in> set (candidates a b)"
  shows "rank (Fin 0) c = c_sim c"
proof -
  let ?p = "nd_fp (a ! c_a c)" and ?q = "nd_fp (b ! c_b c)"
  have c: "c_sim c = similarity ?p ?q" "c_graph c = Fin 0" using assms(3) by (auto simp: set_candidates)
  have s: "similarity ?p ?q = Fin (of_nat (agree (sig ?p) (sig ?q)) / 128)"
    using assms by (simp add: similarity_128)
  have "agree (sig ?p) (sig ?q) \<le> 128" using agree_le(1) [of "sig ?p" "sig ?q"] assms by simp
  then have "fl64 (of_nat (agree (sig ?p) (sig ?q)) / 128) = Fin (of_nat (agree (sig ?p) (sig ?q)) / 128)"
    by (rule fl64_128ths)
  then show ?thesis by (simp add: rank_def c s)
qed

text \<open>Both sides of an alignment hold full signatures.\<close>

definition wf_nodes :: "Node list \<Rightarrow> bool" where
  "wf_nodes a \<longleftrightarrow> list_all (\<lambda>n. wf_fp (nd_fp n)) a"

lemma wf_nodes_nth: "wf_nodes a \<Longrightarrow> i < length a \<Longrightarrow> wf_fp (nd_fp (a ! i))"
  by (simp add: wf_nodes_def list_all_length)

section \<open>Properties\<close>

text \<open>C12: An alignment is one to one: no function of either side occurs in two pairs, and every pair
  indexes existing functions, whatever the weight, the threshold and the number of rounds.\<close>

theorem align_one_to_one:
  "distinct (map pr_a (align a b opts)) \<and> distinct (map pr_b (align a b opts))
   \<and> list_all (\<lambda>p. pr_a p < length a \<and> pr_b p < length b) (align a b opts)"
  using align_distinct [of a b opts] align_pair_ok(1) [of _ a b opts] by (auto simp: cand_ok_def list_all_iff)

text \<open>No pair is invented by the call graph: both prints of a pair carry signal, the similarity it
  reports is theirs and is at least the floor, its score reaches the threshold and never exceeds 1,
  and the pairs come sorted by score, best first.\<close>

lemma align_pairs_supported:
  "list_all (\<lambda>p. usable (nd_fp (a ! pr_a p)) \<and> usable (nd_fp (b ! pr_b p))
      \<and> pr_sim p = similarity (nd_fp (a ! pr_a p)) (nd_fp (b ! pr_b p))
      \<and> flt_le FLOOR (pr_sim p) \<and> flt_le (threshold opts) (pr_score p) \<and> pr_score p \<le> Fin 1) (align a b opts)
   \<and> sorted (map (\<lambda>p. Desc (pr_score p)) (align a b opts))"
proof
  show "list_all (\<lambda>p. usable (nd_fp (a ! pr_a p)) \<and> usable (nd_fp (b ! pr_b p))
      \<and> pr_sim p = similarity (nd_fp (a ! pr_a p)) (nd_fp (b ! pr_b p))
      \<and> flt_le FLOOR (pr_sim p) \<and> flt_le (threshold opts) (pr_score p) \<and> pr_score p \<le> Fin 1) (align a b opts)"
    unfolding list_all_iff
  proof
    fix p assume p: "p \<in> set (align a b opts)"
    from align_pair_ok [OF p] show "usable (nd_fp (a ! pr_a p)) \<and> usable (nd_fp (b ! pr_b p))
      \<and> pr_sim p = similarity (nd_fp (a ! pr_a p)) (nd_fp (b ! pr_b p))
      \<and> flt_le FLOOR (pr_sim p) \<and> flt_le (threshold opts) (pr_score p) \<and> pr_score p \<le> Fin 1"
      unfolding cand_ok_def split_conv by blast
  qed
  have "sorted (map (\<lambda>p. (Desc (pr_score p), Desc (pr_sim p), nd_entry (a ! pr_a p))) (align a b opts))"
    by (simp add: align_def Let_def split: prod.split)
  then show "sorted (map (\<lambda>p. Desc (pr_score p)) (align a b opts))"
    unfolding sorted_map by (rule sorted_wrt_mono_rel [rotated]) (auto simp: less_eq_prod_def less_le)
qed


text \<open>Nodes with a constant signature, for the instances below.\<close>

definition demo_node :: "u64 \<Rightarrow> u64 \<Rightarrow> u64 list \<Rightarrow> Node" where
  "demo_node c e cs = \<lparr>nd_fp = const_fp c, nd_entry = e, nd_callees = cs, nd_name = None, nd_group = ''''\<rparr>"

definition demo_cand :: "nat \<Rightarrow> nat \<Rightarrow> Cand" where
  "demo_cand i j = \<lparr>c_a = i, c_b = j, c_sim = Fin 1, c_graph = Fin 0\<rparr>"


text \<open>The result does not depend on the order of the candidates when the entries of \<open>a\<close> and the
  (group, entry) pairs of \<open>b\<close> are unique: then the tie-breaks make the order total.\<close>

theorem assignment_order_independent:
  assumes "mset cs = mset ds" and "in_range a b cs"
    and "distinct (map nd_entry a)" and "distinct (map (\<lambda>n. (nd_group n, nd_entry n)) b)"
    and "inj_on (\<lambda>c. (c_a c, c_b c)) (set cs)"
  shows "assign_greedy cs a b w = assign_greedy ds a b w"
proof -
  have "inj_on (greedy_key w a b) (set cs)"
  proof (rule inj_onI)
    fix c d assume cd: "c \<in> set cs" "d \<in> set cs" and "greedy_key w a b c = greedy_key w a b d"
    then have "nd_entry (a ! c_a c) = nd_entry (a ! c_a d)"
      "(nd_group (b ! c_b c), nd_entry (b ! c_b c)) = (nd_group (b ! c_b d), nd_entry (b ! c_b d))"
      by (simp_all add: greedy_key_def)
    with cd assms(2-4) have "c_a c = c_a d" "c_b c = c_b d"
      by (simp_all add: in_range_def distinct_conv_nth) metis+
    with assms(5) cd show "c = d" by (auto dest: inj_onD)
  qed
  then have "sort_key (greedy_key w a b) cs = sort_key (greedy_key w a b) ds"
    using assms(1) by (intro sort_key_unique)
  then show ?thesis by (simp add: assign_greedy_def)
qed

theorem assignment_order_independent_witness:
  "assign_greedy [demo_cand 0 0, demo_cand 1 0] [demo_node 7 16 [], demo_node 7 32 []] [demo_node 7 64 []] (Fin 1)
   = assign_greedy [demo_cand 1 0, demo_cand 0 0] [demo_node 7 16 [], demo_node 7 32 []] [demo_node 7 64 []] (Fin 1)"
  by (rule assignment_order_independent) (auto simp: in_range_def demo_node_def demo_cand_def inj_on_def)

text \<open>C29: With the call graph off no close pair is lost without reason: if two functions with signal are
  more than 3/4 similar and reach the threshold, the result holds a pair of one of them whose
  similarity is at least theirs. (The LSH bands cannot hide such a pair.)\<close>

theorem align_flat_complete:
  assumes "\<not> flt_less (Fin 0) (graph_weight opts)" and "wf_nodes a" and "wf_nodes b"
    and "i < length a" and "j < length b" and "usable (nd_fp (a ! i))" and "usable (nd_fp (b ! j))"
    and "Fin (3 / 4) < similarity (nd_fp (a ! i)) (nd_fp (b ! j))"
    and "flt_le (threshold opts) (similarity (nd_fp (a ! i)) (nd_fp (b ! j)))"
  shows "\<exists>p \<in> set (align a b opts). (pr_a p = i \<or> pr_b p = j)
    \<and> similarity (nd_fp (a ! i)) (nd_fp (b ! j)) \<le> pr_sim p"
proof -
  let ?s = "similarity (nd_fp (a ! i)) (nd_fp (b ! j))"
  note wf = wf_nodes_nth [OF assms(2,4)] wf_nodes_nth [OF assms(3,5)]
  obtain w ds where w: "w = fmax (graph_weight opts) (Fin 0)"
    and al: "align a b opts = sort_key (\<lambda>p. (Desc (pr_score p), Desc (pr_sim p), nd_entry (a ! pr_a p)))
      (filter (\<lambda>p. flt_le (threshold opts) (pr_score p)) (snd (assign_greedy ds a b w)))"
    and ds: "\<not> flt_less (Fin 0) w \<Longrightarrow> ds = candidates a b"
    by (rule align_from [of a b opts]) blast
  have w0: "w = Fin 0" using assms(1) by (cases "graph_weight opts") (auto simp: w fmax_def flt_less_def)
  then have ds: "ds = candidates a b" using ds by (simp add: flt_less_def)
  have "96 < agree (sig (nd_fp (a ! i))) (sig (nd_fp (b ! j)))"
    using assms(8) wf by (simp add: similarity_128)
  then have share: "shares_band (nd_fp (a ! i)) (nd_fp (b ! j))" using wf by (intro shares_band_close)
  have "FLOOR \<le> ?s" using FLOOR_le less_imp_le [OF assms(8)] by (rule order.trans)
  moreover have "?s \<noteq> NaN" using wf by (simp add: similarity_128)
  ultimately have floor: "flt_le FLOOR ?s" by (simp add: flt_le_def FLOOR_def)
  define c where "c = \<lparr>c_a = i, c_b = j, c_sim = ?s, c_graph = Fin 0\<rparr>"
  have c: "c \<in> set (candidates a b)"
    using assms(4,6) floor pool_of_shares [OF assms(5,7) share] by (auto simp: set_candidates c_def)
  obtain d where d: "d \<in> set (candidates a b)" "pair_of w d \<in> set (snd (assign_greedy ds a b w))"
      "c_a d = i \<or> c_b d = j" "greedy_key w a b d \<le> greedy_key w a b c"
    using assign_greedy_maximal [OF candidates_in_range c, of w] by (auto simp: ds c_def)
  have dr: "c_a d < length a" "c_b d < length b" using d(1) candidates_in_range by (auto simp: in_range_def)
  have rd: "rank w d = c_sim d" "rank w c = ?s"
    using rank_flat [OF _ _ d(1)] rank_flat [OF _ _ c] dr wf assms(2,3)
    by (auto simp: w0 c_def intro: wf_nodes_nth)
  then have le: "?s \<le> c_sim d" using d(4) by (auto simp: greedy_key_def less_eq_prod_def less_prod_def c_def)
  have sd: "c_sim d = Fin (of_nat (agree (sig (nd_fp (a ! c_a d))) (sig (nd_fp (b ! c_b d)))) / 128)"
    using d(1) dr assms(2,3) by (auto simp: set_candidates similarity_128 wf_nodes_nth)
  then have "c_sim d \<le> Fin 1"
    using agree_le(1) [of "sig (nd_fp (a ! c_a d))" "sig (nd_fp (b ! c_b d))"] wf_nodes_nth [OF assms(2) dr(1)]
    by (simp add: divide_le_eq_1)
  then have "pr_score (pair_of w d) = c_sim d" using sd rd by (simp add: fmin_def min_def)
  then have "flt_le (threshold opts) (pr_score (pair_of w d))" using assms(9) le sd by (auto simp: flt_le_def)
  then have "pair_of w d \<in> set (align a b opts)" using d(2) by (simp add: al)
  then show ?thesis using d(3) le by (intro bexI [of _ "pair_of w d"]) simp_all
qed

lemma self_similar: "wf_fp p \<Longrightarrow> similarity p p = Fin 1"
  by (simp add: similarity_128)

lemma usable_const [simp]: "usable (const_fp c)"
  by (simp add: usable_def const_fp_def MIN_COMPLEXITY_def)

theorem align_flat_complete_witness:
  "\<exists>p \<in> set (align [demo_node 7 16 []] [demo_node 7 32 []] (default_opts\<lparr>graph_weight := Fin 0\<rparr>)).
     (pr_a p = 0 \<or> pr_b p = 0)
     \<and> similarity (nd_fp ([demo_node 7 16 []] ! 0)) (nd_fp ([demo_node 7 32 []] ! 0)) \<le> pr_sim p"
proof (rule align_flat_complete)
  have "fl64 (7 / 10) \<le> fl64 1" by (rule fl_mono) simp_all
  then have "flt_le (fl64 (7 / 10)) (Fin 1)" by (simp add: flt_le_def)
  then show "flt_le (threshold (default_opts\<lparr>graph_weight := Fin 0\<rparr>))
    (similarity (nd_fp ([demo_node 7 16 []] ! 0)) (nd_fp ([demo_node 7 32 []] ! 0)))"
    by (simp add: default_opts_def demo_node_def self_similar)
qed (simp_all add: wf_nodes_def demo_node_def self_similar flt_less_def)

text \<open>The call-graph consistency of a candidate is a number of [0,1] whenever the target's callee
  list has no duplicates, whatever the corpus rows claim as their callees.\<close>

theorem graph_consistency_unit:
  assumes "in_range a b cs" and "i < length a" and "j < length b" and "distinct (nd_callees (a ! i))"
    and "length (nd_callees (a ! i)) + length (nd_callees (b ! j)) + length a + length b \<le> 2 ^ 64"
  shows "\<exists>r. graph_score i j (partner_of (length a) (snd (assign_greedy cs a b w)))
      (paired_of pr_b (length b) (snd (assign_greedy cs a b w)))
      (a_callees_of a) (reverse (a_callees_of a) (length a)) (b_callees_of b) (reverse (b_callees_of b) (length b))
    = Fin r \<and> 0 \<le> r \<and> r \<le> 1"
proof (rule graph_score_unit)
  let ?ar = "reverse (a_callees_of a) (length a) ! i" and ?br = "reverse (b_callees_of b) (length b) ! j"
  note asg = assign_greedy_distinct [OF assms(1)]
  show "distinct (map pr_a (snd (assign_greedy cs a b w)))" "distinct (map pr_b (snd (assign_greedy cs a b w)))"
    by (rule asg)+
  show "\<forall>p \<in> set (snd (assign_greedy cs a b w)). pr_a p < length a \<and> pr_b p < length b"
    using assign_greedy_from [OF assms(1)] assms(1) by (fastforce simp: in_range_def)
  show "distinct (a_callees_of a ! i)" by (rule distinct_a_callees [OF assms(2,4)])
  show ac: "\<forall>x \<in> set (a_callees_of a ! i). x < length a" using a_callees_of_nth [OF assms(2)] by auto
  show bc: "\<forall>y \<in> set (b_callees_of b ! j). y < length b" using b_callees_of_nth [OF assms(3)] by auto
  show dar: "distinct ?ar" by (rule distinct_reverse(1)) (rule assms(2))
  have dbr: "distinct ?br" by (rule distinct_reverse(1)) (rule assms(3))
  have A: "\<forall>c \<in> set (a_callees_of a). \<forall>x \<in> set c. x < length a"
    using a_callees_of_nth [of _ a] by (fastforce simp: in_set_conv_nth [of _ "a_callees_of a"])
  have B: "\<forall>c \<in> set (b_callees_of b). \<forall>x \<in> set c. x < length b"
    using b_callees_of_nth [of _ b] by (fastforce simp: in_set_conv_nth [of _ "b_callees_of b"])
  show ar: "\<forall>x \<in> set ?ar. x < length a" using set_reverse [OF assms(2) A] by simp
  show br: "\<forall>y \<in> set ?br. y < length b" using set_reverse [OF assms(3) B] by simp
  have "length ?ar \<le> length a" "length ?br \<le> length b"
    using ar br distinct_card [OF dar] distinct_card [OF dbr]
      card_mono [of "{..<length a}" "set ?ar"] card_mono [of "{..<length b}" "set ?br"] by auto
  moreover have "length (a_callees_of a ! i) \<le> length (nd_callees (a ! i))"
    "length (b_callees_of b ! j) \<le> length (nd_callees (b ! j))"
    using assms(2,3) by (simp_all add: a_callees_of_def b_callees_of_def Let_def map_filter_def)
  ultimately show "length (a_callees_of a ! i) + length ?ar + length (b_callees_of b ! j) + length ?br \<le> 2 ^ 64"
    using assms(5) by linarith
qed

theorem graph_consistency_unit_witness:
  "\<exists>r. graph_score 0 0
      (partner_of (length [demo_node 7 16 [16]]) (snd (assign_greedy
         [demo_cand 0 0] [demo_node 7 16 [16]] [demo_node 7 64 [64, 64]] (Fin 1))))
      (paired_of pr_b (length [demo_node 7 64 [64, 64]]) (snd (assign_greedy
         [demo_cand 0 0] [demo_node 7 16 [16]] [demo_node 7 64 [64, 64]] (Fin 1))))
      (a_callees_of [demo_node 7 16 [16]]) (reverse (a_callees_of [demo_node 7 16 [16]]) (length [demo_node 7 16 [16]]))
      (b_callees_of [demo_node 7 64 [64, 64]])
      (reverse (b_callees_of [demo_node 7 64 [64, 64]]) (length [demo_node 7 64 [64, 64]]))
    = Fin r \<and> 0 \<le> r \<and> r \<le> 1"
  by (rule graph_consistency_unit) (simp_all add: in_range_def demo_node_def demo_cand_def)

text \<open>The bound needs that hypothesis: a target read from a crafted corpus file may repeat a callee, and
  then the score is 4/3.\<close>

lemma graph_score_above_one:
  "graph_score 0 0 [Some 0] [True] [[0, 0]] [[]] [[0]] [[]] = fl64 (4 / 3)"
  by (simp add: graph_score_def hits_def f64_of_nat_exact binary_search_sorted)

end
