(* ===== verification/Matching.thy ===== *)
theory Matching
  imports Align
begin

text \<open>
  The pipelines that compare fingerprints (\<open>crates/fnprint-core/src/lib.rs\<close>): the by-name and the aligned
  diff of two builds, the best corpus hit of one print, query, triage, and the accuracy evaluation.

  A \<open>HashMap\<close> is iterated in an arbitrary order: \<open>enum\<close> turns its keys into a list, and the results are shown not
  to depend on it. A corpus is what it gives for \<open>all\<close> and \<open>candidates\<close>.
\<close>

section \<open>Diffing two builds\<close>

record Changed =
  ch_name :: string
  ch_similarity :: flt
  ch_entry_a :: "u64 option"
  ch_entry_b :: "u64 option"

record MatchReport =
  same :: nat
  changed :: "Changed list"
  only_a :: "string list"
  only_b :: "string list"
  compared :: nat
  low_signal :: nat

definition empty_report :: MatchReport where
  "empty_report = \<lparr>same = 0, changed = [], only_a = [], only_b = [], compared = 0, low_signal = 0\<rparr>"

definition named :: "IndexedFunc list \<Rightarrow> (string \<times> IndexedFunc) list" where
  "named fs = List.map_filter (\<lambda>f. map_option (\<lambda>n. (n, f)) (if_name f)) fs"

definition keys_of :: "(string \<times> IndexedFunc) list \<Rightarrow> string list" where
  "keys_of kvs = remdups (map fst kvs)"

text \<open>One turn of the loop over the names of \<open>a\<close>.\<close>

definition match_step ::
  "(string \<rightharpoonup> IndexedFunc) \<Rightarrow> MatchReport \<Rightarrow> string \<times> IndexedFunc \<Rightarrow> MatchReport" where
  "match_step bmap rep nf =
     (case nf of (name, fa) \<Rightarrow>
      case bmap name of
        Some fb \<Rightarrow>
          let rep = rep\<lparr>compared := compared rep + 1\<rparr>
          in if complexity (if_fp fa) < MIN_COMPLEXITY \<or> complexity (if_fp fb) < MIN_COMPLEXITY
             then rep\<lparr>low_signal := low_signal rep + 1\<rparr>
             else let sim = similarity (if_fp fa) (if_fp fb)
                  in if flt_le SAME_THRESH sim then rep\<lparr>same := same rep + 1\<rparr>
                     else rep\<lparr>changed := changed rep @ [\<lparr>ch_name = name, ch_similarity = sim,
                       ch_entry_a = Some (if_entry fa), ch_entry_b = Some (if_entry fb)\<rparr>]\<rparr>
      | None \<Rightarrow> rep\<lparr>only_a := only_a rep @ [name]\<rparr>)"

text \<open>The final sorts: the changed by (similarity, name), the names.\<close>

definition sort_report :: "MatchReport \<Rightarrow> MatchReport" where
  "sort_report rep = rep\<lparr>changed := sort_key (\<lambda>c. (ch_similarity c, ch_name c)) (changed rep),
     only_a := sort (only_a rep), only_b := sort (only_b rep)\<rparr>"

definition match_by_name ::
  "(string list \<Rightarrow> string list) \<Rightarrow> IndexedFunc list \<Rightarrow> IndexedFunc list \<Rightarrow> MatchReport" where
  "match_by_name enum a b =
     (let bmap = collect_map (named b); amap = collect_map (named a);
          rep = foldl (match_step bmap) empty_report
                  (map (\<lambda>n. (n, the (amap n))) (enum (keys_of (named a))));
          rep = foldl (\<lambda>rep n. if amap n = None then rep\<lparr>only_b := only_b rep @ [n]\<rparr> else rep)
                  rep (enum (keys_of (named b)))
      in sort_report rep)"

definition both_named :: "IndexedFunc list \<Rightarrow> IndexedFunc list \<Rightarrow> bool" where
  "both_named a b \<longleftrightarrow> 0 < length (filter (\<lambda>f. if_name f \<noteq> None) a)
     \<and> 0 < length (filter (\<lambda>f. if_name f \<noteq> None) b)"

definition pair_label :: "IndexedFunc \<Rightarrow> IndexedFunc \<Rightarrow> string" where
  "pair_label fa fb =
     (case (if_name fa, if_name fb) of
        (Some x, Some y) \<Rightarrow> if x = y then x else x @ '' -> '' @ y
      | (Some x, None) \<Rightarrow> x
      | (None, Some x) \<Rightarrow> x
      | (None, None) \<Rightarrow> hex_u64 (if_entry fa) @ '' -> '' @ hex_u64 (if_entry fb))"

definition func_label :: "IndexedFunc \<Rightarrow> string" where
  "func_label f = (case if_name f of Some n \<Rightarrow> n | None \<Rightarrow> hex_u64 (if_entry f))"

text \<open>A function with enough signal, as the pipelines test it.\<close>

definition has_signal :: "IndexedFunc \<Rightarrow> bool" where
  "has_signal f \<longleftrightarrow> MIN_COMPLEXITY \<le> complexity (if_fp f) \<and> 0 < shingles (if_fp f)"

definition aligned_step ::
  "IndexedFunc list \<Rightarrow> IndexedFunc list \<Rightarrow> MatchReport \<Rightarrow> Pair \<Rightarrow> MatchReport" where
  "aligned_step a b rep p =
     (let rep = rep\<lparr>compared := compared rep + 1\<rparr>
      in if flt_le SAME_THRESH (pr_sim p) then rep\<lparr>same := same rep + 1\<rparr>
         else rep\<lparr>changed := changed rep @ [\<lparr>ch_name = pair_label (a ! pr_a p) (b ! pr_b p),
           ch_similarity = pr_sim p, ch_entry_a = Some (if_entry (a ! pr_a p)),
           ch_entry_b = Some (if_entry (b ! pr_b p))\<rparr>]\<rparr>)"

text \<open>The functions with signal that no pair took.\<close>

definition unpaired :: "bool list \<Rightarrow> IndexedFunc list \<Rightarrow> string list" where
  "unpaired taken fs = concat (map (\<lambda>(i, f). if \<not> taken ! i \<and> has_signal f then [func_label f] else []) (enumerated fs))"

definition match_aligned :: "IndexedFunc list \<Rightarrow> IndexedFunc list \<Rightarrow> flt \<Rightarrow> MatchReport" where
  "match_aligned a b gw =
     (let pairs = align (map from_indexed a) (map from_indexed b)
            \<lparr>threshold = fl64 (45 / 100), graph_weight = gw, rounds = 2\<rparr>;
          rep = foldl (aligned_step a b) empty_report pairs;
          a_paired = paired_of pr_a (length a) pairs;
          b_paired = paired_of pr_b (length b) pairs
      in sort_report (rep\<lparr>only_a := unpaired a_paired a, only_b := unpaired b_paired b,
           low_signal := length (filter (\<lambda>f. complexity (if_fp f) < MIN_COMPLEXITY \<or> shingles (if_fp f) = 0) a)\<rparr>))"

section \<open>The best hit of one print\<close>

type_synonym best = "(flt \<times> string \<times> string) option"

text \<open>Rust's \<open><\<close>, \<open>>\<close> and \<open>==\<close> on \<open>f64\<close>, then the (name, binary) tie-break.\<close>

definition best_step :: "Fingerprint \<Rightarrow> best \<Rightarrow> FuncRec \<Rightarrow> best" where
  "best_step p bst c =
     (if complexity (rec_fp c) < MIN_COMPLEXITY then bst
      else case rec_name c of
        None \<Rightarrow> bst
      | Some cname \<Rightarrow>
          let sim = similarity p (rec_fp c)
          in if (case bst of
                   None \<Rightarrow> True
                 | Some (s, bn, bb) \<Rightarrow>
                     flt_less s sim \<or> (flt_eq sim s \<and> (cname, rec_binary c) < (bn, bb)))
             then Some (sim, cname, rec_binary c) else bst)"

definition best_in_corpus ::
  "('c \<Rightarrow> Fingerprint \<Rightarrow> 'e + FuncRec list) \<Rightarrow> Fingerprint \<Rightarrow> 'c \<Rightarrow> FuncRec list \<Rightarrow> 'e + best" where
  "best_in_corpus cands p db al =
     bindR (cands db p) (\<lambda>cs. Inr (foldl (best_step p) None (if cs = [] then al else cs)))"

section \<open>Query\<close>

record Named =
  nm_entry :: u64
  nm_guess :: string
  nm_from_binary :: string
  nm_similarity :: flt
  nm_graph :: flt
  nm_score :: flt

definition query_corpus ::
  "('c \<Rightarrow> 'e + FuncRec list) \<Rightarrow> IndexedFunc list \<Rightarrow> 'c \<Rightarrow> flt \<Rightarrow> flt \<Rightarrow> 'e + Named list" where
  "query_corpus all_recs target db th gw =
     bindR (all_recs db) (\<lambda>rs.
       let recs = filter (\<lambda>r. rec_name r \<noteq> None) rs;
           pairs = align (map from_indexed target) (map from_rec recs)
             \<lparr>threshold = th, graph_weight = gw, rounds = 2\<rparr>;
           out = map (\<lambda>p. \<lparr>nm_entry = if_entry (target ! pr_a p),
                     nm_guess = (case rec_name (recs ! pr_b p) of Some n \<Rightarrow> n | None \<Rightarrow> ''''),
                     nm_from_binary = rec_binary (recs ! pr_b p),
                     nm_similarity = pr_sim p, nm_graph = pr_graph p, nm_score = pr_score p\<rparr>) pairs
       in Inr (sort_key (\<lambda>n. (Desc (nm_score n), Desc (nm_similarity n), nm_entry n)) out))"

section \<open>Triage\<close>

datatype Verdict = Vulnerable | Patched | Inconclusive

record TriageHit =
  th_entry :: u64
  th_verdict :: Verdict
  th_vuln_sim :: flt
  th_vuln_name :: string
  th_patched_sim :: flt
  th_patched_name :: string
  th_coverage :: flt

definition margin :: "TriageHit \<Rightarrow> flt" where
  "margin h = fsub binary64 (th_vuln_sim h) (th_patched_sim h)"

fun verdict_order :: "Verdict \<Rightarrow> nat" where
  "verdict_order Vulnerable = 0"
| "verdict_order Inconclusive = 1"
| "verdict_order Patched = 2"

text \<open>The best hit of every target function on one side.\<close>

definition triage_side ::
  "('c \<Rightarrow> 'e + FuncRec list) \<Rightarrow> ('c \<Rightarrow> Fingerprint \<Rightarrow> 'e + FuncRec list) \<Rightarrow> IndexedFunc list \<Rightarrow> 'c
   \<Rightarrow> 'e + (flt \<times> string) option list" where
  "triage_side all_recs cands target db =
     bindR (all_recs db) (\<lambda>rs.
       let recs = filter (\<lambda>r. rec_name r \<noteq> None) rs
       in mapR (\<lambda>f. if \<not> has_signal f then Inr None
                    else bindR (best_in_corpus cands (if_fp f) db recs)
                           (\<lambda>h. Inr (map_option (\<lambda>(s, n, _). (s, n)) h))) target)"

definition decide :: "flt \<Rightarrow> flt \<Rightarrow> flt \<Rightarrow> flt \<Rightarrow> Verdict" where
  "decide v p min_sim mrg =
     (if flt_less (fmax v p) min_sim then Inconclusive
      else if flt_le mrg (fsub binary64 v p) then Vulnerable
      else if flt_le mrg (fsub binary64 p v) then Patched
      else Inconclusive)"

definition triage_hit :: "flt \<Rightarrow> flt \<Rightarrow> IndexedFunc \<Rightarrow> (flt \<times> string) option \<Rightarrow> (flt \<times> string) option \<Rightarrow> TriageHit" where
  "triage_hit min_sim mrg f v p =
     (let (vs, vn) = (case v of Some x \<Rightarrow> x | None \<Rightarrow> (Fin 0, ''''));
          (ps, pn) = (case p of Some x \<Rightarrow> x | None \<Rightarrow> (Fin 0, ''''))
      in \<lparr>th_entry = if_entry f, th_verdict = decide vs ps min_sim mrg, th_vuln_sim = vs, th_vuln_name = vn,
          th_patched_sim = ps, th_patched_name = pn, th_coverage = if_coverage f\<rparr>)"

definition triage ::
  "('c \<Rightarrow> 'e + FuncRec list) \<Rightarrow> ('c \<Rightarrow> Fingerprint \<Rightarrow> 'e + FuncRec list) \<Rightarrow> IndexedFunc list \<Rightarrow> 'c \<Rightarrow> 'c
   \<Rightarrow> flt \<Rightarrow> flt \<Rightarrow> 'e + TriageHit list" where
  "triage all_recs cands target vuln patched min_sim mrg =
     bindR (triage_side all_recs cands target vuln) (\<lambda>v.
     bindR (triage_side all_recs cands target patched) (\<lambda>pt.
       let out = concat (map (\<lambda>(i, f). if has_signal f then [triage_hit min_sim mrg f (v ! i) (pt ! i)] else [])
                   (enumerated target))
       in Inr (sort_key (\<lambda>h. (verdict_order (th_verdict h), Desc (th_vuln_sim h), th_entry h)) out)))"

section \<open>Evaluation\<close>

record EvalResult =
  scored :: nat
  rank1 :: nat
  rr_sum :: flt
  ev_tp :: nat
  ev_fp :: nat
  ev_fn :: nat
  ranks :: "nat list"
  abstained :: nat
  align_correct :: nat
  align_paired :: nat
  align_tp :: nat
  align_fp :: nat

definition empty_eval :: EvalResult where
  "empty_eval = \<lparr>scored = 0, rank1 = 0, rr_sum = Fin 0, ev_tp = 0, ev_fp = 0, ev_fn = 0, ranks = [], abstained = 0,
     align_correct = 0, align_paired = 0, align_tp = 0, align_fp = 0\<rparr>"

text \<open>The ratio most of the accessors compute.\<close>

definition ratio :: "nat \<Rightarrow> nat \<Rightarrow> flt" where
  "ratio n d = (if d = 0 then Fin 0 else fdiv binary64 (f64_of_nat n) (f64_of_nat d))"

definition rank1_acc :: "EvalResult \<Rightarrow> flt" where "rank1_acc r = ratio (rank1 r) (scored r)"
definition mrr :: "EvalResult \<Rightarrow> flt" where
  "mrr r = (if scored r = 0 then Fin 0 else fdiv binary64 (rr_sum r) (f64_of_nat (scored r)))"
definition precision :: "EvalResult \<Rightarrow> flt" where "precision r = ratio (ev_tp r) (ev_tp r + ev_fp r)"
definition recall :: "EvalResult \<Rightarrow> flt" where "recall r = ratio (ev_tp r) (ev_tp r + ev_fn r)"
definition recall_at :: "EvalResult \<Rightarrow> nat \<Rightarrow> flt" where
  "recall_at r k = ratio (length (filter (\<lambda>x. x \<le> k) (ranks r))) (scored r)"
definition abstain_rate :: "EvalResult \<Rightarrow> flt" where "abstain_rate r = ratio (abstained r) (scored r)"
definition align_acc :: "EvalResult \<Rightarrow> flt" where "align_acc r = ratio (align_correct r) (scored r)"
definition align_precision :: "EvalResult \<Rightarrow> flt" where
  "align_precision r = ratio (align_tp r) (align_tp r + align_fp r)"
definition align_recall :: "EvalResult \<Rightarrow> flt" where "align_recall r = ratio (align_tp r) (scored r)"

text \<open>Similarities of the named functions of \<open>b\<close> to one of \<open>a\<close>, best first.\<close>

definition rank_list :: "IndexedFunc list \<Rightarrow> IndexedFunc \<Rightarrow> (flt \<times> string) list" where
  "rank_list bsig fa =
     sort_key (\<lambda>x. Desc (fst x))
       (List.map_filter (\<lambda>f. map_option (\<lambda>n. (similarity (if_fp fa) (if_fp f), n)) (if_name f)) bsig)"

fun position :: "('a \<Rightarrow> bool) \<Rightarrow> 'a list \<Rightarrow> nat option" where
  "position P [] = None"
| "position P (x # xs) = (if P x then Some 0 else map_option Suc (position P xs))"

text \<open>The counters of one scored function: its ranking, then its aligned partner.\<close>

definition eval_rank :: "string \<Rightarrow> (flt \<times> string) list \<Rightarrow> flt \<Rightarrow> string \<Rightarrow> EvalResult \<Rightarrow> EvalResult" where
  "eval_rank aname sc top_sim top_name r =
     (let r = r\<lparr>scored := scored r + 1\<rparr>;
          r = (if top_name = aname then r\<lparr>rank1 := rank1 r + 1\<rparr> else r);
          r = (case position (\<lambda>x. snd x = aname) sc of
                 None \<Rightarrow> r
               | Some pos \<Rightarrow> r\<lparr>rr_sum := fadd binary64 (rr_sum r)
                     (fdiv binary64 (Fin 1) (fadd binary64 (f64_of_nat pos) (Fin 1))),
                   ranks := ranks r @ [pos + 1]\<rparr>);
          ps = flt_le SAME_THRESH top_sim;
          r = (if ps then r else r\<lparr>abstained := abstained r + 1\<rparr>)
      in (case (ps, top_name = aname) of
            (True, True) \<Rightarrow> r\<lparr>ev_tp := ev_tp r + 1\<rparr>
          | (True, False) \<Rightarrow> r\<lparr>ev_fp := ev_fp r + 1\<rparr>
          | (False, True) \<Rightarrow> r\<lparr>ev_fn := ev_fn r + 1\<rparr>
          | (False, False) \<Rightarrow> r))"

definition eval_partner :: "string \<Rightarrow> IndexedFunc list \<Rightarrow> Pair option \<Rightarrow> EvalResult \<Rightarrow> EvalResult" where
  "eval_partner aname b p r =
     (case p of
        None \<Rightarrow> r
      | Some p \<Rightarrow>
          let r = r\<lparr>align_paired := align_paired r + 1\<rparr>;
              right = (if_name (b ! pr_b p) = Some aname);
              r = (if right then r\<lparr>align_correct := align_correct r + 1\<rparr> else r)
          in if flt_le SAME_THRESH (pr_score p)
             then (if right then r\<lparr>align_tp := align_tp r + 1\<rparr> else r\<lparr>align_fp := align_fp r + 1\<rparr>)
             else r)"

definition eval_step ::
  "IndexedFunc list \<Rightarrow> IndexedFunc list \<Rightarrow> (nat \<rightharpoonup> Pair) \<Rightarrow> EvalResult \<Rightarrow> nat \<times> IndexedFunc \<Rightarrow> EvalResult" where
  "eval_step b bsig partner r iafa =
     (case iafa of (ia, fa) \<Rightarrow>
      if \<not> has_signal fa then r
      else case if_name fa of
        None \<Rightarrow> r
      | Some aname \<Rightarrow>
          if \<not> list_ex (\<lambda>f. if_name f = Some aname) bsig then r
          else case rank_list bsig fa of
            [] \<Rightarrow> r
          | (top_sim, top_name) # rest \<Rightarrow>
              eval_partner aname b (partner ia)
                (eval_rank aname ((top_sim, top_name) # rest) top_sim top_name r))"

definition eval :: "IndexedFunc list \<Rightarrow> IndexedFunc list \<Rightarrow> flt \<Rightarrow> EvalResult" where
  "eval a b gw =
     (let bsig = filter (\<lambda>f. has_signal f \<and> if_name f \<noteq> None) b;
          pairs = align (map from_indexed a) (map from_indexed b)
            \<lparr>threshold = fl64 (2 / 10), graph_weight = gw, rounds = 2\<rparr>;
          partner = collect_map (map (\<lambda>p. (pr_a p, p)) pairs)
      in foldl (eval_step b bsig partner) empty_eval (enumerated a))"

section \<open>The by-name diff, in closed form\<close>

datatype outcome = OnlyA | LowSignal | IsSame | IsChanged

definition outcome_of :: "(string \<rightharpoonup> IndexedFunc) \<Rightarrow> string \<times> IndexedFunc \<Rightarrow> outcome" where
  "outcome_of bmap nf =
     (case bmap (fst nf) of
        None \<Rightarrow> OnlyA
      | Some fb \<Rightarrow>
          if complexity (if_fp (snd nf)) < MIN_COMPLEXITY \<or> complexity (if_fp fb) < MIN_COMPLEXITY then LowSignal
          else if flt_le SAME_THRESH (similarity (if_fp (snd nf)) (if_fp fb)) then IsSame else IsChanged)"

definition change_of :: "(string \<rightharpoonup> IndexedFunc) \<Rightarrow> string \<times> IndexedFunc \<Rightarrow> Changed" where
  "change_of bmap nf =
     \<lparr>ch_name = fst nf, ch_similarity = similarity (if_fp (snd nf)) (if_fp (the (bmap (fst nf)))),
      ch_entry_a = Some (if_entry (snd nf)), ch_entry_b = Some (if_entry (the (bmap (fst nf))))\<rparr>"

definition having :: "(string \<rightharpoonup> IndexedFunc) \<Rightarrow> outcome \<Rightarrow> (string \<times> IndexedFunc) list \<Rightarrow> (string \<times> IndexedFunc) list" where
  "having bmap k nfs = filter (\<lambda>nf. outcome_of bmap nf = k) nfs"

lemma having_Nil [simp]: "having bmap k [] = []"
  by (simp add: having_def)

lemma having_Cons [simp]:
  "having bmap k (nf # nfs) = (if outcome_of bmap nf = k then nf # having bmap k nfs else having bmap k nfs)"
  by (simp add: having_def)

lemma match_fold:
  "foldl (match_step bmap) rep nfs =
     rep\<lparr>same := same rep + length (having bmap IsSame nfs),
         changed := changed rep @ map (change_of bmap) (having bmap IsChanged nfs),
         only_a := only_a rep @ map fst (having bmap OnlyA nfs),
         compared := compared rep + length (having bmap IsSame nfs) + length (having bmap IsChanged nfs)
           + length (having bmap LowSignal nfs),
         low_signal := low_signal rep + length (having bmap LowSignal nfs)\<rparr>"
proof (induction nfs arbitrary: rep)
  case (Cons nf nfs)
  have "match_step bmap rep nf =
     (case outcome_of bmap nf of
        OnlyA \<Rightarrow> rep\<lparr>only_a := only_a rep @ [fst nf]\<rparr>
      | LowSignal \<Rightarrow> rep\<lparr>compared := compared rep + 1, low_signal := low_signal rep + 1\<rparr>
      | IsSame \<Rightarrow> rep\<lparr>compared := compared rep + 1, same := same rep + 1\<rparr>
      | IsChanged \<Rightarrow> rep\<lparr>compared := compared rep + 1, changed := changed rep @ [change_of bmap nf]\<rparr>)"
    by (cases nf) (simp add: match_step_def outcome_of_def change_of_def Let_def split: option.split)
  then show ?case using Cons.IH by (cases "outcome_of bmap nf") simp_all
qed simp

lemma only_b_fold:
  "foldl (\<lambda>rep n. if amap n = None then rep\<lparr>only_b := only_b rep @ [n]\<rparr> else rep) rep ns
   = rep\<lparr>only_b := only_b rep @ filter (\<lambda>n. amap n = None) ns\<rparr>"
  by (induction ns arbitrary: rep) simp_all

lemma keys_of_set: "set (keys_of kvs) = dom (collect_map kvs)"
  by (simp add: keys_of_def dom_collect_map)

lemma set_named: "(n, f) \<in> set (named fs) \<longleftrightarrow> f \<in> set fs \<and> if_name f = Some n"
  by (auto simp: named_def set_map_filter_Some)

lemma dom_named: "dom (collect_map (named fs)) = {n. \<exists>f \<in> set fs. if_name f = Some n}"
proof -
  have "n \<in> fst ` set (named fs) \<longleftrightarrow> (\<exists>f. (n, f) \<in> set (named fs))" for n by force
  then show ?thesis by (auto simp: dom_collect_map set_named)
qed

lemma enum_mset: "enum_ok enum \<Longrightarrow> enum_ok enum' \<Longrightarrow> mset (enum xs) = mset (enum' xs)"
  by (metis enum_ok_def set_eq_iff_mset_eq_distinct)

text \<open>The report of \<open>match_by_name\<close>, field by field.\<close>

lemma match_by_name_fields:
  fixes a b enum
  defines "bmap \<equiv> collect_map (named b)" and "amap \<equiv> collect_map (named a)"
  defines "nfs \<equiv> map (\<lambda>n. (n, the (amap n))) (enum (keys_of (named a)))"
  shows "match_by_name enum a b =
     \<lparr>same = length (having bmap IsSame nfs),
      changed = sort_key (\<lambda>c. (ch_similarity c, ch_name c)) (map (change_of bmap) (having bmap IsChanged nfs)),
      only_a = sort (map fst (having bmap OnlyA nfs)),
      only_b = filter (\<lambda>n. amap n = None) (enum (keys_of (named b))),
      compared = length (having bmap IsSame nfs) + length (having bmap IsChanged nfs) + length (having bmap LowSignal nfs),
      low_signal = length (having bmap LowSignal nfs)\<rparr>\<lparr>only_b := sort (filter (\<lambda>n. amap n = None) (enum (keys_of (named b))))\<rparr>"
  unfolding assms
  by (simp add: match_by_name_def Let_def match_fold only_b_fold sort_report_def empty_report_def)

lemma mset_having: "mset xs = mset ys \<Longrightarrow> mset (having bmap k xs) = mset (having bmap k ys)"
  by (simp add: having_def mset_filter)

lemma sort_mset_cong: "mset xs = mset ys \<Longrightarrow> sort xs = sort ys"
  by (metis mset_sort properties_for_sort sorted_sort)

lemma match_by_name_enum:
  assumes "enum_ok enum" and "enum_ok enum'"
  shows "match_by_name enum a b = match_by_name enum' a b"
proof -
  define bmap where "bmap = collect_map (named b)"
  define amap where "amap = collect_map (named a)"
  define L where "L = (\<lambda>e :: string list \<Rightarrow> string list. map (\<lambda>n. (n, the (amap n))) (e (keys_of (named a))))"
  have m: "mset (L enum) = mset (L enum')" using enum_mset [OF assms] by (simp add: L_def)
  have h: "mset (having bmap k (L enum)) = mset (having bmap k (L enum'))" for k
    using m by (rule mset_having)
  have len: "length (having bmap k (L enum)) = length (having bmap k (L enum'))" for k
    using h by (rule mset_eq_length)
  have inj: "inj_on (\<lambda>c. (ch_similarity c, ch_name c)) (set (map (change_of bmap) (having bmap IsChanged (L enum))))"
    by (auto simp: inj_on_def change_of_def having_def L_def)
  have "sort_key (\<lambda>c. (ch_similarity c, ch_name c)) (map (change_of bmap) (having bmap IsChanged (L enum)))
      = sort_key (\<lambda>c. (ch_similarity c, ch_name c)) (map (change_of bmap) (having bmap IsChanged (L enum')))"
    using h inj by (intro sort_key_unique) simp_all
  moreover have "sort (map fst (having bmap OnlyA (L enum))) = sort (map fst (having bmap OnlyA (L enum')))"
    using h by (intro sort_mset_cong) simp
  moreover have "sort (filter (\<lambda>n. amap n = None) (enum (keys_of (named b))))
      = sort (filter (\<lambda>n. amap n = None) (enum' (keys_of (named b))))"
    using enum_mset [OF assms] by (intro sort_mset_cong) (simp add: mset_filter)
  ultimately show ?thesis
    unfolding match_by_name_fields [where enum = enum] match_by_name_fields [where enum = enum']
    using len by (simp add: L_def bmap_def amap_def)
qed

text \<open>The names of a build.\<close>

definition names :: "IndexedFunc list \<Rightarrow> string set" where
  "names fs = {n. \<exists>f \<in> set fs. if_name f = Some n}"

lemma having_OnlyA_names:
  "set (map fst (having (collect_map (named b)) OnlyA nfs)) = fst ` set nfs - names b"
proof -
  have "outcome_of (collect_map (named b)) nf = OnlyA \<longleftrightarrow> fst nf \<notin> names b" for nf
    using dom_named [of b] by (auto simp: outcome_of_def names_def split: option.splits)
  then show ?thesis by (auto simp: having_def)
qed

lemma having_partition:
  "length (having bmap OnlyA nfs) + length (having bmap LowSignal nfs) + length (having bmap IsSame nfs)
   + length (having bmap IsChanged nfs) = length nfs"
proof (induction nfs)
  case (Cons nf nfs)
  then show ?case by (cases "outcome_of bmap nf") simp_all
qed simp

lemma match_by_name_partition:
  assumes "enum_ok enum"
  shows "set (only_a (match_by_name enum a b)) = names a - names b"
    and "set (only_b (match_by_name enum a b)) = names b - names a"
    and "compared (match_by_name enum a b) = card (names a \<inter> names b)"
    and "compared (match_by_name enum a b) = same (match_by_name enum a b)
      + length (changed (match_by_name enum a b)) + low_signal (match_by_name enum a b)"
proof -
  define bmap where "bmap = collect_map (named b)"
  define amap where "amap = collect_map (named a)"
  define nfs where "nfs = map (\<lambda>n. (n, the (amap n))) (enum (keys_of (named a)))"
  note F = match_by_name_fields [where enum = enum and a = a and b = b, folded bmap_def amap_def, folded nfs_def]
  have na: "set (enum (keys_of (named a))) = names a" "distinct (enum (keys_of (named a)))"
    and nb: "set (enum (keys_of (named b))) = names b"
    using assms by (simp_all add: enum_ok_def keys_of_set dom_named names_def)
  have nfs: "fst ` set nfs = names a" "distinct (map fst nfs)" "length nfs = card (names a)"
    using na by (force simp: nfs_def o_def distinct_card [symmetric])+
  show oa: "set (only_a (match_by_name enum a b)) = names a - names b"
    unfolding F using having_OnlyA_names [of b nfs] nfs by (simp add: bmap_def)
  have "amap n = None \<longleftrightarrow> n \<notin> names a" for n
    using dom_named [of a] by (auto simp: amap_def names_def)
  then show "set (only_b (match_by_name enum a b)) = names b - names a"
    unfolding F using nb by auto
  show "compared (match_by_name enum a b) = same (match_by_name enum a b)
      + length (changed (match_by_name enum a b)) + low_signal (match_by_name enum a b)"
    unfolding F by simp
  have "distinct (map fst (having bmap OnlyA nfs))" using nfs(2) by (simp add: having_def distinct_map_filter)
  then have "length (having bmap OnlyA nfs) = card (names a - names b)"
    using having_OnlyA_names [of b nfs] nfs(1) by (metis bmap_def distinct_card length_map)
  moreover have "finite (names a)" using na by (metis List.finite_set)
  then have "card (names a) = card (names a - names b) + card (names a \<inter> names b)"
    by (metis add.commute card_Int_Diff)
  ultimately show "compared (match_by_name enum a b) = card (names a \<inter> names b)"
    unfolding F using having_partition [of bmap nfs] nfs(3) by simp
qed

section \<open>The best hit, in closed form\<close>

definition best_key :: "Fingerprint \<Rightarrow> FuncRec \<Rightarrow> flt desc \<times> string \<times> string" where
  "best_key p c = (Desc (similarity p (rec_fp c)), the (rec_name c), rec_binary c)"

text \<open>The records a hit may come from: named, with signal.\<close>

definition eligible :: "FuncRec set \<Rightarrow> FuncRec set" where
  "eligible R = {c \<in> R. MIN_COMPLEXITY \<le> complexity (rec_fp c) \<and> rec_name c \<noteq> None}"

definition best_spec :: "Fingerprint \<Rightarrow> FuncRec set \<Rightarrow> best" where
  "best_spec p R =
     (if eligible R = {} then None
      else case Min (best_key p ` eligible R) of (d, n, b) \<Rightarrow> Some (undesc d, n, b))"

lemma similarity_Fin:
  assumes "wf_fp q"
  shows "\<exists>r. similarity p q = Fin r \<and> 0 \<le> r \<and> r \<le> 1"
proof (cases "length (sig p) = 128")
  case True
  then have "agree (sig p) (sig q) \<le> 128" using agree_le(1) [of "sig p" "sig q"] by simp
  then have "(of_nat (agree (sig p) (sig q)) :: rat) \<le> 128" by (metis of_nat_le_iff of_nat_numeral)
  then have "0 \<le> (of_nat (agree (sig p) (sig q)) / 128 :: rat)" "of_nat (agree (sig p) (sig q)) / 128 \<le> (1 :: rat)"
    by simp_all
  moreover have "similarity p q = Fin (of_nat (agree (sig p) (sig q)) / 128)"
    using True assms by (simp add: similarity_128)
  ultimately show ?thesis by blast
next
  case False
  then show ?thesis using assms by (simp add: similarity_def)
qed

lemma similarity_not_NaN [simp]: "wf_fp q \<Longrightarrow> similarity p q \<noteq> NaN"
  using similarity_Fin [of q p] by auto

text \<open>The start of the loop, as the keys it stands for.\<close>

definition best_start :: "best \<Rightarrow> (flt desc \<times> string \<times> string) set" where
  "best_start bst = (case bst of None \<Rightarrow> {} | Some (s, n, b) \<Rightarrow> {(Desc s, n, b)})"

definition best_of :: "(flt desc \<times> string \<times> string) set \<Rightarrow> best" where
  "best_of K = (if K = {} then None else case Min K of (d, n, b) \<Rightarrow> Some (undesc d, n, b))"

lemma best_start_of: "finite K \<Longrightarrow> K \<noteq> {} \<Longrightarrow> best_start (best_of K) = {Min K}"
  by (auto simp: best_start_def best_of_def split: prod.splits)

lemma best_step_of:
  assumes "wf_fp (rec_fp c)" and "\<And>s n b. bst = Some (s, n, b) \<Longrightarrow> s \<noteq> NaN"
  shows "best_step p bst c = best_of (best_start bst \<union> best_key p ` eligible {c})"
proof (cases "MIN_COMPLEXITY \<le> complexity (rec_fp c) \<and> rec_name c \<noteq> None")
  case True
  then obtain n where n: "rec_name c = Some n" by auto
  have el: "eligible {c} = {c}" using True by (auto simp: eligible_def)
  have sn: "similarity p (rec_fp c) \<noteq> NaN" using assms by simp
  show ?thesis
  proof (cases bst)
    case None
    then show ?thesis using True n by (simp add: best_step_def el best_start_def best_of_def best_key_def)
  next
    case (Some t)
    then obtain s bn bb where t: "bst = Some (s, bn, bb)" by (cases t) auto
    then have "s \<noteq> NaN" using assms(2) by simp
    then show ?thesis
      using True n sn
      by (auto simp: best_step_def t el best_start_def best_of_def best_key_def Let_def flt_less_def flt_eq_def
          min_def less_eq_prod_def less_prod_def not_less)
  qed
next
  case False
  then have el: "eligible {c} = {}" by (auto simp: eligible_def)
  have "best_step p bst c = bst" using False by (auto simp: best_step_def not_le split: option.splits)
  then show ?thesis unfolding el by (cases bst) (auto simp: best_start_def best_of_def split: prod.splits)
qed

lemma best_of_union: "finite K \<Longrightarrow> finite L \<Longrightarrow> best_of (best_start (best_of K) \<union> L) = best_of (K \<union> L)"
proof (cases "K = {}")
  case True
  then show ?thesis by (simp add: best_of_def best_start_def)
next
  case False
  assume fin: "finite K" "finite L"
  have "Min ({Min K} \<union> L) = Min (K \<union> L)"
  proof (cases "L = {}")
    case False
    then show ?thesis using fin \<open>K \<noteq> {}\<close> by (simp add: Min_Un Min_insert del: Un_insert_left)
  qed (use fin in simp)
  moreover have "best_start (best_of K) = {Min K}" using fin(1) False by (rule best_start_of)
  ultimately show ?thesis using False by (simp only: best_of_def Un_empty insert_not_empty simp_thms if_False)
qed

lemma best_of_not_NaN:
  assumes "finite K" and "\<forall>k \<in> K. undesc (fst k) \<noteq> NaN" and "best_of K = Some (s, n, b)"
  shows "s \<noteq> NaN"
proof -
  have "K \<noteq> {}" using assms(3) by (auto simp: best_of_def)
  then have "Min K \<in> K" using assms(1) by simp
  then show ?thesis using assms(2,3) by (auto simp: best_of_def split: if_splits prod.splits)
qed

lemma finite_eligible [simp]: "finite R \<Longrightarrow> finite (eligible R)"
  by (simp add: eligible_def)

lemma eligible_insert: "eligible (insert c R) = eligible {c} \<union> eligible R"
  by (auto simp: eligible_def)

lemma best_fold:
  assumes "finite K" and "\<forall>k \<in> K. undesc (fst k) \<noteq> NaN" and "\<forall>c \<in> set pool. wf_fp (rec_fp c)"
  shows "foldl (best_step p) (best_of K) pool = best_of (K \<union> best_key p ` eligible (set pool))"
  using assms
proof (induction pool arbitrary: K)
  case (Cons c pool)
  let ?K = "K \<union> best_key p ` eligible {c}"
  have "best_step p (best_of K) c = best_of (best_start (best_of K) \<union> best_key p ` eligible {c})"
    using Cons.prems by (intro best_step_of) (auto dest: best_of_not_NaN)
  also have "\<dots> = best_of ?K" using Cons.prems by (intro best_of_union) simp_all
  finally have step: "best_step p (best_of K) c = best_of ?K" .
  have "foldl (best_step p) (best_of ?K) pool = best_of (?K \<union> best_key p ` eligible (set pool))"
    using Cons.prems by (intro Cons.IH) (auto simp: best_key_def eligible_def)
  also have "?K \<union> best_key p ` eligible (set pool) = K \<union> best_key p ` eligible (set (c # pool))"
    using eligible_insert [of c "set pool"] by (auto simp: image_Un)
  finally show ?case using step by simp
qed (simp add: eligible_def)

lemma best_fold_None:
  assumes "\<forall>c \<in> set pool. wf_fp (rec_fp c)"
  shows "foldl (best_step p) None pool = best_spec p (set pool)"
  using best_fold [of "{}" pool p] assms by (simp add: best_of_def best_spec_def image_is_empty)

text \<open>The pool the band filter leaves: the sharers, or everything when there is none.\<close>

definition band_pool :: "Fingerprint \<Rightarrow> FuncRec set \<Rightarrow> FuncRec set" where
  "band_pool p R = (if \<exists>r \<in> R. shares_band p (rec_fp r) then {r \<in> R. shares_band p (rec_fp r)} else R)"

lemma eligible_named: "eligible {r \<in> R. rec_name r \<noteq> None} = eligible R"
  by (auto simp: eligible_def)

context corpus
begin

lemma best_in_corpus_spec:
  assumes "inv c" and "all_recs c = Inr rs" and "wf_fp p"
  shows "best_in_corpus cands p c (filter (\<lambda>r. rec_name r \<noteq> None) rs) = Inr (best_spec p (band_pool p (set rs)))"
proof -
  obtain cs where cs: "cands c p = Inr cs" using cands_total [OF assms] by blast
  have set_cs: "set cs = {r \<in> set rs. shares_band p (rec_fp r)}" using cands_iff [OF assms cs] by blast
  have wf: "wf_fp (rec_fp r)" if "r \<in> set rs" for r using that all_wf assms by blast
  show ?thesis
  proof (cases "cs = []")
    case True
    have "foldl (best_step p) None (filter (\<lambda>r. rec_name r \<noteq> None) rs)
        = best_spec p (set (filter (\<lambda>r. rec_name r \<noteq> None) rs))"
      using wf by (intro best_fold_None) simp
    also have "\<dots> = best_spec p (set rs)" by (simp only: best_spec_def set_filter eligible_named)
    finally have fold: "foldl (best_step p) None (filter (\<lambda>r. rec_name r \<noteq> None) rs) = best_spec p (set rs)" .
    have "{r \<in> set rs. shares_band p (rec_fp r)} = {}" using set_cs True by simp
    then have "\<not> (\<exists>r \<in> set rs. shares_band p (rec_fp r))" by blast
    then have "band_pool p (set rs) = set rs" by (simp only: band_pool_def if_False)
    then show ?thesis using cs fold by (simp only: best_in_corpus_def bindR_simps True refl if_True)
  next
    case False
    then obtain r where "r \<in> set cs" by (meson list.set_sel(1))
    then have "\<exists>r \<in> set rs. shares_band p (rec_fp r)" unfolding set_cs by blast
    then have "band_pool p (set rs) = set cs" unfolding set_cs band_pool_def by (rule if_P)
    moreover have "foldl (best_step p) None cs = best_spec p (set cs)"
      using wf set_cs by (intro best_fold_None) simp
    ultimately show ?thesis using cs by (simp only: best_in_corpus_def bindR_simps False if_False)
  qed
qed

lemma triage_side_spec:
  assumes "inv c" and "all_recs c = Inr rs" and "\<forall>f \<in> set target. wf_fp (if_fp f)"
  shows "triage_side all_recs cands target c = Inr (map (\<lambda>f.
    if \<not> has_signal f then None
    else map_option (\<lambda>(s, n, _). (s, n)) (best_spec (if_fp f) (band_pool (if_fp f) (set rs)))) target)"
  unfolding triage_side_def assms(2) bindR_simps Let_def
proof (rule mapR_map)
  fix f assume "f \<in> set target"
  then have "wf_fp (if_fp f)" using assms(3) by blast
  from best_in_corpus_spec [OF assms(1,2) this]
  show "(if \<not> has_signal f then Inr None
      else bindR (best_in_corpus cands (if_fp f) c (filter (\<lambda>r. rec_name r \<noteq> None) rs))
        (\<lambda>h. Inr (map_option (\<lambda>(s, n, _). (s, n)) h)))
    = Inr (if \<not> has_signal f then None
        else map_option (\<lambda>(s, n, _). (s, n)) (best_spec (if_fp f) (band_pool (if_fp f) (set rs))))"
    by (simp only: bindR_simps) (simp only: if_distrib [where f = Inr])
qed

end

section \<open>Triage facts\<close>

lemma mset_triage_out:
  "length v = length target \<Longrightarrow> length pt = length target \<Longrightarrow>
   mset (map th_entry (concat (map (\<lambda>(i, f). if has_signal f then [triage_hit ms mg f (v ! i) (pt ! i)] else [])
     (enumerated target)))) = mset (map if_entry (filter has_signal target))"
proof (induction target arbitrary: v pt rule: rev_induct)
  case (snoc f target)
  obtain v' x where v: "v = v' @ [x]" using snoc.prems(1) by (cases v rule: rev_cases) auto
  obtain pt' y where pt: "pt = pt' @ [y]" using snoc.prems(2) by (cases pt rule: rev_cases) auto
  have len: "length v' = length target" "length pt' = length target" using snoc.prems v pt by simp_all
  have eq: "map (\<lambda>(i, f). if has_signal f then [triage_hit ms mg f (v ! i) (pt ! i)] else []) (enumerated target)
      = map (\<lambda>(i, f). if has_signal f then [triage_hit ms mg f (v' ! i) (pt' ! i)] else []) (enumerated target)"
    using len by (auto simp: v pt nth_append set_enumerated)
  show ?case unfolding enumerated_snoc map_append eq concat_append mset_append snoc.IH [OF len]
    by (simp add: triage_hit_def split_beta)
qed (simp add: enumerated_def)

lemma triage_hit_verdict:
  "th_verdict (triage_hit ms mg f v p) = decide (th_vuln_sim (triage_hit ms mg f v p)) (th_patched_sim (triage_hit ms mg f v p)) ms mg"
  by (simp add: triage_hit_def split: prod.split)

lemma fneg_fneg [simp]: "fneg (fneg a) = a"
  by (cases a) simp_all

lemma fl_neg: "fl F (- x) = fneg (fl F x)"
proof -
  have "(0::rat) < 2 powi emax F" by simp
  then have "2 powi emax F \<le> r \<Longrightarrow> \<not> 2 powi emax F \<le> - r" for r :: rat by linarith
  then show ?thesis by (auto simp: fl_def Let_def rnd_minus le_minus_iff minus_le_iff)
qed

text \<open>The sum of opposites is the opposite of the sum: rounding is symmetric.\<close>

lemma fadd_neg: "fadd F (fneg a) (fneg b) = fneg (fadd F a b)"
proof -
  have "fl F (- x - y) = fneg (fl F (x + y))" for x y
  proof -
    have "- x - y = - (x + y)" by simp
    then show ?thesis using fl_neg [of F "x + y"] by (simp only:)
  qed
  then show ?thesis by (cases a; cases b) simp_all
qed

lemma fadd_comm: "fadd F a b = fadd F b a"
  by (cases a; cases b) (simp_all add: add.commute)

lemma fsub_swap: "fsub F b a = fneg (fsub F a b)"
  using fadd_neg [of F a "fneg b"] by (simp add: fsub_def fadd_comm)

lemma fmax_comm: "fmax a b = fmax b a"
  by (auto simp: fmax_def max_def)

lemma flt_le_neg: "flt_less (Fin 0) m \<Longrightarrow> flt_le m d \<Longrightarrow> \<not> flt_le m (fneg d)"
  by (cases m; cases d) (auto simp: flt_less_def flt_le_def)

fun flip_verdict :: "Verdict \<Rightarrow> Verdict" where
  "flip_verdict Vulnerable = Patched"
| "flip_verdict Patched = Vulnerable"
| "flip_verdict Inconclusive = Inconclusive"

lemma decide_swap: "flt_less (Fin 0) mrg \<Longrightarrow> decide p v ms mrg = flip_verdict (decide v p ms mrg)"
  using flt_le_neg [of mrg "fsub binary64 v p"] flt_le_neg [of mrg "fneg (fsub binary64 v p)"]
  by (auto simp: decide_def fmax_comm [of p v] fsub_swap [of binary64 p v])

section \<open>Properties\<close>

text \<open>The by-name diff does not depend on the iteration order of its hash maps: any two orders give
  the same report, ties in similarity included.\<close>

theorem match_by_name_deterministic:
  assumes "enum_ok enum" and "enum_ok enum'"
  shows "match_by_name enum a b = match_by_name enum' a b"
  using assms by (rule match_by_name_enum)

text \<open>Functions with a constant signature, for the instances below.\<close>

definition demo_func :: "string option \<Rightarrow> u64 \<Rightarrow> u64 \<Rightarrow> IndexedFunc" where
  "demo_func n c e = \<lparr>if_name = n, if_entry = e, if_source = Symtab, if_fp = const_fp c,
     if_coverage = Fin 1, if_callees = []\<rparr>"

theorem match_by_name_deterministic_witness:
  "match_by_name remdups [demo_func (Some ''f'') 1 16, demo_func (Some ''g'') 2 32] [demo_func (Some ''g'') 3 64]
   = match_by_name (\<lambda>xs. rev (remdups xs)) [demo_func (Some ''f'') 1 16, demo_func (Some ''g'') 2 32]
       [demo_func (Some ''g'') 3 64]"
  by (rule match_by_name_deterministic) (simp_all add: enum_ok_def)

text \<open>The by-name diff sorts every name into exactly one place: a name of both builds is compared and
  then counted once as low signal, same or changed; a name of one build only is listed for that side.\<close>

theorem match_by_name_accounts_for_every_name:
  assumes "enum_ok enum"
  shows "set (only_a (match_by_name enum a b)) = names a - names b
    \<and> set (only_b (match_by_name enum a b)) = names b - names a
    \<and> compared (match_by_name enum a b) = card (names a \<inter> names b)
    \<and> compared (match_by_name enum a b) = same (match_by_name enum a b)
        + length (changed (match_by_name enum a b)) + low_signal (match_by_name enum a b)"
  using match_by_name_partition [OF assms] by blast

theorem match_by_name_accounts_for_every_name_witness:
  "set (only_a (match_by_name remdups [demo_func (Some ''f'') 1 16] [demo_func (Some ''g'') 3 64])) = names [demo_func (Some ''f'') 1 16] - names [demo_func (Some ''g'') 3 64]
    \<and> set (only_b (match_by_name remdups [demo_func (Some ''f'') 1 16] [demo_func (Some ''g'') 3 64])) = names [demo_func (Some ''g'') 3 64] - names [demo_func (Some ''f'') 1 16]
    \<and> compared (match_by_name remdups [demo_func (Some ''f'') 1 16] [demo_func (Some ''g'') 3 64]) = card (names [demo_func (Some ''f'') 1 16] \<inter> names [demo_func (Some ''g'') 3 64])
    \<and> compared (match_by_name remdups [demo_func (Some ''f'') 1 16] [demo_func (Some ''g'') 3 64]) = same (match_by_name remdups [demo_func (Some ''f'') 1 16] [demo_func (Some ''g'') 3 64]) + length (changed (match_by_name remdups [demo_func (Some ''f'') 1 16] [demo_func (Some ''g'') 3 64])) + low_signal (match_by_name remdups [demo_func (Some ''f'') 1 16] [demo_func (Some ''g'') 3 64])"
  by (rule match_by_name_accounts_for_every_name) (simp add: enum_ok_def)

text \<open>C30: The best corpus hit of a print depends only on which records the corpus holds: it is the
  named record with signal that is most similar, ties going to the smaller (name, binary), over the
  band sharers or, when there is none, over the whole corpus.\<close>

theorem best_hit_is_optimal:
  assumes "db_inv enum db" and "db_all db = Inr rs" and "wf_fp p"
  shows "best_in_corpus (db_candidates enum) p db (filter (\<lambda>r. rec_name r \<noteq> None) rs)
      = Inr (best_spec p (band_pool p (set rs)))
    \<and> best_in_corpus mem_candidates p (from_records rs) (filter (\<lambda>r. rec_name r \<noteq> None) rs)
      = Inr (best_spec p (band_pool p (set rs)))"
proof
  show "best_in_corpus (db_candidates enum) p db (filter (\<lambda>r. rec_name r \<noteq> None) rs)
      = Inr (best_spec p (band_pool p (set rs)))"
    by (rule dbc.best_in_corpus_spec [OF assms])
  show "best_in_corpus mem_candidates p (from_records rs) (filter (\<lambda>r. rec_name r \<noteq> None) rs)
      = Inr (best_spec p (band_pool p (set rs)))"
    by (rule mem.best_in_corpus_spec [OF mem_inv_from_db [OF assms(2)] _ assms(3)])
      (simp add: mem_all_def from_records_def)
qed

theorem best_hit_is_optimal_witness:
  "best_in_corpus (db_candidates remdups) (const_fp 5) (one_row_db\<lparr>bands := print_bands (const_print 5) 1\<rparr>)
      (filter (\<lambda>r. rec_name r \<noteq> None) [print_rec ''a.out'' (const_print 5) 1])
      = Inr (best_spec (const_fp 5) (band_pool (const_fp 5) (set [print_rec ''a.out'' (const_print 5) 1])))
    \<and> best_in_corpus mem_candidates (const_fp 5) (from_records [print_rec ''a.out'' (const_print 5) 1])
      (filter (\<lambda>r. rec_name r \<noteq> None) [print_rec ''a.out'' (const_print 5) 1])
      = Inr (best_spec (const_fp 5) (band_pool (const_fp 5) (set [print_rec ''a.out'' (const_print 5) 1])))"
  by (rule best_hit_is_optimal [OF one_row_db_inv _ wf_const_fp]) (use one_row_db_all in \<open>simp add: db_all_def\<close>)


lemma eligible_demo: "print_rec ''a.out'' (const_print 5) 1 \<in> eligible (set [print_rec ''a.out'' (const_print 5) 1])"
  by (simp add: eligible_def print_rec_def const_print_def const_fp_def MIN_COMPLEXITY_def)


text \<open>The result a pair of a target function and a corpus row stands for.\<close>

definition named_hit :: "IndexedFunc list \<Rightarrow> FuncRec list \<Rightarrow> Pair \<Rightarrow> Named" where
  "named_hit target rows p =
     \<lparr>nm_entry = if_entry (target ! pr_a p), nm_guess = the (rec_name (rows ! pr_b p)),
      nm_from_binary = rec_binary (rows ! pr_b p), nm_similarity = similarity (if_fp (target ! pr_a p)) (rec_fp (rows ! pr_b p)),
      nm_graph = pr_graph p, nm_score = pr_score p\<rparr>"

text \<open>Query names by a one-to-one alignment: the results are those of pairwise distinct target
  functions and pairwise distinct named corpus rows, each with the name and binary of its row, with
  signal on both sides, a similarity that is the one of the two prints, and a score at or above the
  threshold; they come best score first.\<close>

theorem query_names_one_to_one:
  assumes "all_recs db = Inr rs" and "query_corpus all_recs target db th gw = Inr out"
  shows "\<exists>ps. distinct (map pr_a ps) \<and> distinct (map pr_b ps)
    \<and> mset out = mset (map (named_hit target (filter (\<lambda>r. rec_name r \<noteq> None) rs)) ps)
    \<and> list_all (\<lambda>p. pr_a p < length target \<and> pr_b p < length (filter (\<lambda>r. rec_name r \<noteq> None) rs)
        \<and> usable (if_fp (target ! pr_a p)) \<and> usable (rec_fp (filter (\<lambda>r. rec_name r \<noteq> None) rs ! pr_b p))
        \<and> flt_le th (pr_score p)) ps
    \<and> sorted (map (\<lambda>n. Desc (nm_score n)) out)"
proof -
  define rows where "rows = filter (\<lambda>r. rec_name r \<noteq> None) rs"
  define opts where "opts = \<lparr>threshold = th, graph_weight = gw, rounds = 2\<rparr>"
  define ps where "ps = align (map from_indexed target) (map from_rec rows) opts"
  have ok: "cand_ok (map from_indexed target) (map from_rec rows) (pr_a p, pr_b p, pr_sim p) \<and> flt_le th (pr_score p)"
    if "p \<in> set ps" for p
    using align_pair_ok(1,2) [OF that [unfolded ps_def]] by (simp add: opts_def)
  let ?k = "\<lambda>n. (Desc (nm_score n), Desc (nm_similarity n), nm_entry n)"
  have "out = sort_key ?k (map (\<lambda>p. \<lparr>nm_entry = if_entry (target ! pr_a p),
                     nm_guess = (case rec_name (rows ! pr_b p) of Some n \<Rightarrow> n | None \<Rightarrow> ''''),
                     nm_from_binary = rec_binary (rows ! pr_b p),
                     nm_similarity = pr_sim p, nm_graph = pr_graph p, nm_score = pr_score p\<rparr>) ps)"
    using assms(2) unfolding query_corpus_def assms(1) bindR_simps Let_def rows_def [symmetric]
      opts_def [symmetric] ps_def [symmetric] sum.inject by (rule sym)
  also have "\<dots> = sort_key ?k (map (named_hit target rows) ps)"
  proof (rule arg_cong [where f = "sort_key ?k"], rule map_cong [OF refl])
    fix p assume "p \<in> set ps"
    with ok have p: "pr_a p < length target" "pr_b p < length rows"
      "pr_sim p = similarity (if_fp (target ! pr_a p)) (rec_fp (rows ! pr_b p))"
      by (auto simp: cand_ok_def from_indexed_def from_rec_def)
    then have "rows ! pr_b p \<in> set rows" by simp
    then have "rec_name (rows ! pr_b p) \<noteq> None" unfolding rows_def by auto
    with p(3) show "\<lparr>nm_entry = if_entry (target ! pr_a p),
        nm_guess = (case rec_name (rows ! pr_b p) of Some n \<Rightarrow> n | None \<Rightarrow> ''''),
        nm_from_binary = rec_binary (rows ! pr_b p),
        nm_similarity = pr_sim p, nm_graph = pr_graph p, nm_score = pr_score p\<rparr> = named_hit target rows p"
      by (auto simp: named_hit_def)
  qed
  finally have out: "out = sort_key ?k (map (named_hit target rows) ps)" .
  then have "sorted (map ?k out)" by simp
  then have "sorted (map (\<lambda>n. Desc (nm_score n)) out)"
    unfolding sorted_map by (rule sorted_wrt_mono_rel [rotated]) (auto simp: less_eq_prod_def less_le)
  moreover have "list_all (\<lambda>p. pr_a p < length target \<and> pr_b p < length rows
        \<and> usable (if_fp (target ! pr_a p)) \<and> usable (rec_fp (rows ! pr_b p)) \<and> flt_le th (pr_score p)) ps"
    unfolding list_all_iff
  proof
    fix p assume "p \<in> set ps"
    from ok [OF this] show "pr_a p < length target \<and> pr_b p < length rows
        \<and> usable (if_fp (target ! pr_a p)) \<and> usable (rec_fp (rows ! pr_b p)) \<and> flt_le th (pr_score p)"
      by (auto simp: cand_ok_def from_indexed_def from_rec_def)
  qed
  ultimately show ?thesis
    using align_distinct out unfolding rows_def [symmetric] by (intro exI [of _ ps]) (simp add: ps_def)
qed

theorem query_names_one_to_one_witness:
  "\<exists>out ps. query_corpus db_all [demo_func None 5 16] one_row_db (fl64 (7 / 10)) (Fin 1) = Inr out
    \<and> distinct (map pr_a ps) \<and> distinct (map pr_b ps)
    \<and> mset out = mset (map (named_hit [demo_func None 5 16]
        (filter (\<lambda>r. rec_name r \<noteq> None) [print_rec ''a.out'' (const_print 5) 1])) ps)
    \<and> sorted (map (\<lambda>n. Desc (nm_score n)) out)"
proof -
  obtain out where out: "query_corpus db_all [demo_func None 5 16] one_row_db (fl64 (7 / 10)) (Fin 1) = Inr out"
    unfolding query_corpus_def one_row_db_all bindR_simps Let_def by blast
  from query_names_one_to_one [where all_recs = db_all and db = one_row_db, OF one_row_db_all out]
  show ?thesis using out by blast
qed

text \<open>C16: Triage gives the same queue over a database and over the index the trusted parent rebuilds
  from the records a worker read out of it.\<close>

theorem triage_same_from_db_and_memory:
  assumes "db_inv enum vdb" and "db_all vdb = Inr vs" and "db_inv enum pdb" and "db_all pdb = Inr ps"
    and "\<forall>f \<in> set target. wf_fp (if_fp f)"
  shows "triage db_all (db_candidates enum) target vdb pdb ms mg
    = triage mem_all mem_candidates target (from_records vs) (from_records ps) ms mg"
proof -
  have all: "mem_all (from_records rs) = Inr rs" for rs by (simp add: mem_all_def from_records_def)
  show ?thesis
    unfolding triage_def dbc.triage_side_spec [OF assms(1,2,5)] dbc.triage_side_spec [OF assms(3,4,5)]
      mem.triage_side_spec [OF mem_inv_from_db [OF assms(2)] all assms(5)]
      mem.triage_side_spec [OF mem_inv_from_db [OF assms(4)] all assms(5)] ..
qed

theorem triage_same_from_db_and_memory_witness:
  "triage db_all (db_candidates remdups) [demo_func None 5 16] (one_row_db\<lparr>bands := print_bands (const_print 5) 1\<rparr>)
      (one_row_db\<lparr>bands := print_bands (const_print 5) 1\<rparr>) (fl64 (7 / 10)) (fl64 (5 / 100))
    = triage mem_all mem_candidates [demo_func None 5 16] (from_records [print_rec ''a.out'' (const_print 5) 1])
      (from_records [print_rec ''a.out'' (const_print 5) 1]) (fl64 (7 / 10)) (fl64 (5 / 100))"
proof (rule triage_same_from_db_and_memory [OF one_row_db_inv _ one_row_db_inv])
  show "db_all (one_row_db\<lparr>bands := print_bands (const_print 5) 1\<rparr>) = Inr [print_rec ''a.out'' (const_print 5) 1]"
    using one_row_db_all by (simp add: db_all_def)
  then show "db_all (one_row_db\<lparr>bands := print_bands (const_print 5) 1\<rparr>) = Inr [print_rec ''a.out'' (const_print 5) 1]" .
qed (simp add: demo_func_def)

text \<open>The triage queue holds every target function with signal exactly once and no other, the
  vulnerable leads first, then the inconclusive, then the patched, each group by falling
  vulnerable-side similarity.\<close>

theorem triage_queue:
  assumes "triage all_recs cands target vuln patched ms mg = Inr out"
  shows "mset (map th_entry out) = mset (map if_entry (filter has_signal target))
    \<and> sorted (map (\<lambda>h. (verdict_order (th_verdict h), Desc (th_vuln_sim h), th_entry h)) out)
    \<and> list_all (\<lambda>h. th_verdict h = decide (th_vuln_sim h) (th_patched_sim h) ms mg) out"
proof -
  obtain v pt where v: "triage_side all_recs cands target vuln = Inr v" "triage_side all_recs cands target patched = Inr pt"
    and out: "out = sort_key (\<lambda>h. (verdict_order (th_verdict h), Desc (th_vuln_sim h), th_entry h))
      (concat (map (\<lambda>(i, f). if has_signal f then [triage_hit ms mg f (v ! i) (pt ! i)] else []) (enumerated target)))"
    using assms by (auto simp: triage_def bindR_Inr Let_def)
  have len: "length w = length target" if "triage_side all_recs cands target db = Inr w" for db w
    using that by (auto simp: triage_side_def bindR_Inr Let_def mapR_Inr dest: list_all2_lengthD)
  have "mset (map th_entry out) = mset (map if_entry (filter has_signal target))"
    using mset_triage_out [OF len [OF v(1)] len [OF v(2)], of ms mg] by (simp add: out)
  moreover have "th_verdict h = decide (th_vuln_sim h) (th_patched_sim h) ms mg" if "h \<in> set out" for h
    using that by (auto simp: out triage_hit_verdict split: if_splits)
  ultimately show ?thesis by (simp add: out list_all_iff)
qed

theorem triage_queue_witness:
  "\<exists>out. triage mem_all mem_candidates [demo_func None 5 16] (from_records []) (from_records []) (fl64 (7 / 10)) (fl64 (5 / 100)) = Inr out
    \<and> mset (map th_entry out) = mset (map if_entry (filter has_signal [demo_func None 5 16]))
    \<and> sorted (map (\<lambda>h. (verdict_order (th_verdict h), Desc (th_vuln_sim h), th_entry h)) out)
    \<and> list_all (\<lambda>h. th_verdict h = decide (th_vuln_sim h) (th_patched_sim h) (fl64 (7 / 10)) (fl64 (5 / 100))) out"
proof -
  have inv: "mem_inv (from_records [])" "mem_all (from_records []) = Inr []"
    by (simp_all add: mem_inv_def from_records_def mem_all_def)
  have wf: "\<forall>f \<in> set [demo_func None 5 16]. wf_fp (if_fp f)" by (simp add: demo_func_def)
  obtain out where out: "triage mem_all mem_candidates [demo_func None 5 16] (from_records []) (from_records [])
      (fl64 (7 / 10)) (fl64 (5 / 100)) = Inr out"
    unfolding triage_def mem.triage_side_spec [OF inv wf] bindR_simps Let_def by blast
  from triage_queue [OF out] out show ?thesis by blast
qed

text \<open>A verdict is about the two sides alone: swapping the vulnerable and the patched similarity swaps
  the verdict, for every margin above 0, rounding of the difference included; in particular equal
  similarities are never called either way.\<close>

theorem verdict_is_symmetric:
  assumes "flt_less (Fin 0) mrg"
  shows "decide p v ms mrg = flip_verdict (decide v p ms mrg) \<and> decide v v ms mrg = Inconclusive"
proof -
  have "decide v v ms mrg = flip_verdict (decide v v ms mrg)" by (rule decide_swap [OF assms])
  then have "decide v v ms mrg = Inconclusive" by (cases "decide v v ms mrg") auto
  then show ?thesis using decide_swap [OF assms, of p v ms] by blast
qed

theorem verdict_is_symmetric_witness:
  "decide (Fin (1 / 4)) (Fin (3 / 4)) (Fin (1 / 2)) (Fin (1 / 8))
     = flip_verdict (decide (Fin (3 / 4)) (Fin (1 / 4)) (Fin (1 / 2)) (Fin (1 / 8)))
   \<and> decide (Fin (3 / 4)) (Fin (3 / 4)) (Fin (1 / 2)) (Fin (1 / 8)) = Inconclusive"
  by (rule verdict_is_symmetric) (simp add: flt_less_def)

section \<open>The aligned diff and the evaluation\<close>

lemma aligned_fold:
  "same (foldl (aligned_step a b) rep ps) + length (changed (foldl (aligned_step a b) rep ps))
     = same rep + length (changed rep) + length ps
   \<and> compared (foldl (aligned_step a b) rep ps) = compared rep + length ps"
  by (induction ps arbitrary: rep) (simp_all add: aligned_step_def Let_def)

lemma length_unpaired:
  "length (unpaired taken fs) = card {i. i < length fs \<and> \<not> taken ! i \<and> has_signal (fs ! i)}"
proof -
  have "length (concat (map (\<lambda>(i, f). if \<not> taken ! i \<and> has_signal f then [func_label f] else []) xs))
      = length (filter (\<lambda>(i, f). \<not> taken ! i \<and> has_signal f) xs)" for xs
    by (induction xs) (auto split: if_splits)
  moreover have "length (filter (\<lambda>(i, f). \<not> taken ! i \<and> has_signal f) (enumerated fs))
      = card {i. i < length fs \<and> \<not> taken ! i \<and> has_signal (fs ! i)}"
    by (simp add: length_filter_conv_card) (rule arg_cong [where f = card], auto)
  ultimately show ?thesis by (simp add: unpaired_def)
qed

lemma match_aligned_partition:
  fixes a b gw
  defines "rep \<equiv> match_aligned a b gw"
  shows "compared rep = same rep + length (changed rep)"
    and "compared rep + length (only_a rep) + low_signal rep = length a"
    and "compared rep + length (only_b rep) = length (filter has_signal b)"
proof -
  define ps where "ps = align (map from_indexed a) (map from_indexed b)
      \<lparr>threshold = fl64 (45 / 100), graph_weight = gw, rounds = 2\<rparr>"
  define r0 where "r0 = foldl (aligned_step a b) empty_report ps"
  have r0: "same r0 + length (changed r0) = length ps" "compared r0 = length ps"
    using aligned_fold [of a b empty_report ps] by (simp_all add: r0_def empty_report_def)
  have rep: "compared rep = compared r0" "same rep = same r0" "length (changed rep) = length (changed r0)"
    "length (only_a rep) = length (unpaired (paired_of pr_a (length a) ps) a)"
    "length (only_b rep) = length (unpaired (paired_of pr_b (length b) ps) b)"
    "low_signal rep = length (filter (\<lambda>f. complexity (if_fp f) < MIN_COMPLEXITY \<or> shingles (if_fp f) = 0) a)"
    by (simp_all add: rep_def match_aligned_def Let_def sort_report_def ps_def r0_def)
  show "compared rep = same rep + length (changed rep)" using rep r0 by simp
  have ok: "pr_a p < length a \<and> pr_b p < length b \<and> has_signal (a ! pr_a p) \<and> has_signal (b ! pr_b p)" if "p \<in> set ps" for p
    using align_pair_ok(1) [OF that [unfolded ps_def]]
    by (auto simp: cand_ok_def from_indexed_def usable_def has_signal_def)
  have dist: "distinct (map pr_a ps)" "distinct (map pr_b ps)" using align_distinct by (simp_all add: ps_def)
  have side: "length ps + length (unpaired (paired_of f (length xs) ps) xs) = length (filter has_signal xs)"
    if f: "distinct (map f ps)" "\<forall>p \<in> set ps. f p < length xs \<and> has_signal (xs ! f p)" for f and xs :: "IndexedFunc list"
  proof -
    let ?S = "{i. i < length xs \<and> has_signal (xs ! i)}" and ?P = "f ` set ps"
    have "{i. i < length xs \<and> \<not> paired_of f (length xs) ps ! i \<and> has_signal (xs ! i)} = ?S - ?P"
      using paired_of_nth [of ps f "length xs"] f(2) by auto
    moreover have "?P \<subseteq> ?S" using f(2) by auto
    moreover have "card ?P = length ps" using distinct_card [OF f(1)] by simp
    moreover have "card ?P \<le> card ?S" using calculation(2) by (intro card_mono) auto
    ultimately have "length ps + card {i. i < length xs \<and> \<not> paired_of f (length xs) ps ! i \<and> has_signal (xs ! i)} = card ?S"
      by (simp add: card_Diff_subset)
    then show ?thesis by (simp add: length_unpaired length_filter_conv_card)
  qed
  have low: "length (filter has_signal a) + low_signal rep = length a"
  proof -
    have "(\<lambda>f. complexity (if_fp f) < MIN_COMPLEXITY \<or> shingles (if_fp f) = 0) = (\<lambda>f. \<not> has_signal f)"
      by (auto simp: has_signal_def not_le word_neq_0_conv)
    then show ?thesis unfolding rep(6) by (simp only: sum_length_filter_compl)
  qed
  show "compared rep + length (only_a rep) + low_signal rep = length a"
    using side [OF dist(1)] ok low r0 rep by auto
  show "compared rep + length (only_b rep) = length (filter has_signal b)"
    using side [OF dist(2)] ok r0 rep by auto
qed

text \<open>The aligned diff accounts for every function: each function of \<open>a\<close> is compared, listed as only in
  \<open>a\<close>, or counted as low signal, and each function of \<open>b\<close> with signal is compared or listed as only in \<open>b\<close>;
  what is compared is the same or changed.\<close>

theorem match_aligned_accounts_for_every_function:
  "compared (match_aligned a b gw) = same (match_aligned a b gw) + length (changed (match_aligned a b gw))
   \<and> compared (match_aligned a b gw) + length (only_a (match_aligned a b gw)) + low_signal (match_aligned a b gw) = length a
   \<and> compared (match_aligned a b gw) + length (only_b (match_aligned a b gw)) = length (filter has_signal b)"
  using match_aligned_partition [of a b gw] by blast

text \<open>The counters stay consistent while the functions of \<open>a\<close> are scored.\<close>

definition eval_inv :: "EvalResult \<Rightarrow> bool" where
  "eval_inv r \<longleftrightarrow> ev_tp r + ev_fp r + abstained r = scored r \<and> ev_fn r \<le> abstained r
     \<and> length (ranks r) = scored r \<and> rank1 r = length (filter (\<lambda>k. k = 1) (ranks r))
     \<and> list_all (\<lambda>k. 1 \<le> k) (ranks r) \<and> rank1 r = ev_tp r + ev_fn r
     \<and> align_correct r \<le> align_paired r \<and> align_paired r \<le> scored r
     \<and> align_tp r \<le> align_correct r \<and> align_tp r + align_fp r \<le> align_paired r"

lemma position_Some: "(\<exists>x \<in> set xs. P x) \<Longrightarrow> \<exists>k. position P xs = Some k \<and> k < length xs"
  by (induction xs) auto

lemma position_head: "position P (x # xs) = Some k \<Longrightarrow> k = 0 \<longleftrightarrow> P x"
  by (auto split: if_splits)

lemma eval_rank_inv:
  assumes inv: "eval_inv r" and twin: "\<exists>x \<in> set ((ts, tn) # rest). snd x = aname"
  shows "eval_inv (eval_rank aname ((ts, tn) # rest) ts tn r\<lparr>align_paired := align_paired r\<rparr>)"
    and "scored (eval_rank aname ((ts, tn) # rest) ts tn r) = Suc (scored r)"
    and "align_paired (eval_rank aname ((ts, tn) # rest) ts tn r) = align_paired r"
    and "align_correct (eval_rank aname ((ts, tn) # rest) ts tn r) = align_correct r"
    and "align_tp (eval_rank aname ((ts, tn) # rest) ts tn r) = align_tp r"
    and "align_fp (eval_rank aname ((ts, tn) # rest) ts tn r) = align_fp r"
proof -
  obtain k where k: "position (\<lambda>x. snd x = aname) ((ts, tn) # rest) = Some k"
    using position_Some [OF twin] by blast
  have k0: "k = 0 \<longleftrightarrow> tn = aname" using position_head [OF k] by simp
  show "eval_inv (eval_rank aname ((ts, tn) # rest) ts tn r\<lparr>align_paired := align_paired r\<rparr>)"
    using inv k0 unfolding eval_rank_def k Let_def
    by (cases "flt_le SAME_THRESH ts"; cases "tn = aname") (simp_all add: eval_inv_def)
  show "scored (eval_rank aname ((ts, tn) # rest) ts tn r) = Suc (scored r)"
    "align_paired (eval_rank aname ((ts, tn) # rest) ts tn r) = align_paired r"
    "align_correct (eval_rank aname ((ts, tn) # rest) ts tn r) = align_correct r"
    "align_tp (eval_rank aname ((ts, tn) # rest) ts tn r) = align_tp r"
    "align_fp (eval_rank aname ((ts, tn) # rest) ts tn r) = align_fp r"
    unfolding eval_rank_def k Let_def
    by (cases "flt_le SAME_THRESH ts"; cases "tn = aname"; simp)+
qed

lemma eval_partner_inv:
  assumes "eval_inv r" and "align_paired r < scored r"
  shows "eval_inv (eval_partner aname b p r)"
  using assms by (cases p) (auto simp: eval_partner_def Let_def eval_inv_def)

lemma eval_step_inv:
  assumes inv: "eval_inv r" and bsig: "bsig = filter (\<lambda>f. has_signal f \<and> if_name f \<noteq> None) b"
  shows "eval_inv (eval_step b bsig partner r (ia, fa))"
proof (cases "\<exists>aname. has_signal fa \<and> if_name fa = Some aname \<and> list_ex (\<lambda>f. if_name f = Some aname) bsig")
  case True
  then obtain aname where an: "has_signal fa" "if_name fa = Some aname" "list_ex (\<lambda>f. if_name f = Some aname) bsig"
    by blast
  then obtain g where g: "g \<in> set bsig" "if_name g = Some aname" by (auto simp: list_ex_iff)
  then have "(similarity (if_fp fa) (if_fp g), aname) \<in> set (rank_list bsig fa)"
    by (force simp: rank_list_def set_map_filter_Some)
  then have twin: "\<exists>x \<in> set (rank_list bsig fa). snd x = aname" by force
  then obtain ts tn rest where rl: "rank_list bsig fa = (ts, tn) # rest"
    by (cases "rank_list bsig fa") auto
  let ?r = "eval_rank aname ((ts, tn) # rest) ts tn r"
  note R = eval_rank_inv [OF inv twin [unfolded rl]]
  have "?r\<lparr>align_paired := align_paired r\<rparr> = ?r" using R(3) by simp
  then have "eval_inv ?r" using R(1) by simp
  moreover have "align_paired ?r < scored ?r" using inv R(2,3) by (simp add: eval_inv_def)
  ultimately have "eval_inv (eval_partner aname b (partner ia) ?r)" by (rule eval_partner_inv)
  then show ?thesis using an rl by (simp add: eval_step_def)
next
  case False
  then have "eval_step b bsig partner r (ia, fa) = r" by (auto simp: eval_step_def split: option.splits)
  then show ?thesis using inv by simp
qed

lemma eval_inv_eval: "eval_inv (eval a b gw)"
proof -
  have "eval_inv (foldl (eval_step b bsig partner) r xs)"
    if "eval_inv r" and "bsig = filter (\<lambda>f. has_signal f \<and> if_name f \<noteq> None) b" for partner r xs bsig
    using that(1)
  proof (induction xs arbitrary: r)
    case (Cons x xs)
    have "eval_inv (eval_step b bsig partner r x)"
      using eval_step_inv [OF Cons.prems that(2), of partner "fst x" "snd x"] by simp
    then show ?case using Cons.IH by simp
  qed simp
  moreover have "eval_inv empty_eval" by (simp add: eval_inv_def empty_eval_def)
  ultimately show ?thesis unfolding eval_def Let_def by blast
qed

lemma ratio_unit:
  assumes "n \<le> d" and "d \<le> 2 ^ 64"
  shows "Fin 0 \<le> ratio n d \<and> ratio n d \<le> Fin 1"
  using fdiv_nat_unit [of n d] assms by (auto simp: ratio_def)

text \<open>The evaluation counts consistently: of the scored functions each is a true positive, a false
  positive or an abstention, each has exactly one rank, a rank is 1 exactly when the top hit is right
  (so rank-1 accuracy is recall at 1), and the aligned counts are bounded by the pairs and the pairs by the
  scored functions.\<close>

theorem eval_counts_consistent:
  "ev_tp (eval a b gw) + ev_fp (eval a b gw) + abstained (eval a b gw) = scored (eval a b gw)
   \<and> length (ranks (eval a b gw)) = scored (eval a b gw)
   \<and> rank1_acc (eval a b gw) = recall_at (eval a b gw) 1
   \<and> rank1 (eval a b gw) = ev_tp (eval a b gw) + ev_fn (eval a b gw)
   \<and> align_tp (eval a b gw) \<le> align_correct (eval a b gw)
   \<and> align_tp (eval a b gw) + align_fp (eval a b gw) \<le> align_paired (eval a b gw)
   \<and> align_paired (eval a b gw) \<le> scored (eval a b gw)"
proof -
  have inv: "eval_inv (eval a b gw)" by (rule eval_inv_eval)
  have "filter (\<lambda>k. k = 1) ks = filter (\<lambda>k. k \<le> 1) ks" if "list_all (\<lambda>k. 1 \<le> (k :: nat)) ks" for ks
    using that by (induction ks) auto
  with inv have "rank1_acc (eval a b gw) = recall_at (eval a b gw) 1"
    by (simp add: rank1_acc_def recall_at_def eval_inv_def)
  with inv show ?thesis by (simp add: eval_inv_def)
qed

end
