(* ===== verification/Report.thy ===== *)
theory Report
  imports Cli Matching "HOL-Library.Sublist"
begin

text \<open>
  The commands and what they print (\<open>cli/src/main.rs\<close>): the human tables, the JSON values, the rizin scripts, and
  \<open>main\<close> with the way a closed pipe ends it. A command gives the lines it would write; writing them may stop
  at any one. How a JSON value prints is the library's, and a parameter.
\<close>

section \<open>Output values\<close>

datatype json =
    JNull
  | JBool bool
  | JNum nat
  | JFlt flt
  | JStr string
  | JArr "json list"
  | JObj "(string \<times> json) list"

text \<open>A number that is not finite becomes \<open>null\<close>.\<close>

definition json_flt :: "flt \<Rightarrow> json" where
  "json_flt x = (if is_finite x then JFlt x else JNull)"

definition json_opt :: "string option \<Rightarrow> json" where
  "json_opt s = (case s of None \<Rightarrow> JNull | Some t \<Rightarrow> JStr t)"

definition OUTPUT_SCHEMA_VERSION :: nat where "OUTPUT_SCHEMA_VERSION = 1"

datatype Format = Human | Json | R2

text \<open>The process that runs a command: the parent of the workers, the files, how a JSON value and a completion
  script print, and the statements of the corpus it writes that fail.\<close>

record console =
  cn_parent :: parent
  cn_files :: "string \<Rightarrow> input_file"
  cn_json :: "json \<Rightarrow> string"
  cn_script :: "string \<Rightarrow> string"
  cn_fault :: "nat \<Rightarrow> bool"
  cn_rowid :: "row list \<Rightarrow> u64"
  cn_enum :: "string list \<Rightarrow> string list"

definition newline :: string where "newline = [CHR 0x0A]"

text \<open>Going on after a step that may fail or never end.\<close>

definition and_then :: "('e + 'a) option \<Rightarrow> ('a \<Rightarrow> ('e + 'b) option) \<Rightarrow> ('e + 'b) option" where
  "and_then m f = (case m of None \<Rightarrow> None | Some (Inl e) \<Rightarrow> Some (Inl e) | Some (Inr x) \<Rightarrow> f x)"

lemma and_then_Inr: "and_then m f = Some (Inr y) \<longleftrightarrow> (\<exists>x. m = Some (Inr x) \<and> f x = Some (Inr y))"
  by (auto simp: and_then_def split: option.splits sum.splits)

definition emit_json :: "console \<Rightarrow> json \<Rightarrow> string list" where
  "emit_json cn v = [cn_json cn v]"

text \<open>The tail of a capped table.\<close>

definition more_rows :: "string \<Rightarrow> nat \<Rightarrow> nat \<Rightarrow> string list" where
  "more_rows indent n limit =
     (let shown = min n (row_cap limit) in
      if shown < n then [indent @ ''... '' @ dec (n - shown) @ '' more (raise --limit or --limit 0 for all)''] else [])"

section \<open>Index\<close>

definition label_of :: "string \<Rightarrow> string" where
  "label_of binary = (case file_name binary of Some n \<Rightarrow> n | None \<Rightarrow> binary)"

definition named_count :: "IndexedFunc list \<Rightarrow> nat" where
  "named_count fs = length (filter (\<lambda>f. if_name f \<noteq> None) fs)"

definition signal_cov :: "IndexedFunc list \<Rightarrow> flt list" where
  "signal_cov fs = map if_coverage (filter (\<lambda>f. MIN_COMPLEXITY \<le> complexity (if_fp f)) fs)"

definition mean_cov :: "flt list \<Rightarrow> flt option" where
  "mean_cov cs =
     (if cs = [] then None else Some (fdiv binary32 (foldl (fadd binary32) (Fin 0) cs) (f32_of_nat (length cs))))"

definition index_json :: "string \<Rightarrow> string option \<Rightarrow> IndexedFunc list \<Rightarrow> json" where
  "index_json label wrote fs =
     JObj [(''schema_version'', JNum OUTPUT_SCHEMA_VERSION),
       (''binary'', JStr (esc label)),
       (''functions'', JNum (length fs)),
       (''named'', JNum (named_count fs)),
       (''with_signal'', JNum (length (signal_cov fs))),
       (''wrote'', json_opt wrote),
       (''funcs'', JArr (map (\<lambda>f. JObj [
          (''entry'', JStr (hex_u64 (if_entry f))),
          (''name'', json_opt (map_option esc (if_name f))),
          (''source'', JStr (source_str (if_source f))),
          (''complexity'', JNum (unat (complexity (if_fp f)))),
          (''shingles'', JNum (unat (shingles (if_fp f)))),
          (''capped'', JBool (fp_capped (if_fp f))),
          (''coverage'', json_flt (if_coverage f))]) fs))]"

definition index_lines :: "string \<Rightarrow> string option \<Rightarrow> IndexedFunc list \<Rightarrow> string list" where
  "index_lines label wrote fs =
     (let start = esc label @ '': '' @ dec (length fs) @ '' functions, '' @ dec (named_count fs) @ '' named, ''
                    @ dec (length (signal_cov fs)) @ '' with enough signal'' in
      [case mean_cov (signal_cov fs) of
         Some c \<Rightarrow> start @ '' ('' @ percent binary32 0 c @ ''% mean coverage)''
       | None \<Rightarrow> start]
      @ (case wrote of None \<Rightarrow> [] | Some path \<Rightarrow> [''wrote '' @ dec (length fs) @ '' prints -> '' @ esc path]))"

text \<open>With \<open>-o\<close>, the whole binary is written in one transaction before a line is printed. The first component is
  the corpus as it is afterwards.\<close>

definition index_write :: "console \<Rightarrow> string \<Rightarrow> string option \<Rightarrow> IndexedFunc list \<Rightarrow> Db option \<times> (cli_error + string option)" where
  "index_write cn label out fs =
     (case out of
        None \<Rightarrow> (None, Inr None)
      | Some path \<Rightarrow>
          (case pa_open_db (cn_parent cn) path of
             Inl e \<Rightarrow> (None, Inl (DbError e))
           | Inr db \<Rightarrow>
               (case insert_all (cn_fault cn) (cn_rowid cn) label (map to_print fs) db of
                  (db', Inl e) \<Rightarrow> (Some db', Inl (DbError e))
                | (db', Inr _) \<Rightarrow> (Some db', Inr (Some path)))))"

definition cmd_index ::
  "console \<Rightarrow> string \<Rightarrow> string option \<Rightarrow> bool \<Rightarrow> Format \<Rightarrow> (Db option \<times> (cli_error + string list)) option" where
  "cmd_index cn binary out ns fmt =
     (if fmt = R2 then Some (None, Inl R2Unsupported)
      else case read_input binary (cn_files cn binary) of
        Inl e \<Rightarrow> Some (None, Inl e)
      | Inr raw \<Rightarrow>
          (case run_index (cn_parent cn) raw ns of
             None \<Rightarrow> None
           | Some (Inl e) \<Rightarrow> Some (None, Inl e)
           | Some (Inr fs) \<Rightarrow>
               let label = label_of binary; (db, w) = index_write cn label out fs in
               Some (db, bindR w (\<lambda>wrote.
                 Inr (if fmt = Json then emit_json cn (index_json label wrote fs) else index_lines label wrote fs)))))"

section \<open>Match\<close>

definition json_strs :: "string list \<Rightarrow> json" where
  "json_strs ss = JArr (map (\<lambda>s. JStr (esc s)) ss)"

definition match_json :: "bool \<Rightarrow> MatchReport \<Rightarrow> json" where
  "match_json aligned rep =
     JObj [(''schema_version'', JNum OUTPUT_SCHEMA_VERSION),
       (''mode'', JStr (if aligned then ''aligned'' else ''name'')),
       (''compared'', JNum (compared rep)),
       (''unchanged'', JNum (same rep)),
       (''changed'', JArr (map (\<lambda>c. JObj [
          (''name'', JStr (esc (ch_name c))),
          (''similarity'', json_flt (ch_similarity c)),
          (''entry_a'', json_opt (map_option hex_u64 (ch_entry_a c))),
          (''entry_b'', json_opt (map_option hex_u64 (ch_entry_b c)))]) (changed rep))),
       (''low_signal'', JNum (low_signal rep)),
       (''only_a'', json_strs (only_a rep)),
       (''only_b'', json_strs (only_b rep))]"

definition changed_rows :: "nat \<Rightarrow> Changed list \<Rightarrow> string list" where
  "changed_rows limit cs =
     map (\<lambda>c. ''  '' @ pad_left 5 (percent binary64 1 (ch_similarity c)) @ ''%  '' @ esc (ch_name c)) (take (row_cap limit) cs)
     @ more_rows ''  '' (length cs) limit"

definition match_lines :: "string \<Rightarrow> string \<Rightarrow> nat \<Rightarrow> bool \<Rightarrow> MatchReport \<Rightarrow> string list" where
  "match_lines a b limit aligned rep =
     [if aligned
      then ''aligned '' @ dec (compared rep) @ '' function pairs by behavior + call graph (no symbol names needed)''
      else ''compared '' @ dec (compared rep) @ '' functions present in both'',
      ''  unchanged:  '' @ dec (same rep),
      ''  changed:    '' @ dec (length (changed rep)),
      ''  low-signal: '' @ dec (low_signal rep) @ '' (too small to judge)'',
      ''  only in '' @ esc a @ '': '' @ dec (length (only_a rep)),
      ''  only in '' @ esc b @ '': '' @ dec (length (only_b rep))]
     @ (if changed rep = [] then []
        else (newline @ ''changed behavior (lowest similarity first):'') # changed_rows limit (changed rep))"

definition match_report :: "(string list \<Rightarrow> string list) \<Rightarrow> bool \<Rightarrow> IndexedFunc list \<Rightarrow> IndexedFunc list \<Rightarrow> flt \<Rightarrow> MatchReport" where
  "match_report enum aligned ia ib gw = (if aligned then match_aligned ia ib gw else match_by_name enum ia ib)"

definition cmd_match ::
  "console \<Rightarrow> string \<Rightarrow> string \<Rightarrow> nat \<Rightarrow> bool \<Rightarrow> flt \<Rightarrow> bool \<Rightarrow> Format \<Rightarrow> (cli_error + string list) option" where
  "cmd_match cn a b limit force_align gw ns fmt =
     (if fmt = R2 then Some (Inl R2Unsupported)
      else
        and_then (load_index (cn_parent cn) (cn_files cn) a ns) (\<lambda>ia.
        and_then (load_index (cn_parent cn) (cn_files cn) b ns) (\<lambda>ib.
          let aligned = (force_align \<or> \<not> both_named ia ib);
              rep = match_report (cn_enum cn) aligned ia ib gw in
          Some (Inr (if fmt = Json then emit_json cn (match_json aligned rep) else match_lines a b limit aligned rep)))))"

section \<open>Query\<close>

definition query_json :: "flt \<Rightarrow> Named list \<Rightarrow> json" where
  "query_json th ns =
     JObj [(''schema_version'', JNum OUTPUT_SCHEMA_VERSION),
       (''threshold'', json_flt th),
       (''named'', JArr (map (\<lambda>n. JObj [
          (''entry'', JStr (hex_u64 (nm_entry n))),
          (''guess'', JStr (esc (nm_guess n))),
          (''from_binary'', JStr (esc (nm_from_binary n))),
          (''similarity'', json_flt (nm_similarity n)),
          (''graph'', json_flt (nm_graph n)),
          (''score'', json_flt (nm_score n))]) ns))]"

definition afn :: "string \<Rightarrow> u64 \<Rightarrow> string" where
  "afn name entry = ''afn '' @ r2_ident name @ '' '' @ hex_u64 entry"

definition query_r2 :: "flt \<Rightarrow> Named list \<Rightarrow> string list" where
  "query_r2 th ns =
     (''# fnprint: '' @ dec (length ns) @ '' function(s) named at >= '' @ percent binary64 0 th @ ''%'')
     # map (\<lambda>n. afn (nm_guess n) (nm_entry n)) ns"

definition query_row :: "Named \<Rightarrow> string" where
  "query_row n = ''  '' @ hex_010 (nm_entry n) @ ''  '' @ pad_left 5 (percent binary64 1 (nm_similarity n)) @ ''%  ''
     @ pad_left 4 (percent binary64 0 (nm_graph n)) @ ''%  '' @ esc (nm_guess n) @ ''  ('' @ esc (nm_from_binary n) @ '')''"

definition query_lines :: "flt \<Rightarrow> nat \<Rightarrow> Named list \<Rightarrow> string list" where
  "query_lines th limit ns =
     (if ns = [] then [''no matches above '' @ percent binary64 0 th @ ''% (try a lower --threshold)'']
      else [''named '' @ dec (length ns) @ '' function(s):'', ''  addr        sim    graph  name'']
        @ map query_row (take (row_cap limit) ns) @ more_rows ''  '' (length ns) limit)"

definition cmd_query ::
  "console \<Rightarrow> string \<Rightarrow> string \<Rightarrow> flt \<Rightarrow> nat \<Rightarrow> flt \<Rightarrow> bool \<Rightarrow> Format \<Rightarrow> (cli_error + string list) option" where
  "cmd_query cn target corpus_path th limit gw ns fmt =
     and_then (load_index (cn_parent cn) (cn_files cn) target ns) (\<lambda>it.
     and_then (Some (load_corpus (cn_parent cn) (cn_files cn) corpus_path ns)) (\<lambda>db.
     and_then (Some (mapL DbError (query_corpus mem_all it db th gw))) (\<lambda>hits.
       Some (Inr (case fmt of
           Json \<Rightarrow> emit_json cn (query_json th hits)
         | R2 \<Rightarrow> query_r2 th hits
         | Human \<Rightarrow> query_lines th limit hits)))))"
section \<open>Eval\<close>

definition eval_json :: "EvalResult \<Rightarrow> json" where
  "eval_json r =
     JObj [(''schema_version'', JNum OUTPUT_SCHEMA_VERSION),
       (''scored'', JNum (scored r)),
       (''rank1_acc'', json_flt (rank1_acc r)),
       (''recall_at_3'', json_flt (recall_at r 3)),
       (''recall_at_5'', json_flt (recall_at r 5)),
       (''mrr'', json_flt (mrr r)),
       (''precision'', json_flt (precision r)),
       (''recall'', json_flt (recall r)),
       (''abstain_rate'', json_flt (abstain_rate r)),
       (''tp'', JNum (ev_tp r)),
       (''fp'', JNum (ev_fp r)),
       (''abstained'', JNum (abstained r)),
       (''align_acc'', json_flt (align_acc r)),
       (''align_precision'', json_flt (align_precision r)),
       (''align_recall'', json_flt (align_recall r)),
       (''align_tp'', JNum (align_tp r)),
       (''align_fp'', JNum (align_fp r)),
       (''align_paired'', JNum (align_paired r))]"

definition eval_lines :: "flt \<Rightarrow> EvalResult \<Rightarrow> string list" where
  "eval_lines gw r =
     [''scored '' @ dec (scored r) @ '' functions (had signal + a twin in B)'',
      ''  rank-1 accuracy: '' @ percent binary64 1 (rank1_acc r) @ ''%'',
      ''  recall@3:        '' @ percent binary64 1 (recall_at r 3) @ ''%'',
      ''  recall@5:        '' @ percent binary64 1 (recall_at r 5) @ ''%'',
      ''  MRR:             '' @ fixed 3 (mrr r),
      ''  precision@same:  '' @ percent binary64 1 (precision r) @ ''%  ('' @ dec (ev_tp r) @ '' tp / '' @ dec (ev_fp r) @ '' fp)'',
      ''  recall@same:     '' @ percent binary64 1 (recall r) @ ''%'',
      ''  abstained:       '' @ percent binary64 1 (abstain_rate r) @ ''%  ('' @ dec (abstained r) @ '' of '' @ dec (scored r)
        @ '' below same-threshold)'',
      ''aligned (1:1 + call graph, what query does; graph weight '' @ fixed 2 gw @ ''):'',
      ''  aligned-acc:     '' @ percent binary64 1 (align_acc r) @ ''%  ('' @ dec (align_correct r) @ '' of '' @ dec (scored r)
        @ '' paired right)'',
      ''  aligned-prec:    '' @ percent binary64 1 (align_precision r) @ ''%  ('' @ dec (align_tp r) @ '' tp / ''
        @ dec (align_fp r) @ '' fp at same-threshold)'',
      ''  aligned-recall:  '' @ percent binary64 1 (align_recall r) @ ''%'']"

definition cmd_eval :: "console \<Rightarrow> string \<Rightarrow> string \<Rightarrow> flt \<Rightarrow> bool \<Rightarrow> Format \<Rightarrow> (cli_error + string list) option" where
  "cmd_eval cn a b gw ns fmt =
     (if fmt = R2 then Some (Inl R2Unsupported)
      else
        and_then (load_index (cn_parent cn) (cn_files cn) a ns) (\<lambda>ia.
        and_then (load_index (cn_parent cn) (cn_files cn) b ns) (\<lambda>ib.
          let r = eval ia ib gw in
          Some (Inr (if fmt = Json then emit_json cn (eval_json r) else eval_lines gw r)))))"

section \<open>Triage\<close>

fun verdict_str :: "Verdict \<Rightarrow> string" where
  "verdict_str Vulnerable = ''vulnerable''"
| "verdict_str Patched = ''patched''"
| "verdict_str Inconclusive = ''inconclusive''"

definition with_verdict :: "Verdict \<Rightarrow> TriageHit list \<Rightarrow> TriageHit list" where
  "with_verdict v hs = filter (\<lambda>h. th_verdict h = v) hs"

definition triage_json :: "TriageHit list \<Rightarrow> json" where
  "triage_json hs =
     JObj [(''schema_version'', JNum OUTPUT_SCHEMA_VERSION),
       (''counts'', JObj [
          (''vulnerable'', JNum (length (with_verdict Vulnerable hs))),
          (''patched'', JNum (length (with_verdict Patched hs))),
          (''inconclusive'', JNum (length (with_verdict Inconclusive hs)))]),
       (''hits'', JArr (map (\<lambda>h. JObj [
          (''entry'', JStr (hex_u64 (th_entry h))),
          (''verdict'', JStr (verdict_str (th_verdict h))),
          (''vuln_sim'', json_flt (th_vuln_sim h)),
          (''vuln_name'', JStr (esc (th_vuln_name h))),
          (''patched_sim'', json_flt (th_patched_sim h)),
          (''patched_name'', JStr (esc (th_patched_name h))),
          (''margin'', json_flt (margin h)),
          (''coverage'', json_flt (th_coverage h))]) hs))]"

definition triage_r2 :: "TriageHit list \<Rightarrow> string list" where
  "triage_r2 hs =
     (let vulns = with_verdict Vulnerable hs in
      (''# fnprint triage: '' @ dec (length vulns) @ '' vuln-leaning function(s)'')
      # map (\<lambda>h. afn (th_vuln_name h) (th_entry h)) vulns)"

definition triage_row :: "TriageHit \<Rightarrow> string" where
  "triage_row h = ''   '' @ hex_010 (th_entry h) @ ''  '' @ pad_left 5 (percent binary64 1 (th_vuln_sim h)) @ ''   ''
     @ pad_left 6 (percent binary64 1 (th_patched_sim h)) @ ''   ''
     @ pad_left 5 (fixed_plus 1 (fmul binary64 (margin h) (Fin 100))) @ ''  ''
     @ pad_left 3 (percent binary32 0 (th_coverage h)) @ ''%''
     @ (if flt_le (th_coverage h) LOW_COVERAGE_ADVISORY then ''!'' else '' '') @ '' ''
     @ esc (th_vuln_name h) @ '' vs '' @ esc (th_patched_name h)"

definition triage_lines :: "nat \<Rightarrow> TriageHit list \<Rightarrow> string list" where
  "triage_lines limit hs =
     (let vulns = with_verdict Vulnerable hs in
      (dec (length hs) @ '' functions triaged: '' @ dec (length vulns) @ '' look vulnerable, ''
        @ dec (length (with_verdict Patched hs)) @ '' patched, '' @ dec (length (with_verdict Inconclusive hs)) @ '' inconclusive'')
      # (if vulns = [] then [newline @ ''no function leans vulnerable above the margin. nothing to review.'']
         else [newline @ ''review queue (vuln-leaning, strongest first):'',
               ''   addr         vuln%  patched%  margin  cov   matches'']
           @ map triage_row (take (row_cap limit) vulns) @ more_rows ''   '' (length vulns) limit
           @ [newline @ ''cov = fraction of the target function body microexecution observed.'',
              ''a low cov (flagged !) means the verdict rests on little behavior; give it a second look.'']))"

definition cmd_triage ::
  "console \<Rightarrow> string \<Rightarrow> string \<Rightarrow> string \<Rightarrow> flt \<Rightarrow> flt \<Rightarrow> nat \<Rightarrow> bool \<Rightarrow> Format \<Rightarrow> (cli_error + string list) option" where
  "cmd_triage cn target vuln patched min_sim mrg limit ns fmt =
     and_then (load_index (cn_parent cn) (cn_files cn) target ns) (\<lambda>it.
     and_then (Some (load_corpus (cn_parent cn) (cn_files cn) vuln ns)) (\<lambda>vdb.
     and_then (Some (load_corpus (cn_parent cn) (cn_files cn) patched ns)) (\<lambda>pdb.
     and_then (Some (mapL DbError (triage mem_all mem_candidates it vdb pdb min_sim mrg))) (\<lambda>hits.
       Some (Inr (case fmt of
           Json \<Rightarrow> emit_json cn (triage_json hits)
         | R2 \<Rightarrow> triage_r2 hits
         | Human \<Rightarrow> triage_lines limit hits))))))"

section \<open>Dump and completions\<close>

definition dump_json :: "string \<Rightarrow> string list \<Rightarrow> json" where
  "dump_json func ls = JObj [(''schema_version'', JNum OUTPUT_SCHEMA_VERSION), (''func'', JStr (esc func)), (''lines'', json_strs ls)]"

definition cmd_dump :: "console \<Rightarrow> string \<Rightarrow> string \<Rightarrow> bool \<Rightarrow> Format \<Rightarrow> (cli_error + string list) option" where
  "cmd_dump cn binary func ns fmt =
     (if fmt = R2 then Some (Inl R2Unsupported)
      else
        and_then (Some (read_input binary (cn_files cn binary))) (\<lambda>raw.
        and_then (run_dump (cn_parent cn) raw func ns) (\<lambda>ls.
          Some (Inr (if fmt = Json then emit_json cn (dump_json func ls) else map esc ls)))))"

definition cmd_completions :: "console \<Rightarrow> string \<Rightarrow> (cli_error + string list) option" where
  "cmd_completions cn shell = Some (Inr [cn_script cn shell])"

section \<open>The program\<close>

datatype Cmd =
    CIndex string "string option"
  | CMatch string string nat bool
  | CQuery string string flt nat
  | CEval string string
  | CTriage string string string flt flt nat
  | CDump string string
  | CCompletions string

record Cli =
  no_sandbox :: bool
  format :: Format
  cli_weight :: flt
  cmd :: Cmd

definition run_cmd :: "console \<Rightarrow> Cli \<Rightarrow> (Db option \<times> (cli_error + string list)) option" where
  "run_cmd cn cli =
     (let ns = no_sandbox cli; fmt = format cli; gw = cli_weight cli; pure = map_option (Pair None) in
      if \<not> is_finite gw \<or> flt_less gw (Fin 0) then Some (None, Inl BadGraphWeight)
      else case cmd cli of
        CIndex binary out \<Rightarrow> cmd_index cn binary out ns fmt
      | CMatch a b limit al \<Rightarrow> pure (cmd_match cn a b limit al gw ns fmt)
      | CQuery target corpus_path th limit \<Rightarrow> pure (cmd_query cn target corpus_path th limit gw ns fmt)
      | CEval a b \<Rightarrow> pure (cmd_eval cn a b gw ns fmt)
      | CTriage target vuln patched min_sim mrg limit \<Rightarrow> pure (cmd_triage cn target vuln patched min_sim mrg limit ns fmt)
      | CDump binary func \<Rightarrow> pure (cmd_dump cn binary func ns fmt)
      | CCompletions shell \<Rightarrow> pure (cmd_completions cn shell))"

text \<open>Writing lines one after another until a write fails.\<close>

fun write_lines :: "io_result list \<Rightarrow> string list \<Rightarrow> string list \<times> (cli_error + unit)" where
  "write_lines rs [] = ([], Inr ())"
| "write_lines rs (l # ls) =
     (case rs of
        [] \<Rightarrow> (l # ls, Inr ())
      | r # rs \<Rightarrow>
          (case stdout_result r of
             Inl e \<Rightarrow> ([], Inl e)
           | Inr _ \<Rightarrow> (let (ws, e) = write_lines rs ls in (l # ws, e))))"

text \<open>\<open>main\<close>: the corpus it wrote, the lines that reached standard output, and how it ends.\<close>

definition main :: "console \<Rightarrow> io_result list \<Rightarrow> Cli \<Rightarrow> (Db option \<times> string list \<times> (cli_error + unit)) option" where
  "main cn out cli =
     map_option (\<lambda>(db, r). case r of
         Inl e \<Rightarrow> (db, [], main_result (Inl e))
       | Inr ls \<Rightarrow> (let (ws, e) = write_lines out ls in (db, ws, main_result e))) (run_cmd cn cli)"

section \<open>Printable output\<close>

text \<open>A line on the terminal: printable ASCII, after at most one line break in front.\<close>

definition clean_line :: "string \<Rightarrow> bool" where
  "clean_line l \<longleftrightarrow> list_all printable l \<or> (\<exists>s. l = newline @ s \<and> list_all printable s)"

fun json_clean :: "json \<Rightarrow> bool" where
  "json_clean (JStr s) \<longleftrightarrow> list_all printable s"
| "json_clean (JArr vs) \<longleftrightarrow> list_all json_clean vs"
| "json_clean (JObj kvs) \<longleftrightarrow> list_all (\<lambda>kv. list_all printable (fst kv) \<and> json_clean (snd kv)) kvs"
| "json_clean _ \<longleftrightarrow> True"

lemma printable_source [simp]: "list_all printable (source_str s)"
  by (cases s) (simp_all add: source_str_def)

lemma printable_verdict [simp]: "list_all printable (verdict_str v)"
  by (cases v) simp_all

lemma clean_printable: "list_all printable l \<Longrightarrow> clean_line l"
  by (simp add: clean_line_def)

lemma clean_newline: "list_all printable l \<Longrightarrow> clean_line (newline @ l)"
  by (auto simp: clean_line_def)

lemma clean_map: "(\<And>x. clean_line (f x)) \<Longrightarrow> list_all clean_line (map f xs)"
  by (simp add: list_all_iff)

lemma clean_more: "list_all printable indent \<Longrightarrow> list_all clean_line (more_rows indent n limit)"
  by (simp add: more_rows_def Let_def clean_printable)

lemma clean_index: "list_all clean_line (index_lines label wrote fs)"
  by (simp add: index_lines_def Let_def clean_printable split: option.split)

lemma clean_changed: "list_all clean_line (changed_rows limit cs)"
  unfolding changed_rows_def list_all_append by (intro conjI clean_map clean_more) (simp_all add: clean_printable)

lemma clean_match: "list_all clean_line (match_lines a b limit aligned rep)"
  by (simp add: match_lines_def clean_printable clean_newline clean_changed)

lemma r2_ident_chars: "list_all (\<lambda>c. is_alphanumeric c \<or> c = CHR ''_'' \<or> c = CHR ''.'') (r2_ident s)"
  by (auto simp: r2_ident_def r2_char_def list_all_iff is_alphanumeric_def)

lemma printable_r2_ident [simp]: "list_all printable (r2_ident s)"
  using r2_ident_chars [of s] by (auto simp: list_all_iff is_alphanumeric_def printable_def)

lemma clean_afn: "clean_line (afn name entry)"
  by (simp add: afn_def clean_printable)

lemma clean_query: "list_all clean_line (query_lines th limit ns)"
  by (simp add: query_lines_def clean_printable clean_more clean_map query_row_def)

lemma clean_query_r2: "list_all clean_line (query_r2 th ns)"
  by (simp add: query_r2_def clean_printable clean_map clean_afn)

lemma clean_eval: "list_all clean_line (eval_lines gw r)"
  by (simp add: eval_lines_def clean_printable)

lemma clean_triage_r2: "list_all clean_line (triage_r2 hs)"
  by (simp add: triage_r2_def Let_def clean_printable clean_map clean_afn)

lemma clean_triage: "list_all clean_line (triage_lines limit hs)"
  by (simp add: triage_lines_def Let_def clean_printable clean_newline clean_more clean_map triage_row_def)

lemma clean_json_flt [simp]: "json_clean (json_flt x)"
  by (simp add: json_flt_def)

lemma clean_json_opt [simp]: "json_clean (json_opt s) \<longleftrightarrow> pred_option (list_all printable) s"
  by (simp add: json_opt_def split: option.split)

lemma clean_json_map: "(\<And>x. json_clean (f x)) \<Longrightarrow> list_all json_clean (map f xs)"
  by (simp add: list_all_iff)

lemma clean_json_strs [simp]: "json_clean (json_strs ss)"
  by (simp add: json_strs_def clean_json_map)

lemma pred_option_map [simp]: "pred_option P (map_option f s) \<longleftrightarrow> pred_option (\<lambda>x. P (f x)) s"
  by (cases s) simp_all

lemma clean_index_json: "pred_option (list_all printable) wrote \<Longrightarrow> json_clean (index_json label wrote fs)"
  by (simp add: index_json_def clean_json_map option.pred_True)

lemma clean_match_json: "json_clean (match_json aligned rep)"
  by (simp add: match_json_def clean_json_map option.pred_True)

lemma clean_query_json: "json_clean (query_json th ns)"
  by (simp add: query_json_def clean_json_map)

lemma clean_eval_json: "json_clean (eval_json r)"
  by (simp add: eval_json_def)

lemma clean_triage_json: "json_clean (triage_json hs)"
  by (simp add: triage_json_def clean_json_map)

lemma clean_dump_json: "json_clean (dump_json func ls)"
  by (simp add: dump_json_def)

lemmas clean_lines = clean_index clean_match clean_query clean_query_r2 clean_eval clean_triage clean_triage_r2
lemmas clean_jsons = clean_match_json clean_query_json clean_eval_json clean_triage_json clean_dump_json

section \<open>What reaches the terminal\<close>

lemma run_clean_step: "and_then m f = Some (Inr ls) \<Longrightarrow> (\<And>x. f x = Some (Inr ls) \<Longrightarrow> P) \<Longrightarrow> P"
  by (auto simp: and_then_Inr)

lemma write_lines_prefix: "write_lines rs ls = (ws, e) \<Longrightarrow> prefix ws ls"
  by (induction rs ls arbitrary: ws e rule: write_lines.induct) (auto split: list.splits sum.splits prod.splits)

lemma main_cases:
  assumes "main cn out cli = Some (db, ws, e)"
  obtains err where "run_cmd cn cli = Some (db, Inl err)" and "ws = []" and "e = main_result (Inl err)"
  | ls e' where "run_cmd cn cli = Some (db, Inr ls)" and "write_lines out ls = (ws, e')" and "e = main_result e'"
proof -
  obtain d r where r: "run_cmd cn cli = Some (d, r)" using assms by (auto simp: main_def)
  show thesis
  proof (cases r)
    case (Inl err)
    then show ?thesis using that(1) assms r by (simp add: main_def)
  next
    case (Inr ls)
    then show ?thesis using that(2) assms r by (cases "write_lines out ls") (simp add: main_def)
  qed
qed

lemma prefix_list_all: "prefix ws ls \<Longrightarrow> list_all P ls \<Longrightarrow> list_all P ws"
  by (auto simp: prefix_def)

lemma clean_emit:
  "\<forall>v. json_clean v \<longrightarrow> list_all printable (cn_json cn v) \<Longrightarrow> json_clean v \<Longrightarrow> list_all clean_line (emit_json cn v)"
  by (simp add: emit_json_def clean_printable)

lemma cmd_index_clean:
  assumes "\<forall>v. json_clean v \<longrightarrow> list_all printable (cn_json cn v)" and "pred_option (list_all printable) out"
    and "cmd_index cn binary out ns fmt = Some (db, Inr ls)"
  shows "list_all clean_line ls"
proof -
  obtain fs wrote where l: "ls = emit_json cn (index_json (label_of binary) wrote fs) \<or> ls = index_lines (label_of binary) wrote fs"
    and "snd (index_write cn (label_of binary) out fs) = Inr wrote"
  proof -
    obtain raw fs where r: "read_input binary (cn_files cn binary) = Inr raw" "run_index (cn_parent cn) raw ns = Some (Inr fs)" "fmt \<noteq> R2"
      using assms(3) by (auto simp: cmd_index_def split: if_splits sum.splits option.splits)
    obtain d w where w: "index_write cn (label_of binary) out fs = (d, w)" by fastforce
    obtain wrote where "w = Inr wrote" "ls = (if fmt = Json then emit_json cn (index_json (label_of binary) wrote fs) else index_lines (label_of binary) wrote fs)"
      using assms(3) r w by (auto simp: cmd_index_def bindR_Inr Let_def)
    with w show thesis by (intro that [of wrote fs]) auto
  qed
  from this(2) have "pred_option (list_all printable) wrote"
    using assms(2) by (auto simp: index_write_def split: option.splits sum.splits prod.splits)
  then show ?thesis using l clean_index clean_emit [OF assms(1) clean_index_json] by auto
qed

lemma cmd_clean:
  assumes "\<forall>v. json_clean v \<longrightarrow> list_all printable (cn_json cn v)"
  shows "cmd_match cn a b limit al gw ns fmt = Some (Inr ls) \<Longrightarrow> list_all clean_line ls"
    and "cmd_query cn a b th limit gw ns fmt = Some (Inr ls) \<Longrightarrow> list_all clean_line ls"
    and "cmd_eval cn a b gw ns fmt = Some (Inr ls) \<Longrightarrow> list_all clean_line ls"
    and "cmd_triage cn a b c th mg limit ns fmt = Some (Inr ls) \<Longrightarrow> list_all clean_line ls"
    and "cmd_dump cn a func ns fmt = Some (Inr ls) \<Longrightarrow> list_all clean_line ls"
proof -
  note J = clean_emit [OF assms]
  show "cmd_match cn a b limit al gw ns fmt = Some (Inr ls) \<Longrightarrow> list_all clean_line ls"
    by (auto simp: cmd_match_def Let_def clean_lines J clean_jsons elim!: run_clean_step split: if_splits)
  show "cmd_query cn a b th limit gw ns fmt = Some (Inr ls) \<Longrightarrow> list_all clean_line ls"
    unfolding cmd_query_def by (elim run_clean_step) (cases fmt; auto simp: clean_lines J clean_jsons)
  show "cmd_eval cn a b gw ns fmt = Some (Inr ls) \<Longrightarrow> list_all clean_line ls"
    by (auto simp: cmd_eval_def Let_def clean_lines J clean_jsons elim!: run_clean_step split: if_splits)
  show "cmd_triage cn a b c th mg limit ns fmt = Some (Inr ls) \<Longrightarrow> list_all clean_line ls"
    unfolding cmd_triage_def by (elim run_clean_step) (cases fmt; auto simp: clean_lines J clean_jsons)
  show "cmd_dump cn a func ns fmt = Some (Inr ls) \<Longrightarrow> list_all clean_line ls"
    by (auto simp: cmd_dump_def J clean_jsons clean_map clean_printable elim!: run_clean_step split: if_splits)
qed

text \<open>C6: No command lets text from a file steer the terminal: whatever the names, labels, worker lines and paths
  hold, every line that reaches standard output is printable ASCII, at most after one line break, in the human,
  JSON and rizin formats, however far the output gets. The library that prints JSON is assumed to keep printable
  text printable; the one string printed as it is is the operator's own output path in JSON.\<close>

theorem terminal_output_is_inert:
  assumes "main cn out cli = Some (db, ws, e)" and "\<forall>shell. cmd cli \<noteq> CCompletions shell"
    and "\<forall>v. json_clean v \<longrightarrow> list_all printable (cn_json cn v)"
    and "\<forall>binary path. cmd cli = CIndex binary (Some path) \<longrightarrow> list_all printable path"
  shows "list_all clean_line ws"
proof -
  have "list_all clean_line ls" if "run_cmd cn cli = Some (db', Inr ls)" for db' ls
  proof (cases "cmd cli")
    case (CIndex binary path)
    have "pred_option (list_all printable) path" using assms(4) CIndex by (cases path) auto
    then show ?thesis using that CIndex cmd_index_clean [OF assms(3)] by (auto simp: run_cmd_def Let_def split: if_splits)
  qed (use that assms(2) cmd_clean [OF assms(3)] in \<open>auto simp: run_cmd_def Let_def split: if_splits\<close>)
  note c = this
  show ?thesis using assms(1) by (cases rule: main_cases) (auto intro: prefix_list_all write_lines_prefix dest: c)
qed



text \<open>At a dump whose worker sends terminal codes.\<close>

definition dump_parent :: parent where
  "dump_parent = \<lparr>pa_env = Map.empty, pa_spawn = (\<lambda>_ _ _. XReplied [] True ''''), pa_decode = (\<lambda>_. Some (DumpOk [[CHR 0x1B, CHR ''[''], ''ok''])),
     pa_panics = (\<lambda>_. False), pa_tools = ret_tools, pa_open_db = (\<lambda>_. Inl SqliteError)\<rparr>"

definition dump_console :: console where
  "dump_console = \<lparr>cn_parent = dump_parent,
     cn_files = (\<lambda>_. \<lparr>fi_open = True, fi_stat = True, fi_regular = True, fi_len = 0, fi_bytes = Some []\<rparr>),
     cn_json = (\<lambda>_. ''{}''), cn_script = (\<lambda>_. ''''), cn_fault = (\<lambda>_. False), cn_rowid = (\<lambda>_. 1), cn_enum = remdups\<rparr>"

definition dump_cli :: Cli where
  "dump_cli = \<lparr>no_sandbox = False, format = Human, cli_weight = Fin 1, cmd = CDump ''a.so'' ''f''\<rparr>"

lemma esc_demo: "esc [CHR 0x1B, CHR ''[''] = [CHR 0x5C, CHR ''x'', CHR ''1'', CHR ''b'', CHR ''['']" "esc ''ok'' = ''ok''"
  by code_simp+

lemma dump_demo: "run_cmd dump_console dump_cli = Some (None, Inr [[CHR 0x5C, CHR ''x'', CHR ''1'', CHR ''b'', CHR ''[''], ''ok''])"
  by (simp add: run_cmd_def dump_cli_def is_finite_def flt_less_def cmd_dump_def and_then_def read_input_def dump_console_def run_dump_def
      run_worker_def dump_parent_def Let_def esc_demo)

theorem terminal_output_is_inert_witness:
  "main dump_console [IoOk, BrokenPipe] dump_cli = Some (None, [[CHR 0x5C, CHR ''x'', CHR ''1'', CHR ''b'', CHR ''['']], Inr ())
   \<and> list_all clean_line [[CHR 0x5C, CHR ''x'', CHR ''1'', CHR ''b'', CHR ''['']]"
proof -
  have m: "main dump_console [IoOk, BrokenPipe] dump_cli = Some (None, [[CHR 0x5C, CHR ''x'', CHR ''1'', CHR ''b'', CHR ''['']], Inr ())"
    by (simp add: main_def dump_demo stdout_result_def main_result_def)
  have "\<forall>v. json_clean v \<longrightarrow> list_all printable (cn_json dump_console v)" by (simp add: dump_console_def)
  with terminal_output_is_inert [OF m] m show ?thesis by (simp add: dump_cli_def)
qed



section \<open>Rizin scripts\<close>

lemma blank_not_ident: "CHR '' '' \<notin> set (r2_ident s)"
  using r2_ident_chars [of s] by (auto simp: list_all_iff is_alphanumeric_def)

lemma blank_not_hex: "CHR '' '' \<notin> set (hex_u64 v)"
proof -
  have "CHR '' '' \<noteq> hex_digit d" if "d < 16" for d
    using that by (auto simp: hex_digit_def dest!: arg_cong [where f = "of_char :: char \<Rightarrow> nat"])
  then show ?thesis using hex_digits_set by (fastforce simp: hex_u64_def)
qed

lemma afn_words: "split_on (CHR '' '') (afn name entry) = [''afn'', r2_ident name, hex_u64 entry]"
proof -
  have "split_on (CHR '' '') (''afn'' @ CHR '' '' # (r2_ident name @ CHR '' '' # hex_u64 entry)) = [''afn'', r2_ident name, hex_u64 entry]"
    using blank_not_ident [of name] blank_not_hex [of entry] by (subst split_on_append) (simp_all add: split_on_append split_on_none)
  then show ?thesis by (simp add: afn_def)
qed

lemma query_entries: "query_corpus all_recs target db th gw = Inr out \<Longrightarrow> set (map nm_entry out) \<subseteq> if_entry ` set target"
proof -
  assume q: "query_corpus all_recs target db th gw = Inr out"
  then obtain rs where "all_recs db = Inr rs" by (auto simp: query_corpus_def bindR_Inr)
  from query_names_one_to_one [OF this q] obtain ps where
    m: "mset out = mset (map (named_hit target (filter (\<lambda>r. rec_name r \<noteq> None) rs)) ps)" and "list_all (\<lambda>p. pr_a p < length target) ps"
    by (auto simp: list_all_iff)
  moreover have "set out = set (map (named_hit target (filter (\<lambda>r. rec_name r \<noteq> None) rs)) ps)" using m by (rule mset_eq_setD)
  ultimately show ?thesis by (auto simp: named_hit_def list_all_iff)
qed

lemma triage_entries: "triage all_recs cands target vuln patched ms mg = Inr out \<Longrightarrow> set (map th_entry out) \<subseteq> if_entry ` set target"
proof -
  assume "triage all_recs cands target vuln patched ms mg = Inr out"
  from triage_queue [OF this] have "mset (map th_entry out) = mset (map if_entry (filter has_signal target))" by blast
  then have "set (map th_entry out) = set (map if_entry (filter has_signal target))" by (rule mset_eq_setD)
  then show ?thesis by auto
qed

lemma mapL_Inr: "mapL f r = Inr x \<longleftrightarrow> r = Inr x"
  by (simp add: mapL_def split: sum.split)

text \<open>The binary a script is for.\<close>

fun cmd_target :: "Cmd \<Rightarrow> string option" where
  "cmd_target (CQuery target _ _ _) = Some target"
| "cmd_target (CTriage target _ _ _ _ _) = Some target"
| "cmd_target _ = None"

text \<open>C23: A rizin script only names functions of the target: it is one comment line of printable text and then lines
  that are exactly three words, the command \<open>afn\<close>, an identifier that is letters, digits, underscores and dots,
  and the hexadecimal address of a function of the target, whatever the names in the corpus are.\<close>

theorem r2_script_only_names:
  assumes "run_cmd cn cli = Some (db, Inr ls)" and "format cli = R2" and "\<forall>shell. cmd cli \<noteq> CCompletions shell"
  shows "\<exists>h cs target it. ls = (''# fnprint'' @ h) # map (\<lambda>(n, a). afn n a) cs \<and> list_all printable h \<and> db = None
    \<and> cmd_target (cmd cli) = Some target
    \<and> load_index (cn_parent cn) (cn_files cn) target (no_sandbox cli) = Some (Inr it)
    \<and> (\<forall>(n, a) \<in> set cs. split_on (CHR '' '') (afn n a) = [''afn'', r2_ident n, hex_u64 a] \<and> a \<in> if_entry ` set it
        \<and> list_all (\<lambda>c. is_alphanumeric c \<or> c = CHR ''_'' \<or> c = CHR ''.'') (r2_ident n))"
proof -
  let ?ns = "no_sandbox cli"
  consider
      (q) target it hits th where "cmd_target (cmd cli) = Some target" "load_index (cn_parent cn) (cn_files cn) target ?ns = Some (Inr it)"
        "ls = query_r2 th hits" "set (map nm_entry hits) \<subseteq> if_entry ` set it" "db = None"
    | (t) target it hits where "cmd_target (cmd cli) = Some target" "load_index (cn_parent cn) (cn_files cn) target ?ns = Some (Inr it)"
        "ls = triage_r2 hits" "set (map th_entry hits) \<subseteq> if_entry ` set it" "db = None"
  proof (cases "cmd cli")
    case (CQuery target c th limit)
    then obtain d it hits where "load_index (cn_parent cn) (cn_files cn) target ?ns = Some (Inr it)" "query_corpus mem_all it d th (cli_weight cli) = Inr hits"
      "ls = query_r2 th hits" "db = None"
      using assms(1,2) by (auto simp: run_cmd_def Let_def cmd_query_def and_then_Inr mapL_Inr split: if_splits)
    then show ?thesis using q CQuery query_entries by fastforce
  next
    case (CTriage target v p ms mg limit)
    then obtain d e it hits where "load_index (cn_parent cn) (cn_files cn) target ?ns = Some (Inr it)" "triage mem_all mem_candidates it d e ms mg = Inr hits"
      "ls = triage_r2 hits" "db = None"
      using assms(1,2) by (auto simp: run_cmd_def Let_def cmd_triage_def and_then_Inr mapL_Inr split: if_splits)
    then show ?thesis using t CTriage triage_entries by fastforce
  qed (use assms in \<open>auto simp: run_cmd_def Let_def cmd_index_def cmd_match_def cmd_eval_def cmd_dump_def split: if_splits\<close>)
  then show ?thesis
  proof cases
    case q
    then show ?thesis
      by (intro exI [of _ "'': '' @ dec (length hits) @ '' function(s) named at >= '' @ percent binary64 0 th @ ''%''"]
          exI [of _ "map (\<lambda>n. (nm_guess n, nm_entry n)) hits"] exI [of _ target] exI [of _ it])
        (auto simp: query_r2_def afn_words r2_ident_chars)
  next
    case t
    then have "set (map th_entry (with_verdict Vulnerable hits)) \<subseteq> if_entry ` set it" by (auto simp: with_verdict_def)
    with t show ?thesis
      by (intro exI [of _ "'' triage: '' @ dec (length (with_verdict Vulnerable hits)) @ '' vuln-leaning function(s)''"]
          exI [of _ "map (\<lambda>h. (th_vuln_name h, th_entry h)) (with_verdict Vulnerable hits)"] exI [of _ target] exI [of _ it])
        (auto simp: triage_r2_def Let_def afn_words r2_ident_chars)
  qed
qed

text \<open>At a target of one function and a corpus of one row.\<close>

definition one_func :: "IndexedFunc list" where "one_func = [demo_func None 5 16]"

definition query_parent :: parent where
  "query_parent = \<lparr>pa_env = Map.empty, pa_spawn = (\<lambda>op _ _. XReplied (if op = ''index'' then [0] else [1]) True ''''),
     pa_decode = (\<lambda>bs. Some (if bs = [0] then IndexOk one_func else DbOk [print_rec ''a.out'' (const_print 5) 1])),
     pa_panics = (\<lambda>_. False), pa_tools = ret_tools, pa_open_db = (\<lambda>_. Inl SqliteError)\<rparr>"

lemma one_func_accepted: "accept_index (Inr (IndexOk one_func)) = Inr one_func"
proof -
  have "indexed_ok (demo_func None 5 16)" by (simp add: indexed_ok_def demo_func_def wf_const_fp flt_le_def)
  then show ?thesis by (simp add: accept_index_def validate_ok sanitize_ok one_func_def)
qed

lemma query_demo:
  "\<exists>ls. run_cmd (dump_console\<lparr>cn_parent := query_parent\<rparr>) (dump_cli\<lparr>format := R2, cmd := CQuery ''a.so'' ''c.db'' (Fin 0) 0\<rparr>)
     = Some (None, Inr ls)"
proof -
  have f: "read_input p (cn_files dump_console p) = Inr []" for p by (simp add: read_input_def dump_console_def)
  have db: "is_db ''c.db''" "\<not> is_db ''a.so''" by code_simp+
  have i: "load_index query_parent (cn_files dump_console) ''a.so'' False = Some (Inr one_func)"
    using f [of "''a.so''"] one_func_accepted
    by (simp add: load_index_def db run_index_def query_parent_def clamp_shards_for_input_def shard_count_def run_worker_def Let_def MAX_REPLY_def)
  have c: "load_corpus query_parent (cn_files dump_console) ''c.db'' False = Inr (from_records [print_rec ''a.out'' (const_print 5) 1])"
    using f [of "''c.db''"]
    by (simp add: load_corpus_def load_corpus_records_def query_parent_def run_worker_def Let_def MAX_REPLY_def
        validate_corpus_records_def print_rec_def const_print_def const_fp_def SIG_LEN_def)
  show ?thesis
    by (simp add: run_cmd_def dump_cli_def is_finite_def flt_less_def cmd_query_def i c and_then_def
        query_corpus_def mem_all_def mapL_def Let_def)
qed

theorem r2_script_only_names_witness:
  "\<exists>h cs. run_cmd (dump_console\<lparr>cn_parent := query_parent\<rparr>) (dump_cli\<lparr>format := R2, cmd := CQuery ''a.so'' ''c.db'' (Fin 0) 0\<rparr>)
     = Some (None, Inr ((''# fnprint'' @ h) # map (\<lambda>(n, a). afn n a) cs))"
proof -
  obtain ls where r: "run_cmd (dump_console\<lparr>cn_parent := query_parent\<rparr>) (dump_cli\<lparr>format := R2, cmd := CQuery ''a.so'' ''c.db'' (Fin 0) 0\<rparr>)
     = Some (None, Inr ls)" using query_demo by blast
  from r2_script_only_names [OF r] obtain h cs where "ls = (''# fnprint'' @ h) # map (\<lambda>(n, a). afn n a) cs" by (auto simp: dump_cli_def)
  with r show ?thesis by blast
qed

end
