(* ===== verification/EndToEnd.thy ===== *)
theory EndToEnd
  imports Report
begin

text \<open>
  Commands that follow one another: an index written to a corpus and loaded again, a build diffed with itself or
  with its own corpus, a corpus read in the jail (\<open>cli/src/main.rs\<close> over \<open>fnprint-db\<close> and \<open>fnprint-core\<close>).
\<close>

section \<open>A corpus and the build it was made from\<close>

text \<open>What a corpus keeps of a function.\<close>

definition stored :: "IndexedFunc \<Rightarrow> IndexedFunc" where
  "stored f = f\<lparr>if_source := Symtab, if_coverage := Fin 1, if_callees := take MAX_CALLEES (if_callees f)\<rparr>"

lemma from_corpus_print: "from_corpus (print_rec label (to_print f) i) = stored f"
  by (simp add: from_corpus_def print_rec_def to_print_def stored_def)

lemma from_corpus_prints: "length ids = length fs \<Longrightarrow> map from_corpus (map2 (print_rec label) (map to_print fs) ids) = map stored fs"
  by (induction ids fs rule: list_induct2) (simp_all add: from_corpus_print)

text \<open>C5: Indexing into a fresh corpus and loading the corpus gives the index back: in a later process, every function
  with its name, entry, fingerprint and (capped) callees, in order; what the corpus does not keep is how the function
  was discovered and its coverage.\<close>

theorem corpus_gives_index_back:
  assumes "read_input binary (cn_files cn binary) = Inr raw" and "run_index (cn_parent cn) raw ns = Some (Inr fs)"
    and "pa_open_db (cn_parent cn) path = Inr (snd (db_open None))"
    and "cmd_index cn binary (Some path) ns fmt = Some (Some db', Inr ls)"
    and "list_all (wf_print (label_of binary)) (map to_print fs)" and "length fs \<le> MAX_ROWS"
    and "(\<Sum>f\<leftarrow>fs. unat (print_bytes (label_of binary) (to_print f))) \<le> unat MAX_TOTAL_BYTES"
    and "pa_open_db pa path = Inr db'" and "is_db path"
  shows "load_index pa files path True = Some (Inr (map stored fs))"
proof -
  let ?ps = "map to_print fs" and ?l = "label_of binary"
  obtain n db where db: "db_open None = (n, db)" by fastforce
  have "fmt \<noteq> R2" using assms(4) by (auto simp: cmd_index_def)
  then obtain wrote where "index_write cn ?l (Some path) fs = (Some db', Inr wrote)"
    using assms(4) by (auto simp: cmd_index_def assms(1,2) Let_def bindR_Inr split: prod.splits)
  then obtain k where "insert_all (cn_fault cn) (cn_rowid cn) ?l ?ps db = (db', Inr k)"
    by (auto simp: index_write_def assms(3) db split: prod.splits sum.splits)
  from insert_all_read_back [OF db this] assms(5,6,7) obtain ids
    where ids: "length ids = length fs" "db_all db' = Inr (map2 (print_rec ?l) ?ps ids)" by (auto simp: comp_def)
  then show ?thesis using assms(8,9) by (simp add: load_index_def load_corpus_records_def mapL_def bindR_def from_corpus_prints del: map_map)
qed

lemma insert_all_no_fault: "\<exists>db'. insert_all (\<lambda>_. False) rowid bin ps db = (db', Inr (length ps))"
  using insert_loop_no_fault [of rowid bin ps "db\<lparr>stmts := stmts db + 1\<rparr>"] by (auto simp: insert_all_def exec_def)

theorem corpus_gives_index_back_witness:
  "\<exists>cn db' ls. cmd_index cn ''a.so'' (Some ''c.db'') False Human = Some (Some db', Inr ls)
     \<and> load_index (query_parent\<lparr>pa_open_db := (\<lambda>_. Inr db')\<rparr>) (cn_files cn) ''c.db'' True = Some (Inr (map stored one_func))"
proof -
  let ?pa = "query_parent\<lparr>pa_open_db := (\<lambda>_. Inr (snd (db_open None)))\<rparr>"
  let ?cn = "dump_console\<lparr>cn_parent := ?pa\<rparr>"
  have f: "read_input ''a.so'' (cn_files ?cn ''a.so'') = Inr []" by (simp add: read_input_def dump_console_def)
  have r: "run_index (cn_parent ?cn) [] False = Some (Inr one_func)"
    using one_func_accepted by (simp add: run_index_def query_parent_def clamp_shards_for_input_def shard_count_def run_worker_def Let_def MAX_REPLY_def)
  have l: "label_of ''a.so'' = ''a.so''" by code_simp
  have wf: "list_all (wf_print ''a.so'') (map to_print one_func)"
    by (simp add: one_func_def demo_func_def to_print_def wf_print_def wf_const_fp utf8_valid_def MAX_TEXT_def source_str_def)
  have bytes: "(\<Sum>f\<leftarrow>one_func. unat (print_bytes ''a.so'' (to_print f))) \<le> unat MAX_TOTAL_BYTES"
    by (simp add: one_func_def demo_func_def to_print_def print_bytes_def rec_bytes_def print_rec_def source_str_def opt_len_def
        unat_sat_add64 SIG_BYTES_def SIG_LEN_def MAX_TOTAL_BYTES_def)
  obtain db' where w: "insert_all (\<lambda>_. False) (\<lambda>_. 1) ''a.so'' (map to_print one_func) (snd (db_open None)) = (db', Inr (length (map to_print one_func)))"
    using insert_all_no_fault by blast
  obtain ls where c: "cmd_index ?cn ''a.so'' (Some ''c.db'') False Human = Some (Some db', Inr ls)"
    unfolding cmd_index_def f using r w by (simp add: l index_write_def dump_console_def)
  have d: "is_db ''c.db''" by code_simp
  have "load_index (query_parent\<lparr>pa_open_db := (\<lambda>_. Inr db')\<rparr>) (cn_files ?cn) ''c.db'' True = Some (Inr (map stored one_func))"
    by (rule corpus_gives_index_back [OF f r _ c _ _ _ _ d]) (simp_all add: l wf bytes, simp_all add: one_func_def MAX_ROWS_def)
  with c show ?thesis by blast
qed

section \<open>A build diffed with itself\<close>

lemma named_map:
  assumes "\<And>f. if_name (g f) = if_name f"
  shows "named (map g fs) = map (apsnd g) (named fs)"
  by (induction fs) (auto simp: named_def map_filter_simps assms split: option.splits)

lemma collect_map_apsnd: "collect_map (map (apsnd g) kvs) n = map_option g (collect_map kvs n)"
  unfolding collect_map_def by (induction kvs rule: rev_induct) auto

lemma same_thresh_1: "flt_le SAME_THRESH (Fin 1)"
  using fl_mono [of "88 / 100" 1 binary64] by (simp add: flt_le_def SAME_THRESH_def)

lemma diff_same:
  assumes "enum_ok enum" and "\<And>f. if_name (g f) = if_name f" and "\<And>f. if_fp (g f) = if_fp f" and "list_all (\<lambda>f. wf_fp (if_fp f)) fs"
  shows "changed (match_by_name enum fs (map g fs)) = [] \<and> only_a (match_by_name enum fs (map g fs)) = []
    \<and> only_b (match_by_name enum fs (map g fs)) = [] \<and> compared (match_by_name enum fs (map g fs)) = card (names fs)"
proof -
  define amap where "amap = collect_map (named fs)"
  define bmap where "bmap = collect_map (named (map g fs))"
  have b: "bmap n = map_option g (amap n)" for n
    by (simp add: bmap_def amap_def named_map [of g, OF assms(2)] collect_map_apsnd)
  define nfs where "nfs = map (\<lambda>n. (n, the (amap n))) (enum (keys_of (named fs)))"
  note F = match_by_name_fields [where enum = enum and a = fs and b = "map g fs", folded amap_def bmap_def, folded nfs_def]
  have in_fs: "f \<in> set fs" if "amap n = Some f" for n f
    using that unfolding amap_def by (auto dest!: collect_map_SomeD simp: named_def map_filter_def)
  have "outcome_of bmap nf = LowSignal \<or> outcome_of bmap nf = IsSame" if nf: "nf \<in> set nfs" for nf
  proof -
    obtain n where n: "nf = (n, the (amap n))" "n \<in> names fs"
      using nf assms(1) by (auto simp: nfs_def enum_ok_def keys_of_set dom_named names_def)
    then obtain f where f: "amap n = Some f" using dom_named [of fs] by (auto simp: amap_def names_def)
    have "wf_fp (if_fp f)" using in_fs [OF f] assms(4) by (auto simp: list_all_iff)
    then have "similarity (if_fp f) (if_fp f) = Fin 1" by (rule self_similar)
    then show ?thesis by (simp add: outcome_of_def n b f assms(3) same_thresh_1)
  qed
  then have h: "having bmap IsChanged nfs = []" unfolding having_def filter_empty_conv by fastforce
  have nm: "names (map g fs) = names fs" by (auto simp: names_def assms(2))
  show ?thesis using F h match_by_name_partition [OF assms(1), of fs "map g fs"] by (simp add: nm)
qed

text \<open>A build diffed by name with itself, or with the corpus made from it, shows no difference: nothing changed,
  nothing is on one side only, and every name is compared, whatever names repeat.\<close>

lemma self_diff_is_empty:
  assumes "enum_ok enum" and "list_all (\<lambda>f. wf_fp (if_fp f)) fs" and "gs = fs \<or> gs = map stored fs"
  shows "changed (match_by_name enum fs gs) = [] \<and> only_a (match_by_name enum fs gs) = []
    \<and> only_b (match_by_name enum fs gs) = [] \<and> compared (match_by_name enum fs gs) = card (names fs)"
  using assms(3)
proof
  assume "gs = fs"
  then show ?thesis using diff_same [OF assms(1) _ _ assms(2), of "\<lambda>f. f"] by simp
next
  assume "gs = map stored fs"
  then show ?thesis using diff_same [OF assms(1) _ _ assms(2), of stored] by (simp add: stored_def)
qed

lemma self_diff_is_empty_example:
  "changed (match_by_name remdups [demo_func (Some ''f'') 1 16, demo_func (Some ''g'') 2 32]
     (map stored [demo_func (Some ''f'') 1 16, demo_func (Some ''g'') 2 32])) = []"
proof -
  have "enum_ok remdups" by (simp add: enum_ok_def)
  from self_diff_is_empty [OF this, of "[demo_func (Some ''f'') 1 16, demo_func (Some ''g'') 2 32]"] show ?thesis
    by (simp add: demo_func_def wf_const_fp)
qed

section \<open>A corpus read in the jail\<close>


text \<open>At a file whose one row has a constant signature.\<close>

definition corpus_image :: "string option \<times> (string \<times> string \<times> u64) list \<times> row list \<times> (u64 \<times> u64 \<times> u64) list" where
  "corpus_image = (Some ''table'', map (\<lambda>(n, t). (n, t, 0)) EXPECTED_FUNCS_COLS, funcs one_row_db, [])"

definition corpus_parent :: parent where
  "corpus_parent =
     (let tt = ret_tools\<lparr>tl_sqlite := (\<lambda>_. Inr corpus_image)\<rparr> in
      \<lparr>pa_env = Map.empty, pa_spawn = honest_exchange x86_64_nr quiet_world fresh_worker tt (\<lambda>_. [1]) Map.empty,
       pa_decode = (\<lambda>_. Some (DbOk [print_rec ''a.out'' (const_print 5) 1])), pa_panics = (\<lambda>_. False), pa_tools = tt,
       pa_open_db = (\<lambda>_. Inr one_row_db)\<rparr>)"


end
