(* ===== verification/Exchange.thy ===== *)
theory Exchange
  imports Cli
begin

text \<open>
  The parent around one worker (\<open>run_worker\<close> and \<open>reap_bounded\<close> of \<open>cli/src/main.rs\<close>) as a machine with choice: the
  main thread waits for the reply with a deadline, reaps the worker without ever waiting for it for long, and joins
  its threads; the worker, the reader thread, the clock and a descendant that holds a pipe move on their own. Time is
  in milliseconds.
\<close>

section \<open>The machine\<close>

text \<open>The worker process: running, ended but not reaped (did it succeed?), reaped.\<close>

datatype child = Alive | Zombie bool | Gone bool

text \<open>What the reader thread sends: the stream, a read error, or nothing because it panicked.\<close>

datatype msg = Bytes "u8 list" | ReadError | Hangup

text \<open>Where the main thread is: in \<open>recv_timeout\<close>; in a \<open>wait\<close> after a failed read or a lost reader; in the \<open>wait\<close> after
  the kill of a timeout; in \<open>reap_bounded\<close> before and after \<open>try_wait\<close> and in its last \<open>wait\<close>; joining; at the end.\<close>

datatype phase =
    Recv
  | WaitFail exchange
  | WaitKilled
  | Poll "u8 list" nat
  | Checked "u8 list" nat
  | WaitGrace "u8 list"
  | Join exchange
  | Done exchange

record xstate =
  xs_phase :: phase
  xs_child :: child
  xs_clock :: nat
  xs_msg :: "msg option"
  xs_kills :: "child list"
  xs_held :: bool
  xs_tail :: string
  xs_wait_err :: bool

definition deadline_ms :: "u64 option \<Rightarrow> nat" where "deadline_ms t = 1000 * unat (worker_deadline t)"
definition POST_REPLY_GRACE :: nat where "POST_REPLY_GRACE = 30000"
definition POLL_MS :: nat where "POLL_MS = 20"

text \<open>The steps of the main thread in \<open>run_worker\<close> itself: it takes what the reader sends, or kills the worker's group at
  the deadline; it waits for a worker it gives up on; at the end it joins its threads. A signal notes the state the
  worker was in.\<close>

inductive recv_step :: "u64 option \<Rightarrow> xstate \<Rightarrow> xstate \<Rightarrow> bool" for t where
  s_recv_reply: "xs_phase s = Recv \<Longrightarrow> xs_msg s = Some (Bytes bs) \<Longrightarrow>
    recv_step t s (s\<lparr>xs_phase := Poll bs (xs_clock s + POST_REPLY_GRACE)\<rparr>)"
| s_recv_error: "xs_phase s = Recv \<Longrightarrow> xs_msg s = Some ReadError \<Longrightarrow> recv_step t s (s\<lparr>xs_phase := WaitFail XReadFailed\<rparr>)"
| s_recv_hangup: "xs_phase s = Recv \<Longrightarrow> xs_msg s = Some Hangup \<Longrightarrow> recv_step t s (s\<lparr>xs_phase := WaitFail XReaderGone\<rparr>)"
| s_recv_timeout: "xs_phase s = Recv \<Longrightarrow> xs_msg s = None \<Longrightarrow> deadline_ms t \<le> xs_clock s \<Longrightarrow>
    recv_step t s (s\<lparr>xs_phase := WaitKilled, xs_kills := xs_child s # xs_kills s\<rparr>)"
| s_wait_fail: "xs_phase s = WaitFail x \<Longrightarrow> xs_child s = Zombie ok \<Longrightarrow>
    recv_step t s (s\<lparr>xs_phase := (if x = XReadFailed then Join x else Done x), xs_child := Gone ok\<rparr>)"
| s_wait_killed: "xs_phase s = WaitKilled \<Longrightarrow> xs_child s = Zombie ok \<Longrightarrow>
    recv_step t s (s\<lparr>xs_phase := Done (XTimeout (worker_deadline t)), xs_child := Gone ok\<rparr>)"
| s_joined: "xs_phase s = Join x \<Longrightarrow> \<not> xs_held s \<Longrightarrow> recv_step t s (s\<lparr>xs_phase := Done x\<rparr>)"

text \<open>The steps of \<open>reap_bounded\<close>: it polls for the worker's exit until the grace is over, then kills its group and
  waits.\<close>

inductive reap_step :: "xstate \<Rightarrow> xstate \<Rightarrow> bool" where
  s_poll_exited: "xs_phase s = Poll bs u \<Longrightarrow> xs_child s = Zombie ok \<Longrightarrow>
    reap_step s (s\<lparr>xs_phase := Join (XReplied bs ok (xs_tail s)), xs_child := Gone ok\<rparr>)"
| s_poll_running: "xs_phase s = Poll bs u \<Longrightarrow> xs_child s = Alive \<Longrightarrow> reap_step s (s\<lparr>xs_phase := Checked bs u\<rparr>)"
| s_poll_error: "xs_phase s = Poll bs u \<Longrightarrow> reap_step s (s\<lparr>xs_phase := Done XWaitFailed, xs_wait_err := True\<rparr>)"
| s_grace_over: "xs_phase s = Checked bs u \<Longrightarrow> u \<le> xs_clock s \<Longrightarrow>
    reap_step s (s\<lparr>xs_phase := WaitGrace bs, xs_kills := xs_child s # xs_kills s\<rparr>)"
| s_grace_sleep: "xs_phase s = Checked bs u \<Longrightarrow> xs_clock s < u \<Longrightarrow> POLL_MS \<le> d \<Longrightarrow>
    reap_step s (s\<lparr>xs_phase := Poll bs u, xs_clock := xs_clock s + d\<rparr>)"
| s_grace_reaped: "xs_phase s = WaitGrace bs \<Longrightarrow> xs_child s = Zombie ok \<Longrightarrow>
    reap_step s (s\<lparr>xs_phase := Join (XReplied bs ok (xs_tail s)), xs_child := Gone ok\<rparr>)"
| s_grace_error: "xs_phase s = WaitGrace bs \<Longrightarrow> reap_step s (s\<lparr>xs_phase := Done XWaitFailed, xs_wait_err := True\<rparr>)"

definition main_step :: "u64 option \<Rightarrow> xstate \<Rightarrow> xstate \<Rightarrow> bool" where
  "main_step t s s' \<longleftrightarrow> recv_step t s s' \<or> reap_step s s'"

lemma main_by_recv: "recv_step t s s' \<Longrightarrow> main_step t s s'"
  by (simp add: main_step_def)

lemma main_by_reap: "reap_step s s' \<Longrightarrow> main_step t s s'"
  by (simp add: main_step_def)

lemmas recv_reply = s_recv_reply [THEN main_by_recv]
lemmas recv_error = s_recv_error [THEN main_by_recv]
lemmas recv_hangup = s_recv_hangup [THEN main_by_recv]
lemmas recv_timeout = s_recv_timeout [THEN main_by_recv]
lemmas wait_fail = s_wait_fail [THEN main_by_recv]
lemmas wait_killed = s_wait_killed [THEN main_by_recv]
lemmas joined = s_joined [THEN main_by_recv]
lemmas poll_exited = s_poll_exited [THEN main_by_reap]
lemmas poll_running = s_poll_running [THEN main_by_reap]
lemmas poll_error = s_poll_error [THEN main_by_reap]
lemmas grace_over = s_grace_over [THEN main_by_reap]
lemmas grace_sleep = s_grace_sleep [THEN main_by_reap]
lemmas grace_reaped = s_grace_reaped [THEN main_by_reap]
lemmas grace_error = s_grace_error [THEN main_by_reap]

text \<open>Time that passes while the main thread waits for the reply.\<close>

inductive wait_step :: "u64 option \<Rightarrow> xstate \<Rightarrow> xstate \<Rightarrow> bool" for t where
  tick: "xs_phase s = Recv \<Longrightarrow> xs_msg s = None \<Longrightarrow> xs_clock s < deadline_ms t \<Longrightarrow> 0 < d \<Longrightarrow>
    wait_step t s (s\<lparr>xs_clock := xs_clock s + d\<rparr>)"

text \<open>What moves on its own: the worker ends, the reader sends, a descendant lets go of a pipe.\<close>

inductive env_step :: "xstate \<Rightarrow> xstate \<Rightarrow> bool" where
  exits: "xs_child s = Alive \<Longrightarrow> env_step s (s\<lparr>xs_child := Zombie ok\<rparr>)"
| sends: "xs_msg s = None \<Longrightarrow> env_step s (s\<lparr>xs_msg := Some m\<rparr>)"
| lets_go: "env_step s (s\<lparr>xs_held := False\<rparr>)"

definition spawned :: "bool \<Rightarrow> string \<Rightarrow> xstate" where
  "spawned h err = \<lparr>xs_phase = Recv, xs_child = Alive, xs_clock = 0, xs_msg = None, xs_kills = [], xs_held = h, xs_tail = err,
     xs_wait_err = False\<rparr>"

inductive reach :: "u64 option \<Rightarrow> xstate \<Rightarrow> bool" for t where
  start: "reach t (spawned h err)"
| by_main: "reach t s \<Longrightarrow> main_step t s s' \<Longrightarrow> reach t s'"
| by_wait: "reach t s \<Longrightarrow> wait_step t s s' \<Longrightarrow> reach t s'"
| by_env: "reach t s \<Longrightarrow> env_step s s' \<Longrightarrow> reach t s'"

inductive_cases recv_stepE: "recv_step t s s'"
inductive_cases reap_stepE: "reap_step s s'"
inductive_cases wait_stepE: "wait_step t s s'"
inductive_cases env_stepE: "env_step s s'"

section \<open>Invariant\<close>

definition reaped :: "child \<Rightarrow> bool" where
  "reaped c \<longleftrightarrow> (\<exists>ok. c = Gone ok)"

lemma reaped_simps [simp]: "\<not> reaped Alive" "\<not> reaped (Zombie ok)" "reaped (Gone ok)"
  by (simp_all add: reaped_def)

text \<open>What the end of an exchange says is true.\<close>

fun honest_end :: "u64 option \<Rightarrow> xstate \<Rightarrow> exchange \<Rightarrow> bool" where
  "honest_end t s (XReplied bs ok err) \<longleftrightarrow> xs_msg s = Some (Bytes bs) \<and> xs_child s = Gone ok \<and> err = xs_tail s"
| "honest_end t s XReadFailed \<longleftrightarrow> xs_msg s = Some ReadError \<and> reaped (xs_child s) \<and> xs_kills s = []"
| "honest_end t s XReaderGone \<longleftrightarrow> xs_msg s = Some Hangup \<and> reaped (xs_child s) \<and> xs_kills s = []"
| "honest_end t s (XTimeout d) \<longleftrightarrow> d = worker_deadline t \<and> reaped (xs_child s) \<and> xs_kills s \<noteq> [] \<and> deadline_ms t \<le> xs_clock s"
| "honest_end t s XWaitFailed \<longleftrightarrow> xs_wait_err s"
| "honest_end t s XNoSpawn \<longleftrightarrow> False"

lemma honest_end_phase [simp]: "honest_end t (s\<lparr>xs_phase := p\<rparr>) x \<longleftrightarrow> honest_end t s x"
  by (cases x) simp_all

lemma honest_end_env: "env_step s s' \<Longrightarrow> honest_end t s x \<Longrightarrow> honest_end t s' x"
  by (erule env_stepE; cases x) auto

fun phase_inv :: "u64 option \<Rightarrow> xstate \<Rightarrow> phase \<Rightarrow> bool" where
  "phase_inv t s Recv \<longleftrightarrow> xs_kills s = [] \<and> \<not> reaped (xs_child s)"
| "phase_inv t s (WaitFail x) \<longleftrightarrow> xs_kills s = [] \<and> \<not> reaped (xs_child s)
     \<and> (x = XReadFailed \<and> xs_msg s = Some ReadError \<or> x = XReaderGone \<and> xs_msg s = Some Hangup)"
| "phase_inv t s WaitKilled \<longleftrightarrow> length (xs_kills s) = 1 \<and> \<not> reaped (xs_child s) \<and> deadline_ms t \<le> xs_clock s"
| "phase_inv t s (Poll bs u) \<longleftrightarrow> xs_kills s = [] \<and> \<not> reaped (xs_child s) \<and> xs_msg s = Some (Bytes bs)"
| "phase_inv t s (Checked bs u) \<longleftrightarrow> xs_kills s = [] \<and> \<not> reaped (xs_child s) \<and> xs_msg s = Some (Bytes bs)"
| "phase_inv t s (WaitGrace bs) \<longleftrightarrow> length (xs_kills s) = 1 \<and> \<not> reaped (xs_child s) \<and> xs_msg s = Some (Bytes bs)"
| "phase_inv t s (Join x) \<longleftrightarrow> length (xs_kills s) \<le> 1 \<and> honest_end t s x \<and> x \<noteq> XWaitFailed"
| "phase_inv t s (Done x) \<longleftrightarrow> length (xs_kills s) \<le> 1 \<and> honest_end t s x"

definition x_inv :: "u64 option \<Rightarrow> xstate \<Rightarrow> bool" where
  "x_inv t s \<longleftrightarrow> phase_inv t s (xs_phase s) \<and> list_all (\<lambda>c. \<not> reaped c) (xs_kills s)"

lemma x_inv_main: "x_inv t s \<Longrightarrow> main_step t s s' \<Longrightarrow> x_inv t s'"
  unfolding main_step_def by (elim disjE recv_stepE reap_stepE) (auto simp: x_inv_def)

lemma x_inv_wait: "x_inv t s \<Longrightarrow> wait_step t s s' \<Longrightarrow> x_inv t s'"
  by (erule wait_stepE) (auto simp: x_inv_def)

lemma x_inv_env:
  assumes "x_inv t s" and "env_step s s'"
  shows "x_inv t s'"
proof -
  have same: "xs_phase s' = xs_phase s" "xs_kills s' = xs_kills s" "xs_clock s' = xs_clock s"
    "reaped (xs_child s') \<longleftrightarrow> reaped (xs_child s)" "xs_msg s \<noteq> None \<Longrightarrow> xs_msg s' = xs_msg s"
    using assms(2) by (auto elim!: env_stepE)
  then show ?thesis using assms honest_end_env [OF assms(2)]
    by (cases "xs_phase s") (auto simp: x_inv_def)
qed

lemma reach_inv: "reach t s \<Longrightarrow> x_inv t s"
proof (induction rule: reach.induct)
  case (start h err)
  then show ?case by (simp add: x_inv_def spawned_def)
qed (blast intro: x_inv_main x_inv_wait x_inv_env)+

section \<open>Progress\<close>

text \<open>How much the parent has left to do: it goes down with each of its steps and with each passage of time it waits
  for, and nothing else moves it.\<close>

fun budget :: "u64 option \<Rightarrow> xstate \<Rightarrow> phase \<Rightarrow> nat" where
  "budget t s Recv = (deadline_ms t - xs_clock s) + 2 * POST_REPLY_GRACE + 6"
| "budget t s (Poll bs u) = 2 * (u - xs_clock s) + 5"
| "budget t s (Checked bs u) = 2 * (u - xs_clock s) + 4"
| "budget t s (WaitGrace bs) = 3"
| "budget t s (WaitFail x) = 2"
| "budget t s WaitKilled = 2"
| "budget t s (Join x) = 1"
| "budget t s (Done x) = 0"

definition left :: "u64 option \<Rightarrow> xstate \<Rightarrow> nat" where
  "left t s = budget t s (xs_phase s)"

lemma left_main: "main_step t s s' \<Longrightarrow> left t s' < left t s"
  unfolding main_step_def by (elim disjE recv_stepE reap_stepE) (auto simp: left_def POLL_MS_def POST_REPLY_GRACE_def)

lemma left_wait: "wait_step t s s' \<Longrightarrow> left t s' < left t s"
  by (erule wait_stepE) (auto simp: left_def)

lemma left_env: "env_step s s' \<Longrightarrow> left t s' = left t s"
  by (erule env_stepE; cases "xs_phase s") (auto simp: left_def)

text \<open>Runs, with the number of steps the parent and its clock make.\<close>

inductive run_steps :: "u64 option \<Rightarrow> xstate \<Rightarrow> nat \<Rightarrow> xstate \<Rightarrow> bool" for t where
  none: "run_steps t s 0 s"
| own: "run_steps t s n s' \<Longrightarrow> main_step t s' s'' \<or> wait_step t s' s'' \<Longrightarrow> run_steps t s (Suc n) s''"
| other: "run_steps t s n s' \<Longrightarrow> env_step s' s'' \<Longrightarrow> run_steps t s n s''"

lemma run_reach: "run_steps t s n s' \<Longrightarrow> reach t s \<Longrightarrow> reach t s'"
  by (induction rule: run_steps.induct) (auto intro: by_main by_wait by_env)

lemma run_steps_left: "run_steps t s n s' \<Longrightarrow> n + left t s' \<le> left t s"
proof (induction rule: run_steps.induct)
  case (own s n s' s'')
  then have "left t s'' < left t s'" using left_main left_wait by blast
  with own show ?case by simp
next
  case (other s n s' s'')
  then show ?case using left_env by simp
qed simp

text \<open>What a step of the parent waits for: a worker it has killed, or one whose reply could not be read, or a
  descendant that holds a pipe.\<close>

fun waits_on_others :: "xstate \<Rightarrow> phase \<Rightarrow> bool" where
  "waits_on_others s WaitKilled \<longleftrightarrow> xs_child s = Alive \<and> xs_kills s \<noteq> []"
| "waits_on_others s (WaitGrace bs) \<longleftrightarrow> xs_child s = Alive \<and> xs_kills s \<noteq> []"
| "waits_on_others s (WaitFail x) \<longleftrightarrow> xs_child s = Alive \<and> xs_msg s \<in> {Some ReadError, Some Hangup}"
| "waits_on_others s (Join x) \<longleftrightarrow> xs_held s"
| "waits_on_others s _ \<longleftrightarrow> False"

lemma not_reaped: "\<not> reaped c \<longleftrightarrow> c = Alive \<or> (\<exists>ok. c = Zombie ok)"
  by (cases c) auto

lemma progress:
  assumes "x_inv t s"
  shows "(\<exists>x. xs_phase s = Done x) \<or> (\<exists>s'. (main_step t s s' \<or> wait_step t s s') \<and> xs_wait_err s' = xs_wait_err s) \<or> waits_on_others s (xs_phase s)"
proof (cases "xs_phase s")
  case Recv
  show ?thesis
  proof (cases "xs_msg s")
    case None
    then show ?thesis using Recv recv_timeout [of s t] tick [of s t 1] by (cases "deadline_ms t \<le> xs_clock s") (fastforce, fastforce)
  next
    case (Some m)
    then show ?thesis using Recv recv_reply [of s _ t] recv_error [of s t] recv_hangup [of s t] by (cases m) fastforce+
  qed
next
  case (Checked bs u)
  then show ?thesis using grace_over [of s bs u t] grace_sleep [of s bs u POLL_MS t] by (cases "u \<le> xs_clock s") (fastforce, fastforce)
next
  case (Poll bs u)
  then have "xs_child s = Alive \<or> (\<exists>ok. xs_child s = Zombie ok)" using assms by (simp add: x_inv_def not_reaped)
  then show ?thesis using Poll poll_running [of s bs u t] poll_exited [of s bs u _ t] by fastforce
next
  case (WaitGrace bs)
  then have "xs_child s = Alive \<and> xs_kills s \<noteq> [] \<or> (\<exists>ok. xs_child s = Zombie ok)" using assms by (auto simp: x_inv_def not_reaped)
  then show ?thesis using WaitGrace grace_reaped [of s bs _ t] by fastforce
next
  case (WaitFail x)
  then show ?thesis using assms wait_fail [of s x _ t] by (fastforce simp: x_inv_def not_reaped)
next
  case WaitKilled
  then show ?thesis using assms wait_killed [of s _ t] by (fastforce simp: x_inv_def not_reaped)
next
  case (Join x)
  then show ?thesis using joined [of s x t] by fastforce
qed simp

section \<open>Properties\<close>

text \<open>C7: The parent deals with the worker safely under any interleaving with the worker, its threads and the clock:
  it sends at most one signal and never to a process it has already reaped, so a reused id cannot be hit; it ends
  with the worker reaped unless waiting for it failed; the end it reports is the one that happened; and it believes a
  reply only of a worker that sent it and then exited successfully.\<close>

theorem parent_exchange_safe:
  assumes "reach t s"
  shows "length (xs_kills s) \<le> 1 \<and> list_all (\<lambda>c. \<not> reaped c) (xs_kills s)
    \<and> (\<forall>x. xs_phase s = Done x \<longrightarrow> honest_end t s x \<and> (reaped (xs_child s) \<or> xs_wait_err s)
        \<and> (\<forall>dcd r. run_worker dcd x = Inr r \<longrightarrow>
             (\<exists>bs. xs_msg s = Some (Bytes bs) \<and> xs_child s = Gone True \<and> dcd bs = Some r \<and> length bs \<le> MAX_REPLY)))"
proof -
  have inv: "x_inv t s" using assms by (rule reach_inv)
  then have "length (xs_kills s) \<le> 1" by (cases "xs_phase s") (auto simp: x_inv_def)
  moreover have "honest_end t s x \<and> (reaped (xs_child s) \<or> xs_wait_err s)" if "xs_phase s = Done x" for x
    using inv that by (cases x) (auto simp: x_inv_def)
  moreover have "\<exists>bs. xs_msg s = Some (Bytes bs) \<and> xs_child s = Gone True \<and> dcd bs = Some r \<and> length bs \<le> MAX_REPLY"
    if d: "xs_phase s = Done x" and r: "run_worker dcd x = Inr r" for x dcd r
  proof -
    obtain bs ok err where x: "x = XReplied bs ok err" using r by (cases x) (auto simp: run_worker_def)
    have ok: "ok" "length (take (MAX_REPLY + 1) bs) \<le> MAX_REPLY" "dcd (take (MAX_REPLY + 1) bs) = Some r"
      using r by (auto simp: x run_worker_def Let_def split: if_splits option.splits)
    then have "length bs \<le> MAX_REPLY" by simp
    then show ?thesis using ok inv d by (auto simp: x x_inv_def)
  qed
  ultimately show ?thesis using inv by (auto simp: x_inv_def)
qed


text \<open>At an exchange in which the worker answers and exits.\<close>

definition done_state :: xstate where
  "done_state = \<lparr>xs_phase = Done (XReplied [7] True ''''), xs_child = Gone True, xs_clock = 0, xs_msg = Some (Bytes [7]), xs_kills = [],
     xs_held = False, xs_tail = '''', xs_wait_err = False\<rparr>"

lemma done_run: "run_steps t (spawned False '''') 3 done_state"
proof -
  let ?s = "spawned False ''''"
  let ?a = "?s\<lparr>xs_msg := Some (Bytes [7])\<rparr>"
  let ?b = "?a\<lparr>xs_phase := Poll [7] (0 + POST_REPLY_GRACE)\<rparr>"
  let ?c = "?b\<lparr>xs_child := Zombie True\<rparr>"
  let ?d = "?c\<lparr>xs_phase := Join (XReplied [7] True ''''), xs_child := Gone True\<rparr>"
  have "run_steps t ?s 0 ?a" by (rule other [OF none sends]) (simp add: spawned_def)
  then have "run_steps t ?s 1 ?b" using recv_reply [of ?a "[7]" t] own by (fastforce simp: spawned_def)
  then have "run_steps t ?s 1 ?c" using exits [of ?b True] other by (fastforce simp: spawned_def)
  then have "run_steps t ?s 2 ?d"
    using poll_exited [of ?c "[7]" "0 + POST_REPLY_GRACE" True t] own [of t ?s 1 ?c ?d] by (simp add: spawned_def numeral_2_eq_2)
  then have "run_steps t ?s 3 (?d\<lparr>xs_phase := Done (XReplied [7] True '''')\<rparr>)"
    using joined [of ?d "XReplied [7] True ''''" t] own [of t ?s 2 ?d "?d\<lparr>xs_phase := Done (XReplied [7] True '''')\<rparr>"]
    by (simp add: spawned_def numeral_3_eq_3)
  then show ?thesis by (simp add: done_state_def spawned_def)
qed


theorem parent_exchange_safe_witness:
  "reaped (xs_child done_state) \<and> honest_end (Some 4) done_state (XReplied [7] True '''')"
proof -
  have "reach (Some 4) done_state" using run_reach [OF done_run start] .
  from parent_exchange_safe [OF this] show ?thesis by (simp add: done_state_def)
qed

text \<open>The wait after a failed read is not bounded: the worker may go on, and no signal is sent.\<close>

lemma read_error_waits_unkilled:
  "\<exists>s. reach t s \<and> xs_phase s = WaitFail XReadFailed \<and> xs_child s = Alive \<and> xs_kills s = []
     \<and> (\<forall>s'. \<not> main_step t s s' \<and> \<not> wait_step t s s')"
proof -
  let ?s = "spawned False ''''"
  let ?a = "?s\<lparr>xs_msg := Some ReadError\<rparr>"
  let ?b = "?a\<lparr>xs_phase := WaitFail XReadFailed\<rparr>"
  have "reach t ?a" by (rule by_env [OF start sends]) (simp add: spawned_def)
  then have "reach t ?b" by (rule by_main) (rule recv_error, simp_all add: spawned_def)
  then show ?thesis by (intro exI [of _ ?b]) (auto simp: spawned_def main_step_def elim!: recv_stepE reap_stepE wait_stepE)
qed

end
