(* ===== verification/Pipes.thy ===== *)
theory Pipes
  imports Cli
begin

text \<open>
  The pipes between the parent and one worker (\<open>run_worker\<close> of \<open>cli/src/main.rs\<close>): a thread that feeds the input, one
  that reads the reply, one that drains the error output, and a worker that may be any program. A pipe holds at most
  \<open>cap\<close> bytes; a write or read moves any positive number of bytes that fits. The theory shows that the threads never
  let a worker wait on a pipe for good, that what the parent ends up with is what the worker wrote, and that a worker which
  runs the code gives, under every schedule, the exchange the other theories assume of a spawned worker.
\<close>

section \<open>The worker as any program\<close>

text \<open>The next system call of a program in state \<open>'w\<close>: end, read at most so many bytes, write to its output or its error
  output, close one of its three ends. A failed call answers \<open>None\<close>, an empty read is the end of the input.\<close>

datatype chan = Stdin | Stdout | Stderr

datatype 'w wop =
    WExit bool
  | WRead nat "u8 list option \<Rightarrow> 'w"
  | WOut "u8 list" "nat option \<Rightarrow> 'w"
  | WErr "u8 list" "nat option \<Rightarrow> 'w"
  | WClose chan 'w

text \<open>The worker, the three pipes and the parent's three threads. The writer holds what is still to be written, \<open>None\<close> once
  it has dropped its end; the reader its buffer and whether it has sent it; the drain its bounded tail and whether it has
  ended. The last three fields only record what the worker has read and written.\<close>

record 'w pipes =
  pi_worker :: 'w
  pi_shut :: "chan set"
  pi_todo :: "u8 list option"
  pi_in :: "u8 list"
  pi_out :: "u8 list"
  pi_err :: "u8 list"
  pi_got :: "u8 list"
  pi_sent :: bool
  pi_tail :: "u8 list"
  pi_drained :: bool
  pi_heard :: "u8 list"
  pi_said :: "u8 list"
  pi_cried :: "u8 list"

definition TAIL_CAP :: nat where "TAIL_CAP = 8 * 1024"

definition started :: "'w \<Rightarrow> u8 list \<Rightarrow> 'w pipes" where
  "started w payload = \<lparr>pi_worker = w, pi_shut = {}, pi_todo = Some payload, pi_in = [], pi_out = [], pi_err = [],
     pi_got = [], pi_sent = False, pi_tail = [], pi_drained = False, pi_heard = [], pi_said = [], pi_cried = []\<rparr>"

text \<open>A worker that has ended has closed everything.\<close>

definition ended :: "('w \<Rightarrow> 'w wop) \<Rightarrow> 'w pipes \<Rightarrow> bool" where
  "ended op s \<longleftrightarrow> (\<exists>ok. op (pi_worker s) = WExit ok)"

definition shut :: "('w \<Rightarrow> 'w wop) \<Rightarrow> chan \<Rightarrow> 'w pipes \<Rightarrow> bool" where
  "shut op c s \<longleftrightarrow> c \<in> pi_shut s \<or> ended op s"

section \<open>The threads of the parent\<close>

text \<open>The writer: \<open>write_all\<close> of the input, its error ignored, then the drop.\<close>

inductive writer_step :: "('w \<Rightarrow> 'w wop) \<Rightarrow> nat \<Rightarrow> 'w pipes \<Rightarrow> 'w pipes \<Rightarrow> bool" for op cap where
  feed: "pi_todo s = Some (xs @ ys) \<Longrightarrow> xs \<noteq> [] \<Longrightarrow> \<not> shut op Stdin s \<Longrightarrow> length (pi_in s) + length xs \<le> cap \<Longrightarrow>
    writer_step op cap s (s\<lparr>pi_todo := Some ys, pi_in := pi_in s @ xs\<rparr>)"
| fed: "pi_todo s = Some [] \<Longrightarrow> writer_step op cap s (s\<lparr>pi_todo := None\<rparr>)"
| broken: "pi_todo s = Some xs \<Longrightarrow> shut op Stdin s \<Longrightarrow> writer_step op cap s (s\<lparr>pi_todo := None\<rparr>)"

text \<open>The reader: \<open>take(MAX_REPLY + 1).read_to_end\<close>, then it sends its buffer and drops its end.\<close>

inductive reader_step :: "('w \<Rightarrow> 'w wop) \<Rightarrow> 'w pipes \<Rightarrow> 'w pipes \<Rightarrow> bool" for op where
  reads: "\<not> pi_sent s \<Longrightarrow> pi_out s = xs @ ys \<Longrightarrow> xs \<noteq> [] \<Longrightarrow> length (pi_got s) + length xs \<le> MAX_REPLY + 1 \<Longrightarrow>
    reader_step op s (s\<lparr>pi_got := pi_got s @ xs, pi_out := ys\<rparr>)"
| limit: "\<not> pi_sent s \<Longrightarrow> length (pi_got s) = MAX_REPLY + 1 \<Longrightarrow> reader_step op s (s\<lparr>pi_sent := True\<rparr>)"
| out_eof: "\<not> pi_sent s \<Longrightarrow> pi_out s = [] \<Longrightarrow> shut op Stdout s \<Longrightarrow> reader_step op s (s\<lparr>pi_sent := True\<rparr>)"

text \<open>The drain: it keeps the first 8 KiB, and copies the rest to nowhere.\<close>

inductive drain_step :: "('w \<Rightarrow> 'w wop) \<Rightarrow> 'w pipes \<Rightarrow> 'w pipes \<Rightarrow> bool" for op where
  keeps: "\<not> pi_drained s \<Longrightarrow> pi_err s = xs @ ys \<Longrightarrow> xs \<noteq> [] \<Longrightarrow> length (pi_tail s) + length xs \<le> TAIL_CAP \<Longrightarrow>
    drain_step op s (s\<lparr>pi_tail := pi_tail s @ xs, pi_err := ys\<rparr>)"
| sinks: "\<not> pi_drained s \<Longrightarrow> pi_err s = xs @ ys \<Longrightarrow> xs \<noteq> [] \<Longrightarrow> length (pi_tail s) = TAIL_CAP \<Longrightarrow>
    drain_step op s (s\<lparr>pi_err := ys\<rparr>)"
| err_eof: "\<not> pi_drained s \<Longrightarrow> pi_err s = [] \<Longrightarrow> shut op Stderr s \<Longrightarrow> drain_step op s (s\<lparr>pi_drained := True\<rparr>)"

definition thread_step :: "('w \<Rightarrow> 'w wop) \<Rightarrow> nat \<Rightarrow> 'w pipes \<Rightarrow> 'w pipes \<Rightarrow> bool" where
  "thread_step op cap s s' \<longleftrightarrow> writer_step op cap s s' \<or> reader_step op s s' \<or> drain_step op s s'"

section \<open>The worker's calls\<close>

inductive worker_step :: "('w \<Rightarrow> 'w wop) \<Rightarrow> nat \<Rightarrow> 'w pipes \<Rightarrow> 'w pipes \<Rightarrow> bool" for op cap where
  w_read: "op (pi_worker s) = WRead n k \<Longrightarrow> Stdin \<notin> pi_shut s \<Longrightarrow> pi_in s = xs @ ys \<Longrightarrow> xs \<noteq> [] \<Longrightarrow> length xs \<le> n \<Longrightarrow>
    worker_step op cap s (s\<lparr>pi_worker := k (Some xs), pi_in := ys, pi_heard := pi_heard s @ xs\<rparr>)"
| w_nothing: "op (pi_worker s) = WRead 0 k \<Longrightarrow> worker_step op cap s (s\<lparr>pi_worker := k (Some [])\<rparr>)"
| w_eof: "op (pi_worker s) = WRead n k \<Longrightarrow> Stdin \<notin> pi_shut s \<Longrightarrow> pi_in s = [] \<Longrightarrow> pi_todo s = None \<Longrightarrow>
    worker_step op cap s (s\<lparr>pi_worker := k (Some [])\<rparr>)"
| w_no_input: "op (pi_worker s) = WRead n k \<Longrightarrow> Stdin \<in> pi_shut s \<Longrightarrow> worker_step op cap s (s\<lparr>pi_worker := k None\<rparr>)"
| w_out: "op (pi_worker s) = WOut (xs @ ys) k \<Longrightarrow> Stdout \<notin> pi_shut s \<Longrightarrow> \<not> pi_sent s \<Longrightarrow> xs \<noteq> [] \<Longrightarrow>
    length (pi_out s) + length xs \<le> cap \<Longrightarrow>
    worker_step op cap s (s\<lparr>pi_worker := k (Some (length xs)), pi_out := pi_out s @ xs, pi_said := pi_said s @ xs\<rparr>)"
| w_out_nothing: "op (pi_worker s) = WOut [] k \<Longrightarrow> worker_step op cap s (s\<lparr>pi_worker := k (Some 0)\<rparr>)"
| w_out_broken: "op (pi_worker s) = WOut xs k \<Longrightarrow> Stdout \<in> pi_shut s \<or> pi_sent s \<Longrightarrow>
    worker_step op cap s (s\<lparr>pi_worker := k None\<rparr>)"
| w_err: "op (pi_worker s) = WErr (xs @ ys) k \<Longrightarrow> Stderr \<notin> pi_shut s \<Longrightarrow> \<not> pi_drained s \<Longrightarrow> xs \<noteq> [] \<Longrightarrow>
    length (pi_err s) + length xs \<le> cap \<Longrightarrow>
    worker_step op cap s (s\<lparr>pi_worker := k (Some (length xs)), pi_err := pi_err s @ xs, pi_cried := pi_cried s @ xs\<rparr>)"
| w_err_nothing: "op (pi_worker s) = WErr [] k \<Longrightarrow> worker_step op cap s (s\<lparr>pi_worker := k (Some 0)\<rparr>)"
| w_err_broken: "op (pi_worker s) = WErr xs k \<Longrightarrow> Stderr \<in> pi_shut s \<or> pi_drained s \<Longrightarrow>
    worker_step op cap s (s\<lparr>pi_worker := k None\<rparr>)"
| w_close: "op (pi_worker s) = WClose c w \<Longrightarrow> worker_step op cap s (s\<lparr>pi_worker := w, pi_shut := insert c (pi_shut s)\<rparr>)"

definition pipe_step :: "('w \<Rightarrow> 'w wop) \<Rightarrow> nat \<Rightarrow> 'w pipes \<Rightarrow> 'w pipes \<Rightarrow> bool" where
  "pipe_step op cap s s' \<longleftrightarrow> thread_step op cap s s' \<or> worker_step op cap s s'"

text \<open>Runs by the number of steps, of the threads alone and of all.\<close>

inductive steps_of :: "('s \<Rightarrow> 's \<Rightarrow> bool) \<Rightarrow> 's \<Rightarrow> nat \<Rightarrow> 's \<Rightarrow> bool" for R where
  stay: "steps_of R s 0 s"
| go: "steps_of R s n s' \<Longrightarrow> R s' s'' \<Longrightarrow> steps_of R s (Suc n) s''"

inductive_cases writer_stepE: "writer_step op cap s s'"
inductive_cases reader_stepE: "reader_step op s s'"
inductive_cases drain_stepE: "drain_step op s s'"
inductive_cases worker_stepE: "worker_step op cap s s'"

lemma steps_invariant: "steps_of R s n s' \<Longrightarrow> I s \<Longrightarrow> (\<And>s s'. I s \<Longrightarrow> R s s' \<Longrightarrow> I s') \<Longrightarrow> I s'"
  by (induction rule: steps_of.induct) auto

lemma steps_measure:
  assumes "steps_of R s n s'" and "I s" and "\<And>s s'. I s \<Longrightarrow> R s s' \<Longrightarrow> I s'"
    and "\<And>s s'. I s \<Longrightarrow> R s s' \<Longrightarrow> m s' < (m s :: nat)"
  shows "n + m s' \<le> m s"
  using assms(1,2)
proof (induction rule: steps_of.induct)
  case (go s n s' s'')
  have "I s'" using steps_invariant [where I = I, OF go.hyps(1) go.prems] assms(3) by blast
  then have "m s'' < m s'" using assms(4) go.hyps(2) by blast
  with go.IH [OF go.prems] show ?case by simp
qed simp

section \<open>What is in flight\<close>

text \<open>Bytes are neither lost, nor made up, nor reordered; and the bounds hold.\<close>

definition in_ok :: "('w \<Rightarrow> 'w wop) \<Rightarrow> nat \<Rightarrow> u8 list \<Rightarrow> 'w pipes \<Rightarrow> bool" where
  "in_ok op cap payload s \<longleftrightarrow> length (pi_in s) \<le> cap
     \<and> (case pi_todo s of
          Some rest \<Rightarrow> payload = pi_heard s @ pi_in s @ rest
        | None \<Rightarrow> (\<exists>rest. payload = pi_heard s @ pi_in s @ rest \<and> (rest = [] \<or> shut op Stdin s)))"

definition out_ok :: "('w \<Rightarrow> 'w wop) \<Rightarrow> nat \<Rightarrow> 'w pipes \<Rightarrow> bool" where
  "out_ok op cap s \<longleftrightarrow> length (pi_out s) \<le> cap \<and> length (pi_got s) \<le> MAX_REPLY + 1 \<and> pi_said s = pi_got s @ pi_out s
     \<and> (pi_sent s \<longrightarrow> length (pi_got s) = MAX_REPLY + 1 \<or> pi_out s = [] \<and> shut op Stdout s)"

definition err_ok :: "('w \<Rightarrow> 'w wop) \<Rightarrow> nat \<Rightarrow> 'w pipes \<Rightarrow> bool" where
  "err_ok op cap s \<longleftrightarrow> length (pi_err s) \<le> cap \<and> length (pi_tail s) \<le> TAIL_CAP
     \<and> (\<exists>lost. pi_cried s = pi_tail s @ lost @ pi_err s \<and> (lost = [] \<or> length (pi_tail s) = TAIL_CAP))
     \<and> (pi_drained s \<longrightarrow> pi_err s = [] \<and> shut op Stderr s)"

definition pipes_ok :: "('w \<Rightarrow> 'w wop) \<Rightarrow> nat \<Rightarrow> u8 list \<Rightarrow> 'w pipes \<Rightarrow> bool" where
  "pipes_ok op cap payload s \<longleftrightarrow> in_ok op cap payload s \<and> out_ok op cap s \<and> err_ok op cap s"

lemma pipes_ok_started: "pipes_ok op cap payload (started w payload)"
  by (simp add: pipes_ok_def in_ok_def out_ok_def err_ok_def started_def)

lemma shut_simps [simp]:
  "shut op c (s\<lparr>pi_todo := a\<rparr>) = shut op c s" "shut op c (s\<lparr>pi_in := b\<rparr>) = shut op c s"
  "shut op c (s\<lparr>pi_out := b\<rparr>) = shut op c s" "shut op c (s\<lparr>pi_err := b\<rparr>) = shut op c s"
  "shut op c (s\<lparr>pi_got := b\<rparr>) = shut op c s" "shut op c (s\<lparr>pi_sent := x\<rparr>) = shut op c s"
  "shut op c (s\<lparr>pi_tail := b\<rparr>) = shut op c s" "shut op c (s\<lparr>pi_drained := x\<rparr>) = shut op c s"
  by (simp_all add: shut_def ended_def)

lemma pipes_ok_writer: "pipes_ok op cap payload s \<Longrightarrow> writer_step op cap s s' \<Longrightarrow> pipes_ok op cap payload s'"
  by (erule writer_stepE) (auto simp: pipes_ok_def in_ok_def out_ok_def err_ok_def)

lemma pipes_ok_reader: "pipes_ok op cap payload s \<Longrightarrow> reader_step op s s' \<Longrightarrow> pipes_ok op cap payload s'"
  by (erule reader_stepE) (auto simp: pipes_ok_def in_ok_def out_ok_def err_ok_def split: option.splits)

lemma pipes_ok_drain:
  assumes "pipes_ok op cap payload s" and "drain_step op s s'"
  shows "pipes_ok op cap payload s'"
  using assms(2)
proof cases
  case (keeps xs ys)
  then have "pi_cried s = pi_tail s @ xs @ ys"
    using assms(1) by (cases xs) (auto simp: pipes_ok_def err_ok_def)
  then show ?thesis using keeps assms(1) by (auto simp: pipes_ok_def in_ok_def out_ok_def err_ok_def split: option.splits)
next
  case (sinks xs ys)
  then obtain lost where "pi_cried s = pi_tail s @ (lost @ xs) @ ys" using assms(1) by (auto simp: pipes_ok_def err_ok_def)
  then show ?thesis
    using sinks assms(1) by (auto simp: pipes_ok_def in_ok_def out_ok_def err_ok_def split: option.splits)
next
  case err_eof
  then show ?thesis using assms(1) by (auto simp: pipes_ok_def in_ok_def out_ok_def err_ok_def split: option.splits)
qed

text \<open>A step of the worker opens nothing again.\<close>

lemma shut_worker: "worker_step op cap s s' \<Longrightarrow> shut op c s \<Longrightarrow> shut op c s'"
  by (erule worker_stepE) (auto simp: shut_def ended_def)

lemma pipes_ok_worker:
  assumes "pipes_ok op cap payload s" and "worker_step op cap s s'"
  shows "pipes_ok op cap payload s'"
proof -
  have "in_ok op cap payload s'"
    using assms(2)
  proof cases
    case (w_read n k xs ys)
    then show ?thesis using assms(1) shut_worker [OF assms(2), of Stdin]
      by (auto simp: pipes_ok_def in_ok_def split: option.splits)
  qed (use assms(1) shut_worker [OF assms(2), of Stdin] in \<open>auto simp: pipes_ok_def in_ok_def split: option.splits\<close>)
  moreover have "out_ok op cap s'"
    using assms(1) shut_worker [OF assms(2), of Stdout] assms(2)
    by (elim worker_stepE) (auto simp: pipes_ok_def out_ok_def)
  moreover have "err_ok op cap s'"
    using assms(1) shut_worker [OF assms(2), of Stderr] assms(2)
    by (elim worker_stepE) (auto simp: pipes_ok_def err_ok_def)
  ultimately show ?thesis by (simp add: pipes_ok_def)
qed

lemma pipes_ok_thread: "pipes_ok op cap payload s \<Longrightarrow> thread_step op cap s s' \<Longrightarrow> pipes_ok op cap payload s'"
  unfolding thread_step_def using pipes_ok_writer pipes_ok_reader pipes_ok_drain by blast

lemma pipes_ok_step: "pipes_ok op cap payload s \<Longrightarrow> pipe_step op cap s s' \<Longrightarrow> pipes_ok op cap payload s'"
  unfolding pipe_step_def using pipes_ok_thread pipes_ok_worker by blast

section \<open>No thread keeps the worker waiting\<close>

text \<open>What the threads can do without the worker.\<close>

definition pending :: "'w pipes \<Rightarrow> nat" where
  "pending s = (case pi_todo s of None \<Rightarrow> 0 | Some bs \<Rightarrow> Suc (length bs)) + length (pi_out s) + length (pi_err s)
     + of_bool (\<not> pi_sent s) + of_bool (\<not> pi_drained s)"

lemma pending_thread: "thread_step op cap s s' \<Longrightarrow> pending s' < pending s"
  unfolding thread_step_def
  by (elim disjE writer_stepE reader_stepE drain_stepE) (auto simp: pending_def neq_Nil_conv)

text \<open>When the exchange is over: the worker has ended and each thread has.\<close>

definition all_over :: "('w \<Rightarrow> 'w wop) \<Rightarrow> 'w pipes \<Rightarrow> bool" where
  "all_over op s \<longleftrightarrow> ended op s \<and> pi_todo s = None \<and> pi_sent s \<and> pi_drained s"


lemma writer_waits:
  assumes "\<And>s'. \<not> writer_step op cap s s'"
  shows "pi_todo s = None \<or> cap \<le> length (pi_in s) \<and> \<not> shut op Stdin s"
proof (cases "pi_todo s")
  case (Some bs)
  then have open_in: "\<not> shut op Stdin s" using assms broken by blast
  obtain x xs where "bs = [x] @ xs" using Some assms fed by (cases bs) auto
  then show ?thesis using Some open_in assms feed [of s "[x]" xs op cap] by force
qed simp

lemma reader_waits:
  assumes "\<And>s'. \<not> reader_step op s s'" and "length (pi_got s) \<le> MAX_REPLY + 1"
  shows "pi_sent s \<or> pi_out s = [] \<and> \<not> shut op Stdout s"
proof (rule disjCI)
  assume s: "\<not> (pi_out s = [] \<and> \<not> shut op Stdout s)"
  show "pi_sent s"
  proof (rule ccontr)
    assume n: "\<not> pi_sent s"
    then have "length (pi_got s) < MAX_REPLY + 1" using assms limit by force
    moreover obtain x xs where "pi_out s = [x] @ xs"
      using s n assms(1) out_eof by (cases "pi_out s") auto
    ultimately show False using n assms(1) reads [of s "[x]" xs op] by simp
  qed
qed

lemma drain_waits:
  assumes "\<And>s'. \<not> drain_step op s s'" and "length (pi_tail s) \<le> TAIL_CAP"
  shows "pi_drained s \<or> pi_err s = [] \<and> \<not> shut op Stderr s"
proof (rule disjCI)
  assume s: "\<not> (pi_err s = [] \<and> \<not> shut op Stderr s)"
  show "pi_drained s"
  proof (rule ccontr)
    assume n: "\<not> pi_drained s"
    then obtain x xs where x: "pi_err s = [x] @ xs"
      using s assms(1) err_eof by (cases "pi_err s") auto
    show False
    proof (cases "length (pi_tail s) = TAIL_CAP")
      case True
      then show ?thesis using n x assms(1) sinks [of s "[x]" xs op] by simp
    next
      case False
      then show ?thesis using n x assms keeps [of s "[x]" xs op] by simp
    qed
  qed
qed

text \<open>Where the threads wait, the worker can go on, or everything is over.\<close>

lemma worker_goes_on:
  assumes "pipes_ok op cap payload s" and "0 < cap" and "\<And>s'. \<not> thread_step op cap s s'"
  shows "all_over op s \<or> (\<exists>s'. worker_step op cap s s')"
proof -
  have w: "pi_todo s = None \<or> cap \<le> length (pi_in s) \<and> \<not> shut op Stdin s"
    using assms(3) by (intro writer_waits) (auto simp: thread_step_def)
  have r: "pi_sent s \<or> pi_out s = [] \<and> \<not> shut op Stdout s"
    using assms(1,3) by (intro reader_waits) (auto simp: thread_step_def pipes_ok_def out_ok_def)
  have d: "pi_drained s \<or> pi_err s = [] \<and> \<not> shut op Stderr s"
    using assms(1,3) by (intro drain_waits) (auto simp: thread_step_def pipes_ok_def err_ok_def)
  show ?thesis
  proof (cases "op (pi_worker s)")
    case (WExit ok)
    then show ?thesis using w r d by (auto simp: all_over_def ended_def shut_def)
  next
    case (WRead n k)
    consider "Stdin \<in> pi_shut s" | "n = 0" | "Stdin \<notin> pi_shut s" "n \<noteq> 0" "pi_in s = []" | x xs where
      "Stdin \<notin> pi_shut s" "n \<noteq> 0" "pi_in s = [x] @ xs" by (cases "pi_in s") auto
    then show ?thesis
    proof cases
      case 1
      then show ?thesis using WRead w_no_input [of op s n k cap] by blast
    next
      case 2
      then show ?thesis using WRead w_nothing [of op s k cap] by blast
    next
      case 3
      then have "pi_todo s = None" using w assms(2) by simp
      then show ?thesis using 3 WRead w_eof [of op s n k cap] by blast
    next
      case 4
      then show ?thesis using WRead w_read [of op s n k "[x]" xs cap] by force
    qed
  next
    case (WOut bs k)
    consider "Stdout \<in> pi_shut s \<or> pi_sent s" | "bs = []" | x xs where "Stdout \<notin> pi_shut s" "\<not> pi_sent s" "bs = [x] @ xs"
      by (cases bs) auto
    then show ?thesis
    proof cases
      case 1
      then show ?thesis using WOut w_out_broken [of op s bs k cap] by blast
    next
      case 2
      then show ?thesis using WOut w_out_nothing [of op s k cap] by blast
    next
      case 3
      then have "pi_out s = []" using r by simp
      then show ?thesis using 3 WOut assms(2) w_out [of op s "[x]" xs k cap] by force
    qed
  next
    case (WErr bs k)
    consider "Stderr \<in> pi_shut s \<or> pi_drained s" | "bs = []" | x xs where "Stderr \<notin> pi_shut s" "\<not> pi_drained s" "bs = [x] @ xs"
      by (cases bs) auto
    then show ?thesis
    proof cases
      case 1
      then show ?thesis using WErr w_err_broken [of op s bs k cap] by blast
    next
      case 2
      then show ?thesis using WErr w_err_nothing [of op s k cap] by blast
    next
      case 3
      then have "pi_err s = []" using d by simp
      then show ?thesis using 3 WErr assms(2) w_err [of op s "[x]" xs k cap] by force
    qed
  next
    case (WClose c w)
    then show ?thesis using w_close [of op s c w cap] by blast
  qed
qed


section \<open>What the parent ends with\<close>

text \<open>The end of an exchange in which the parent waited for everyone: the reader's buffer, the exit status, and the text of
  the drained tail.\<close>

definition exchange_of :: "('w \<Rightarrow> 'w wop) \<Rightarrow> 'w pipes \<Rightarrow> exchange" where
  "exchange_of op s =
     XReplied (pi_got s) (case op (pi_worker s) of WExit ok \<Rightarrow> ok | _ \<Rightarrow> False) (err_text (pi_tail s))"

lemma over_streams:
  assumes "pipes_ok op cap payload s" and "all_over op s"
  shows "pi_got s = take (MAX_REPLY + 1) (pi_said s) \<and> pi_tail s = take TAIL_CAP (pi_cried s)
    \<and> (\<exists>rest. payload = pi_heard s @ rest)"
proof -
  have "pi_got s = take (MAX_REPLY + 1) (pi_said s)"
    using assms by (auto simp: pipes_ok_def out_ok_def all_over_def)
  moreover have "pi_tail s = take TAIL_CAP (pi_cried s)"
    using assms by (auto simp: pipes_ok_def err_ok_def all_over_def)
  moreover have "\<exists>rest. payload = pi_heard s @ rest"
    using assms by (auto simp: pipes_ok_def in_ok_def all_over_def)
  ultimately show ?thesis by blast
qed

section \<open>A worker that runs the code\<close>

text \<open>The worker past its jail: it reads its input to the end or to the cap, and answers; \<open>emit\<close> writes the whole reply. What
  fails is told on the error output before it ends.\<close>

datatype wstate = Reading "u8 list" | Replying "u8 list" | Complaining "u8 list"

definition on_read :: "(cli_error \<Rightarrow> u8 list) \<Rightarrow> (u8 list \<Rightarrow> u8 list + u8 list) \<Rightarrow> u8 list \<Rightarrow> u8 list option \<Rightarrow> wstate" where
  "on_read txt answer acc r =
     (case r of
        None \<Rightarrow> Complaining (txt StdinFailed)
      | Some xs \<Rightarrow>
          if xs \<noteq> [] then Reading (acc @ xs)
          else case answer acc of Inl e \<Rightarrow> Complaining e | Inr bs \<Rightarrow> Replying bs)"

definition emit :: "(cli_error \<Rightarrow> u8 list) \<Rightarrow> u8 list \<Rightarrow> wstate wop" where
  "emit txt bs =
     (if bs = [] then WExit True
      else WOut bs (\<lambda>r. case r of None \<Rightarrow> Complaining (txt StdoutError) | Some n \<Rightarrow> Replying (drop n bs)))"

definition worker_op :: "(cli_error \<Rightarrow> u8 list) \<Rightarrow> (u8 list \<Rightarrow> u8 list + u8 list) \<Rightarrow> wstate \<Rightarrow> wstate wop" where
  "worker_op txt answer w =
     (case w of
        Reading acc \<Rightarrow> WRead (MAX_INPUT + 1 - length acc) (on_read txt answer acc)
      | Replying bs \<Rightarrow> emit txt bs
      | Complaining bs \<Rightarrow>
          if bs = [] then WExit False
          else WErr bs (\<lambda>r. case r of None \<Rightarrow> Complaining [] | Some n \<Rightarrow> Complaining (drop n bs)))"

text \<open>What it answers is what \<open>worker_main\<close> computes. A worker that aborts is one that ends without a word.\<close>

definition answer_of ::
  "(string \<Rightarrow> u32) \<Rightarrow> world \<Rightarrow> proc \<Rightarrow> tools \<Rightarrow> (WorkerReply \<Rightarrow> u8 list) \<Rightarrow> (cli_error \<Rightarrow> u8 list) \<Rightarrow> env \<Rightarrow> string
    \<Rightarrow> string option \<Rightarrow> u8 list \<Rightarrow> u8 list + u8 list" where
  "answer_of nr w p tt encode txt env op func input =
     (case worker_main nr w p tt env op func (Some input) of
        None \<Rightarrow> Inl []
      | Some (Inl e) \<Rightarrow> Inl (txt e)
      | Some (Inr r) \<Rightarrow> Inr (encode r))"

lemma worker_main_capped:
  "worker_main nr w p tt env op func (Some (take (MAX_INPUT + 1) payload)) = worker_main nr w p tt env op func (Some payload)"
  by (simp add: worker_main_def Let_def split: prod.split sum.split)

text \<open>What a run with the reply \<open>rep\<close> keeps.\<close>

definition replying :: "u8 list \<Rightarrow> wstate pipes \<Rightarrow> bool" where
  "replying rep s \<longleftrightarrow> pi_shut s = {} \<and> pi_cried s = []
     \<and> (case pi_worker s of
          Reading acc \<Rightarrow> pi_heard s = acc \<and> length acc \<le> MAX_INPUT + 1 \<and> pi_said s = [] \<and> \<not> pi_sent s \<and> \<not> pi_drained s
        | Replying bs \<Rightarrow> pi_said s @ bs = rep \<and> (bs \<noteq> [] \<longrightarrow> \<not> pi_sent s \<and> \<not> pi_drained s)
        | Complaining _ \<Rightarrow> False)"

text \<open>And what it has left to do.\<close>

definition work :: "u8 list \<Rightarrow> wstate pipes \<Rightarrow> nat" where
  "work rep s = pending s + length (pi_in s) + (case pi_todo s of None \<Rightarrow> 0 | Some bs \<Rightarrow> length bs)
     + (case pi_worker s of Reading _ \<Rightarrow> 2 * length rep + 1 | Replying bs \<Rightarrow> 2 * length bs | Complaining bs \<Rightarrow> 0)"

lemma ended_worker [simp]:
  "ended (worker_op txt answer) s \<longleftrightarrow> pi_worker s = Replying [] \<or> pi_worker s = Complaining []"
  by (cases "pi_worker s") (auto simp: ended_def worker_op_def emit_def)

lemma replying_thread:
  assumes "replying rep s" and "thread_step (worker_op txt answer) cap s s'" and "pipes_ok (worker_op txt answer) cap payload s"
    and "length rep \<le> MAX_REPLY"
  shows "replying rep s'"
proof -
  have "length (pi_got s) \<le> length rep"
  proof -
    have "length (pi_got s) \<le> length (pi_said s)" using assms(3) by (simp add: pipes_ok_def out_ok_def)
    moreover have "length (pi_said s) \<le> length rep"
      using assms(1) by (auto simp: replying_def split: wstate.splits)
    ultimately show ?thesis by simp
  qed
  then have "length (pi_got s) \<noteq> MAX_REPLY + 1" using assms(4) by simp
  then show ?thesis
    using assms(1,2) unfolding thread_step_def
    by (elim disjE writer_stepE reader_stepE drain_stepE)
      (auto simp: replying_def shut_def split: wstate.splits)
qed

text \<open>At the end of its input the worker has all of it, up to the cap.\<close>

lemma input_complete:
  assumes "pipes_ok op cap payload s" and "pi_heard s = acc" and "length acc \<le> MAX_INPUT + 1" and "\<not> shut op Stdin s"
    and "MAX_INPUT + 1 - length acc = 0 \<or> pi_in s = [] \<and> pi_todo s = None"
  shows "acc = take (MAX_INPUT + 1) payload"
  using assms(5)
proof
  assume "MAX_INPUT + 1 - length acc = 0"
  then have l: "length acc = MAX_INPUT + 1" using assms(3) by simp
  have "\<exists>rest. payload = acc @ rest" using assms(1,2) by (auto simp: pipes_ok_def in_ok_def split: option.splits)
  then show ?thesis using l by auto
next
  assume "pi_in s = [] \<and> pi_todo s = None"
  then have "payload = acc" using assms(1,2,4) by (auto simp: pipes_ok_def in_ok_def)
  then show ?thesis using assms(3) by simp
qed

lemma replying_worker:
  assumes "replying rep s" and "worker_step (worker_op txt answer) cap s s'" and "pipes_ok (worker_op txt answer) cap payload s"
    and "answer (take (MAX_INPUT + 1) payload) = Inr rep"
  shows "replying rep s' \<and> work rep s' < work rep s"
proof (cases "pi_worker s")
  case (Reading acc)
  have inp: "pi_heard s = acc" "length acc \<le> MAX_INPUT + 1" "\<not> shut (worker_op txt answer) Stdin s"
    using assms(1) Reading by (auto simp: replying_def shut_def)
  have full: "answer acc = Inr rep" if "MAX_INPUT + 1 - length acc = 0 \<or> pi_in s = [] \<and> pi_todo s = None"
    using input_complete [OF assms(3) inp that] assms(4) by simp
  show ?thesis
    using assms(2)
  proof cases
    case (w_read n k xs ys)
    then have "n = MAX_INPUT + 1 - length acc" "k = on_read txt answer acc" using Reading by (auto simp: worker_op_def)
    then show ?thesis using w_read assms(1) Reading
      by (auto simp: replying_def work_def pending_def on_read_def neq_Nil_conv)
  next
    case (w_nothing k)
    then have "MAX_INPUT + 1 - length acc = 0" "k = on_read txt answer acc" using Reading by (auto simp: worker_op_def)
    then show ?thesis using w_nothing assms(1) Reading full by (auto simp: replying_def work_def pending_def on_read_def)
  next
    case (w_eof n k)
    then have "k = on_read txt answer acc" using Reading by (auto simp: worker_op_def)
    then show ?thesis using w_eof assms(1) Reading full by (auto simp: replying_def work_def pending_def on_read_def)
  qed (use Reading assms(1) in \<open>auto simp: worker_op_def replying_def\<close>)
next
  case (Replying bs)
  show ?thesis
    using assms(2)
  proof cases
    case (w_out xs ys k)
    then have "bs = xs @ ys" "k = (\<lambda>r. case r of None \<Rightarrow> Complaining (txt StdoutError) | Some n \<Rightarrow> Replying (drop n bs))"
      using Replying by (auto simp: worker_op_def emit_def split: if_splits)
    then show ?thesis using w_out assms(1) Replying by (auto simp: replying_def work_def pending_def neq_Nil_conv)
  qed (use Replying assms(1) in \<open>auto simp: worker_op_def emit_def replying_def split: if_splits\<close>)
next
  case (Complaining bs)
  then show ?thesis using assms(1) by (simp add: replying_def)
qed

lemma work_thread: "thread_step op cap s s' \<Longrightarrow> work rep s' < work rep s"
  unfolding thread_step_def
  by (elim disjE writer_stepE reader_stepE drain_stepE) (auto simp: work_def pending_def neq_Nil_conv)


text \<open>A run can be carried on to its end.\<close>

lemma run_to_end:
  assumes "steps_of R s\<^sub>0 n s" and "I s" and "\<And>s s'. I s \<Longrightarrow> R s s' \<Longrightarrow> I s' \<and> m s' < (m s :: nat)"
  shows "\<exists>n s. steps_of R s\<^sub>0 n s \<and> (\<forall>s'. \<not> R s s')"
  using assms(1,2)
proof (induction "m s" arbitrary: n s rule: less_induct)
  case less
  show ?case
  proof (cases "\<exists>s'. R s s'")
    case True
    then obtain s' where "R s s'" by blast
    then show ?thesis using less.hyps [of s' "Suc n"] assms(3) [OF less.prems(2)] go [OF less.prems(1)] by blast
  qed (use less.prems(1) in blast)
qed

lemma delivered_step:
  assumes "answer (take (MAX_INPUT + 1) payload) = Inr rep" and "length rep \<le> MAX_REPLY"
    and "pipes_ok (worker_op txt answer) cap payload s \<and> replying rep s" and "pipe_step (worker_op txt answer) cap s s'"
  shows "(pipes_ok (worker_op txt answer) cap payload s' \<and> replying rep s') \<and> work rep s' < work rep s"
  using assms(3,4) replying_thread [of rep s "txt" answer cap s' payload] replying_worker [of rep s "txt" answer cap s' payload, OF _ _ _ assms(1)]
    work_thread [of "worker_op txt answer" cap s s'] pipes_ok_step [of "worker_op txt answer" cap payload s s'] assms(2)
  by (auto simp: pipe_step_def)

lemma delivered_start: "pipes_ok (worker_op txt answer) cap payload (started (Reading []) payload) \<and> replying rep (started (Reading []) payload)"
  by (simp add: pipes_ok_started) (simp add: replying_def started_def)

section \<open>Properties\<close>

text \<open>C21: No worker, whatever program it is, can wedge itself or the parent on a full or an empty pipe: from any state
  of any run the parent's threads make a bounded number of steps on their own, and when they can make no more, either the
  worker can make its next call or the exchange is over, the worker ended and every thread with it. Then the parent holds
  exactly what the worker wrote: its reply up to one byte past the cap, the first 8 KiB of its error output; and what
  the worker read is a prefix of the input.\<close>

theorem threads_keep_no_worker_waiting:
  assumes "steps_of (pipe_step op cap) (started w payload) n s" and "steps_of (thread_step op cap) s m s'" and "0 < cap"
  shows "m \<le> pending s
    \<and> ((\<exists>s''. thread_step op cap s' s'') \<or> (\<exists>s''. worker_step op cap s' s'') \<or> all_over op s')
    \<and> (all_over op s' \<longrightarrow> pi_got s' = take (MAX_REPLY + 1) (pi_said s') \<and> pi_tail s' = take TAIL_CAP (pi_cried s')
        \<and> (\<exists>rest. payload = pi_heard s' @ rest))"
proof -
  have "pipes_ok op cap payload s"
    using steps_invariant [where I = "pipes_ok op cap payload", OF assms(1) pipes_ok_started] pipes_ok_step by blast
  then have ok: "pipes_ok op cap payload s'"
    using steps_invariant [where I = "pipes_ok op cap payload", OF assms(2)] pipes_ok_thread by blast
  have "m + pending s' \<le> pending s"
    using steps_measure [where I = "\<lambda>_. True", OF assms(2)] pending_thread by blast
  then show ?thesis using worker_goes_on [OF ok assms(3)] over_streams [OF ok] by auto
qed

text \<open>At a worker that says one byte on its error output and ends while the parent still feeds it.\<close>

definition chatty :: "nat \<Rightarrow> nat wop" where
  "chatty w = (if w = 0 then WErr [1] (\<lambda>_. 1) else WExit True)"

definition chatty_end :: "nat pipes" where
  "chatty_end = (started 1 [9])\<lparr>pi_todo := None, pi_sent := True, pi_drained := True, pi_tail := [1], pi_cried := [1]\<rparr>"

lemma chatty_speaks:
  "steps_of (pipe_step chatty 1) (started 0 [9]) (Suc 0) ((started 1 [9])\<lparr>pi_err := [1], pi_cried := [1]\<rparr>)"
proof (rule go [OF stay])
  have "worker_step chatty 1 (started 0 [9])
      ((started 0 [9])\<lparr>pi_worker := 1, pi_err := [] @ [1], pi_cried := [] @ [1]\<rparr>)"
    using w_err [of chatty "started 0 [9]" "[1]" "[]" "\<lambda>_. 1" 1] by (simp add: chatty_def started_def)
  then show "pipe_step chatty 1 (started 0 [9]) ((started 1 [9])\<lparr>pi_err := [1], pi_cried := [1]\<rparr>)"
    by (simp add: pipe_step_def started_def)
qed

lemma chatty_heard:
  "steps_of (thread_step chatty 1) ((started 1 [9])\<lparr>pi_err := [1], pi_cried := [1]\<rparr>) (Suc (Suc (Suc (Suc 0)))) chatty_end"
proof -
  let ?a = "(started 1 [9])\<lparr>pi_err := [1], pi_cried := [1]\<rparr>"
  let ?b = "?a\<lparr>pi_tail := [1], pi_err := []\<rparr>"
  let ?c = "?b\<lparr>pi_drained := True\<rparr>"
  let ?d = "?c\<lparr>pi_sent := True\<rparr>"
  have "drain_step chatty ?a ?b"
    using keeps [of ?a "[1]" "[]" chatty] by (simp add: started_def TAIL_CAP_def)
  moreover have "drain_step chatty ?b ?c"
    using err_eof [of ?b chatty] by (auto simp: started_def shut_def ended_def chatty_def)
  moreover have "reader_step chatty ?c ?d"
    using out_eof [of ?c chatty] by (auto simp: started_def shut_def ended_def chatty_def)
  moreover have "writer_step chatty 1 ?d chatty_end"
    using broken [of ?d "[9]" chatty 1] by (auto simp: started_def shut_def ended_def chatty_def chatty_end_def)
  ultimately have "thread_step chatty 1 ?a ?b" "thread_step chatty 1 ?b ?c" "thread_step chatty 1 ?c ?d" "thread_step chatty 1 ?d chatty_end"
    unfolding thread_step_def by blast+
  then show ?thesis by (blast intro: go stay)
qed

theorem threads_keep_no_worker_waiting_witness:
  "pi_tail chatty_end = take TAIL_CAP (pi_cried chatty_end) \<and> 4 \<le> pending ((started (1 :: nat) [9])\<lparr>pi_err := [1], pi_cried := [1]\<rparr>)"
proof -
  have "all_over chatty chatty_end" by (auto simp: all_over_def ended_def chatty_def chatty_end_def started_def)
  then show ?thesis using threads_keep_no_worker_waiting [OF chatty_speaks chatty_heard] by simp
qed

text \<open>C22: The exchange with a worker that runs the code does not depend on the schedule: over pipes of any capacity, with
  reads and writes of any size, in any interleaving of the worker and the parent's threads, it takes a bounded number of
  steps, never stops before it is over, and ends with the exchange that the command's correctness rests on, the worker's
  whole reply and a clean exit.\<close>

theorem exchange_is_delivered:
  assumes "worker_main nr w p tt (worker_env env) op func (Some payload) = Some (Inr r)" and "length (encode r) \<le> MAX_REPLY"
    and "steps_of (pipe_step (worker_op txt (answer_of nr w p tt encode txt (worker_env env) op func)) cap)
      (started (Reading []) payload) n s" and "0 < cap"
  shows "n \<le> 2 * length payload + 2 * length (encode r) + 4
    \<and> ((\<exists>s'. pipe_step (worker_op txt (answer_of nr w p tt encode txt (worker_env env) op func)) cap s s')
      \<or> all_over (worker_op txt (answer_of nr w p tt encode txt (worker_env env) op func)) s
        \<and> exchange_of (worker_op txt (answer_of nr w p tt encode txt (worker_env env) op func)) s
          = honest_exchange nr w p tt encode env op func payload)"
proof -
  let ?answer = "answer_of nr w p tt encode txt (worker_env env) op func"
  let ?op = "worker_op txt ?answer"
  let ?I = "\<lambda>s. pipes_ok ?op cap payload s \<and> replying (encode r) s"
  have ans: "?answer (take (MAX_INPUT + 1) payload) = Inr (encode r)"
    using assms(1) worker_main_capped [of nr w p tt "worker_env env" op func payload] by (simp add: answer_of_def)
  note step = delivered_step [where answer = ?answer and rep = "encode r", OF ans assms(2)]
  note start = delivered_start [of "txt" ?answer cap payload "encode r"]
  have "n + work (encode r) s \<le> work (encode r) (started (Reading []) payload)"
    using steps_measure [where I = ?I, OF assms(3) start] step by blast
  then have bound: "n \<le> 2 * length payload + 2 * length (encode r) + 4"
    by (simp add: work_def pending_def started_def)
  have inv: "?I s" using steps_invariant [where I = ?I, OF assms(3) start] step by blast
  have "exchange_of ?op s = honest_exchange nr w p tt encode env op func payload" if over: "all_over ?op s"
  proof -
    have r: "pi_worker s = Replying []" "pi_said s = encode r" "pi_cried s = []"
      using inv over by (auto simp: replying_def all_over_def)
    then have "pi_got s = encode r" "pi_tail s = []"
      using over_streams [of ?op cap payload s] inv over assms(2) by simp_all
    then show ?thesis
      using assms(1) r(1) by (simp add: exchange_of_def honest_exchange_def worker_op_def emit_def)
  qed
  moreover have "(\<exists>s'. pipe_step ?op cap s s') \<or> all_over ?op s"
    using worker_goes_on [of ?op cap payload s] inv assms(4) by (auto simp: pipe_step_def)
  ultimately show ?thesis using bound by blast
qed

text \<open>At a worker asked for an operation it does not know, with a one-byte reply, over pipes of one byte.\<close>

definition unknown_op :: "wstate \<Rightarrow> wstate wop" where
  "unknown_op = worker_op (\<lambda>_. [69]) (answer_of x86_64_nr quiet_world fresh_worker ret_tools (\<lambda>_. [3]) (\<lambda>_. [69])
     (worker_env Map.empty) ''version'' None)"

theorem exchange_is_delivered_witness:
  "\<exists>n s. steps_of (pipe_step unknown_op 1) (started (Reading []) [7]) n s \<and> n \<le> 8
     \<and> exchange_of unknown_op s = XReplied [3] True ''''"
proof -
  let ?r = "ErrReply ''unknown worker op: version''"
  have w: "worker_main x86_64_nr quiet_world fresh_worker ret_tools (worker_env Map.empty) ''version'' None (Some [7]) = Some (Inr ?r)"
    using worker_main_up [OF quiet_jail_up, of "[7]" ret_tools "worker_env Map.empty" "''version''" None]
    by (simp add: worker_reply_def MAX_INPUT_def)
  then have ans: "answer_of x86_64_nr quiet_world fresh_worker ret_tools (\<lambda>_. [3]) (\<lambda>_. [69]) (worker_env Map.empty) ''version'' None
      (take (MAX_INPUT + 1) [7]) = Inr [3]"
    using worker_main_capped [of x86_64_nr quiet_world fresh_worker ret_tools "worker_env Map.empty" "''version''" None "[7]"]
    by (simp add: answer_of_def)
  have small: "length [3 :: u8] \<le> MAX_REPLY" by (simp add: MAX_REPLY_def)
  let ?I = "\<lambda>s. pipes_ok unknown_op 1 [7] s \<and> replying [3] s"
  have step: "?I s' \<and> work [3] s' < work [3] s" if "?I s" "pipe_step unknown_op 1 s s'" for s s'
    using delivered_step [where payload = "[7]" and rep = "[3]" and answer = "answer_of x86_64_nr quiet_world fresh_worker ret_tools (\<lambda>_. [3])
      (\<lambda>_. [69]) (worker_env Map.empty) ''version'' None", OF ans small] that unfolding unknown_op_def by blast
  have start: "?I (started (Reading []) [7])" unfolding unknown_op_def by (rule delivered_start)
  obtain n s where run: "steps_of (pipe_step unknown_op 1) (started (Reading []) [7]) n s"
      and last: "\<And>s'. \<not> pipe_step unknown_op 1 s s'"
    using run_to_end [where I = ?I, OF stay start step] by blast
  have "honest_exchange x86_64_nr quiet_world fresh_worker ret_tools (\<lambda>_. [3]) Map.empty ''version'' None [7] = XReplied [3] True ''''"
    using w by (simp add: honest_exchange_def)
  then show ?thesis
    using exchange_is_delivered [OF w _ run [unfolded unknown_op_def]] small run last by (auto simp: unknown_op_def)
qed

end
