(* ===== verification/Protocol.thy ===== *)
theory Protocol
  imports Cli
begin

text \<open>
  The worker protocol of \<open>cli/src/main.rs\<close> as a type discipline: which reply an operation may have, what a reply
  carries, and that the parent's checks on replies (\<open>run_index\<close>, \<open>run_dump\<close>, \<open>load_corpus_records\<close>) never reject a worker
  that runs the code.
\<close>

section \<open>The type of a reply\<close>

fun reply_typed :: "string \<Rightarrow> WorkerReply \<Rightarrow> bool" where
  "reply_typed op (IndexOk fs) \<longleftrightarrow> op = ''index'' \<and> list_all indexed_ok fs"
| "reply_typed op (DumpOk _) \<longleftrightarrow> op = ''dump''"
| "reply_typed op (DbOk rs) \<longleftrightarrow> op = ''dbload'' \<and> list_all wf_rec rs"
| "reply_typed op (ErrReply _) \<longleftrightarrow> True"

text \<open>How an exchange with such a worker can fail: the jail did not come up or the worker died, the time ran out, a reply
  is too long, a thread panicked, or the worker itself reports an error. A wrong kind, a bad signature or an unreadable
  reply are not among them.\<close>

fun honest_error :: "cli_error \<Rightarrow> bool" where
  "honest_error (TimeBudget _) = True"
| "honest_error (Abnormal _) = True"
| "honest_error ReplyOverCap = True"
| "honest_error ShardPanicked = True"
| "honest_error (WorkerSaid _) = True"
| "honest_error _ = False"

definition result_typed :: "('a \<Rightarrow> bool) \<Rightarrow> cli_error + 'a \<Rightarrow> bool" where
  "result_typed P r = (case r of Inl e \<Rightarrow> honest_error e | Inr x \<Rightarrow> P x)"

lemma result_typed_simps [simp]:
  "result_typed P (Inl e) = honest_error e" "result_typed P (Inr x) = P x"
  by (simp_all add: result_typed_def)

lemma result_typed_bindR:
  assumes "result_typed P r" and "\<And>x. P x \<Longrightarrow> result_typed Q (f x)"
  shows "result_typed Q (bindR r f)"
  using assms by (cases r) simp_all

section \<open>What a worker replies\<close>

text \<open>Each shard of an index is clean.\<close>

lemma index_loaded_typed:
  assumes "index_loaded w cfg l idx cnt = Some fs"
  shows "list_all indexed_ok fs"
proof -
  have "list_all2 (\<lambda>x y. index_func w cfg (image l) (import_map l) (local_by_name (Loaded.funcs l)) x = Some y)
      (filter (has_code (image l)) (shard idx cnt (Loaded.funcs l))) fs"
    using assms by (simp add: index_loaded_def those_Some_list_all2)
  then show ?thesis by (induction rule: list_all2_induct) (simp_all add: index_func_ok)
qed

lemma index_shard_typed:
  "index_bytes_shard w parse walk raw cfg idx cnt = Some (Inr fs) \<Longrightarrow> list_all indexed_ok fs"
  by (auto simp: index_bytes_shard_def Let_def index_loaded_typed split: sum.splits)

lemma dump_reply_typed: "reply_typed ''dump'' (dump_reply tt name r)"
  by (simp add: dump_reply_def split: sum.split option.split)

lemma worker_reply_typed:
  assumes "worker_reply tt env op func input = Some r"
  shows "reply_typed op r"
proof -
  consider "op = ''index''" | "op = ''dump''" | "op = ''dbload''" | "op \<notin> {''index'', ''dump'', ''dbload''}" by auto
  then show ?thesis
  proof cases
    case 1
    then obtain z where z: "index_bytes_shard (tl_emu tt) (tl_parse tt) (tl_walk tt) input (emu_config env)
        (fst (parse_shard func)) (snd (parse_shard func)) = Some z"
        "r = (case z of Inl e \<Rightarrow> ErrReply (tl_load_text tt e) | Inr fs \<Rightarrow> IndexOk fs)"
      using assms by (auto simp: worker_reply_def Let_def case_prod_unfold)
    with 1 show ?thesis by (cases z) (simp_all add: index_shard_typed)
  next
    case 2
    then show ?thesis using assms by (auto simp: worker_reply_def Let_def dump_reply_typed)
  next
    case 3
    then show ?thesis using assms
      by (auto simp: worker_reply_def bindR_Inr intro: db_all_spec(4) split: sum.splits prod.splits)
  next
    case 4
    then show ?thesis using assms by (simp add: worker_reply_def) auto
  qed
qed

lemma worker_main_typed:
  assumes "worker_main nr w p tt env op func stdin = Some (Inr r)"
  shows "reply_typed op r"
  using assms worker_reply_typed [of tt env op func]
  by (auto simp: worker_main_def Let_def split: prod.splits sum.splits option.splits if_splits)

section \<open>What the parent makes of it\<close>

lemma run_worker_typed:
  assumes "\<And>r. worker_main nr w p tt (worker_env env) op func (Some raw) = Some (Inr r) \<Longrightarrow> dcd (encode r) = Some r"
  shows "result_typed (reply_typed op) (run_worker dcd (honest_exchange nr w p tt encode env op func raw))"
proof (cases "worker_main nr w p tt (worker_env env) op func (Some raw)")
  case None
  then show ?thesis by (simp add: honest_exchange_def run_worker_def)
next
  case (Some x)
  show ?thesis
  proof (cases x)
    case (Inl e)
    then show ?thesis using Some by (simp add: honest_exchange_def run_worker_def Let_def)
  next
    case (Inr r)
    then have "reply_typed op r" "dcd (encode r) = Some r" using Some worker_main_typed assms by auto
    then show ?thesis using Some Inr by (simp add: honest_exchange_def run_worker_def Let_def)
  qed
qed

lemma accept_index_typed:
  "result_typed (reply_typed ''index'') x \<Longrightarrow> result_typed (list_all indexed_ok) (accept_index x)"
  unfolding accept_index_def
  by (erule result_typed_bindR) (auto simp: validate_ok sanitize_ok split: WorkerReply.split)

lemma merge_typed:
  assumes "\<And>i x. joined i = Some x \<Longrightarrow> result_typed (reply_typed ''index'') (run_worker dcd x)"
    and "fold (\<lambda>i. merge_shard dcd (joined i)) is acc = (fs, err)"
    and "list_all indexed_ok (fst acc)" and "pred_option honest_error (snd acc)"
  shows "list_all indexed_ok fs \<and> pred_option honest_error err"
  using assms(2-4)
proof (induction "is" arbitrary: acc)
  case (Cons i js)
  have "list_all indexed_ok (fst (merge_shard dcd (joined i) acc)) \<and> pred_option honest_error (snd (merge_shard dcd (joined i) acc))"
  proof (cases "joined i")
    case (Some x)
    then show ?thesis
      using accept_index_typed [OF assms(1) [OF Some]] Cons.prems(2,3)
      by (auto simp: merge_shard_def Let_def split: prod.split sum.split option.split)
  qed (use Cons.prems(2,3) in \<open>auto simp: merge_shard_def Let_def split: prod.split option.split\<close>)
  then show ?case using Cons.IH Cons.prems(1) by simp
qed simp

lemma sharded_typed:
  assumes "\<And>i x. joined i = Some x \<Longrightarrow> result_typed (reply_typed ''index'') (run_worker dcd x)"
  shows "result_typed (list_all indexed_ok) (run_workers_sharded dcd joined n)"
  using merge_typed [where joined = joined and dcd = dcd, OF assms, where ?acc = "([], None)" and ?is = "[0..<n]"]
  by (auto simp: run_workers_sharded_def list_all_iff split: prod.split option.split)

section \<open>Properties\<close>


text \<open>At a file that is a corpus of one row and no binary.\<close>

definition row_tools :: tools where
  "row_tools = ret_tools\<lparr>tl_parse := (\<lambda>_. None), tl_sqlite := (\<lambda>_.
     Inr (Some ''table'', map (\<lambda>(n, t). (n, t, 0)) EXPECTED_FUNCS_COLS, funcs one_row_db, []))\<rparr>"

definition row_encode :: "WorkerReply \<Rightarrow> u8 list" where
  "row_encode r = (case r of ErrReply t \<Rightarrow> 1 # map (\<lambda>c. of_nat (of_char c)) t | _ \<Rightarrow> [0])"

definition row_decode :: "u8 list \<Rightarrow> WorkerReply option" where
  "row_decode bs = Some (if bs = [0] then DbOk [print_rec ''a.out'' (const_print 5) 1] else ErrReply (map (\<lambda>b. char_of (unat b)) (drop 1 bs)))"

definition row_parent :: parent where
  "row_parent = \<lparr>pa_env = Map.empty, pa_spawn = honest_exchange x86_64_nr quiet_world fresh_worker row_tools row_encode Map.empty,
     pa_decode = row_decode, pa_panics = (\<lambda>_. False), pa_tools = row_tools, pa_open_db = (\<lambda>_. Inr one_row_db)\<rparr>"

lemma row_decode_text: "row_decode (row_encode (ErrReply t)) = Some (ErrReply t)"
  by (induction t) (auto simp: row_decode_def row_encode_def unat_of_nat take_bit_eq_mod)

lemma row_image: "bindR (tl_sqlite row_tools raw) (\<lambda>(kind, cols, rows, bs). bindR (open_image kind cols rows bs) db_all)
    = Inr [print_rec ''a.out'' (const_print 5) 1]"
proof -
  have v: "verify_funcs_schema (Some ''table'') (map (\<lambda>(n, t). (n, t, 0)) EXPECTED_FUNCS_COLS) = Inr True" by code_simp
  have "open_image (Some ''table'') (map (\<lambda>(n, t). (n, t, 0)) EXPECTED_FUNCS_COLS) (funcs one_row_db) [] = Inr one_row_db"
    by (simp add: open_image_def v one_row_db_def)
  then show ?thesis by (simp add: row_tools_def one_row_db_all)
qed

lemma row_codec:
  assumes "worker_main x86_64_nr quiet_world fresh_worker row_tools env op func (Some raw) = Some (Inr r)"
  shows "row_decode (row_encode r) = Some r"
proof -
  have "r = DbOk [print_rec ''a.out'' (const_print 5) 1]" if "worker_reply row_tools env op func x = Some r" "\<And>t. r \<noteq> ErrReply t" for x
    using that unfolding worker_reply_def row_image
    by (auto simp: index_bytes_shard_def dump_traces_def dump_reply_def load_def row_tools_def Let_def
        split: if_splits option.splits prod.splits)
  then have "r = DbOk [print_rec ''a.out'' (const_print 5) 1] \<or> (\<exists>t. r = ErrReply t)"
    using assms by (fastforce simp: worker_main_def Let_def split: prod.splits sum.splits if_splits)
  then show ?thesis using row_decode_text by (auto simp: row_decode_def row_encode_def)
qed


end
