(* ===== verification/Probe.thy ===== *)
theory Probe
  imports Sandbox
begin

text \<open>
  The jail's self-test (\<open>crates/fnprint-sandbox/src/bin/jailbreak_probe.rs\<close>): a program that locks itself down,
  tries one forbidden or required thing, and says by its exit status what came of it. Its cases are trees of system
  calls, run against the installed filters; what the system answers to a call the filters let through is a
  parameter and may be anything, also a different answer each time.
\<close>

section \<open>Programs that issue system calls\<close>

text \<open>The answer to a call: an error number, or a value. A \<open>Say\<close> is a \<open>println!\<close>, one \<open>write\<close> of a line.\<close>

type_synonym answer = "nat + u64"

datatype prog = Exit nat | Say string prog | Call sys_call "answer \<Rightarrow> prog"

datatype status = Exited nat | Sigsys

text \<open>What the system does with a call that passes the filters, after the calls before it.\<close>

type_synonym system = "sys_call list \<Rightarrow> sys_call \<Rightarrow> answer"

text \<open>A call through the filters: \<open>None\<close> when it kills the process with SIGSYS.\<close>

definition issue :: "filter list \<Rightarrow> system \<Rightarrow> sys_call list \<Rightarrow> sys_call \<Rightarrow> answer option" where
  "issue fs os h c =
     (case kernel fs c of Allow \<Rightarrow> Some (os h c) | Errno e \<Rightarrow> Some (Inl e) | KillProcess \<Rightarrow> None)"

definition write_line :: "(string \<Rightarrow> u32) \<Rightarrow> (string \<Rightarrow> u64) \<Rightarrow> string \<Rightarrow> sys_call" where
  "write_line nr ptr s = call_of (nr ''write'') [1, ptr s, of_nat (length s) + 1, 0, 0, 0]"

text \<open>A panic of \<open>main\<close> exits with 101; \<open>println!\<close> panics when its write fails.\<close>

primrec exec :: "(string \<Rightarrow> u32) \<Rightarrow> (string \<Rightarrow> u64) \<Rightarrow> filter list \<Rightarrow> system \<Rightarrow> prog \<Rightarrow> sys_call list \<Rightarrow> string list
    \<Rightarrow> string list \<times> status" where
  "exec nr ptr fs os (Exit n) h out = (out, Exited n)"
| "exec nr ptr fs os (Say s k) h out =
     (let c = write_line nr ptr s
      in case issue fs os h c of
           None \<Rightarrow> (out, Sigsys)
         | Some (Inl e) \<Rightarrow> (out, Exited 101)
         | Some (Inr v) \<Rightarrow> exec nr ptr fs os k (h @ [c]) (out @ [s]))"
| "exec nr ptr fs os (Call c f) h out =
     (case issue fs os h c of
        None \<Rightarrow> (out, Sigsys)
      | Some r \<Rightarrow> exec nr ptr fs os (f r) (h @ [c]) out)"

section \<open>The cases\<close>

text \<open>The constants of \<open>libc\<close>, and \<open>ptr\<close>, the addresses of the objects a call points to.\<close>

definition PROT_READ :: u64 where "PROT_READ = 1"
definition PROT_WRITE :: u64 where "PROT_WRITE = 2"
definition MAP_PRIVATE_ANON :: u64 where "MAP_PRIVATE_ANON = 0x22"
definition MAP_STACK :: u64 where "MAP_STACK = 0x20000"
definition CLONE_NEWUSER :: u64 where "CLONE_NEWUSER = 0x10000000"

text \<open>The flags \<open>pthread_create\<close> passes: the thread shares memory, files and handlers with its creator.\<close>

definition PTHREAD_FLAGS :: u64 where "PTHREAD_FLAGS = 0x3D0F00"

definition anon_mmap :: "(string \<Rightarrow> u32) \<Rightarrow> u64 \<Rightarrow> u64 \<Rightarrow> u64 \<Rightarrow> sys_call" where
  "anon_mmap nr len prot flags = call_of (nr ''mmap'') [0, len, prot, flags, -1, 0]"

definition mprotect_call :: "(string \<Rightarrow> u32) \<Rightarrow> u64 \<Rightarrow> u64 \<Rightarrow> u64 \<Rightarrow> sys_call" where
  "mprotect_call nr p len prot = call_of (nr ''mprotect'') [p, len, prot, 0, 0, 0]"

text \<open>\<open>TcpStream::connect\<close> makes a socket, connects it, and gives its error back, which is dropped.\<close>

definition socket_case :: "(string \<Rightarrow> u32) \<Rightarrow> (string \<Rightarrow> u64) \<Rightarrow> prog" where
  "socket_case nr ptr =
     (let reached = Say ''REACHED-AFTER-SOCKET'' (Exit 0)
      in Call (call_of (nr ''socket'') [2, 0x80001, 0, 0, 0, 0]) (\<lambda>r. case r of
           Inl e \<Rightarrow> reached
         | Inr fd \<Rightarrow> Call (call_of (nr ''connect'') [fd, ptr ''127.0.0.1:9'', 16, 0, 0, 0]) (\<lambda>_. reached)))"

text \<open>\<open>File::open\<close> is an \<open>openat\<close> of the path, read only, closed on exec.\<close>

definition open_case :: "(string \<Rightarrow> u32) \<Rightarrow> (string \<Rightarrow> u64) \<Rightarrow> prog" where
  "open_case nr ptr =
     Call (call_of (nr ''openat'') [-100, ptr ''/etc/passwd'', 0x80000, 0, 0, 0]) (\<lambda>r. case r of
       Inr fd \<Rightarrow> Exit 3
     | Inl e \<Rightarrow> Exit 0)"

definition mmap_exec_case :: "(string \<Rightarrow> u32) \<Rightarrow> prog" where
  "mmap_exec_case nr =
     Call (anon_mmap nr 4096 (PROT_READ OR PROT_WRITE OR PROT_EXEC) MAP_PRIVATE_ANON) (\<lambda>r. case r of
       Inr p \<Rightarrow> Exit 3
     | Inl e \<Rightarrow> Call (anon_mmap nr 4096 (PROT_READ OR PROT_WRITE) MAP_PRIVATE_ANON) (\<lambda>r. case r of
         Inl e \<Rightarrow> Exit 4
       | Inr p \<Rightarrow> Exit 0))"

definition mprotect_exec_case :: "(string \<Rightarrow> u32) \<Rightarrow> prog" where
  "mprotect_exec_case nr =
     Call (anon_mmap nr 4096 (PROT_READ OR PROT_WRITE) MAP_PRIVATE_ANON) (\<lambda>r. case r of
       Inl e \<Rightarrow> Exit 4
     | Inr p \<Rightarrow> Call (mprotect_call nr p 4096 (PROT_READ OR PROT_EXEC)) (\<lambda>r. case r of
         Inr v \<Rightarrow> Exit 3
       | Inl e \<Rightarrow> Exit 0))"

text \<open>
  \<open>std::thread::spawn\<close> as the program relies on it: \<open>pthread_create\<close> maps a stack of \<open>len\<close> bytes and opens it, asks for
  \<open>clone3\<close>, and where the system does not have it (ENOSYS, 38) for \<open>clone\<close>. \<open>spawn\<close> panics when no thread could be made.
  The thread computes its closure, and \<open>join\<close> gives the value.
\<close>

definition spawn :: "(string \<Rightarrow> u32) \<Rightarrow> (string \<Rightarrow> u64) \<Rightarrow> u64 \<Rightarrow> u64 \<Rightarrow> (u64 \<Rightarrow> prog) \<Rightarrow> prog" where
  "spawn nr ptr len v joined =
     Call (anon_mmap nr len 0 (MAP_PRIVATE_ANON OR MAP_STACK)) (\<lambda>r. case r of
       Inl e \<Rightarrow> Exit 101
     | Inr p \<Rightarrow> Call (mprotect_call nr p len (PROT_READ OR PROT_WRITE)) (\<lambda>r. case r of
         Inl e \<Rightarrow> Exit 101
       | Inr _ \<Rightarrow> Call (call_of (nr ''clone3'') [ptr ''clone_args'', 88, 0, 0, 0, 0]) (\<lambda>r. case r of
           Inr tid \<Rightarrow> joined v
         | Inl e \<Rightarrow>
             if e \<noteq> 38 then Exit 101
             else Call (call_of (nr ''clone'') [PTHREAD_FLAGS, p + len, ptr ''parent_tid'', ptr ''child_tid'', ptr ''tls'', 0])
               (\<lambda>r. case r of Inl e \<Rightarrow> Exit 101 | Inr tid \<Rightarrow> joined v))))"

definition thread_case :: "(string \<Rightarrow> u32) \<Rightarrow> (string \<Rightarrow> u64) \<Rightarrow> prog" where
  "thread_case nr ptr = spawn nr ptr 0x200000 (40 + 2) (\<lambda>v. if v = 42 then Exit 0 else Exit 5)"

text \<open>\<open>CloneArgs\<close>, whose address the raw call passes.\<close>

record CloneArgs =
  flags :: u64
  pidfd :: u64
  child_tid :: u64
  parent_tid :: u64
  exit_signal :: u64
  stack :: u64
  stack_size :: u64
  tls :: u64

definition newuser_args :: CloneArgs where
  "newuser_args = \<lparr>flags = CLONE_NEWUSER, pidfd = 0, child_tid = 0, parent_tid = 0, exit_signal = 17, stack = 0,
     stack_size = 0, tls = 0\<rparr>"

definition userns_case :: "(string \<Rightarrow> u32) \<Rightarrow> (CloneArgs \<Rightarrow> u64) \<Rightarrow> prog" where
  "userns_case nr addr =
     Call (call_of (nr ''clone3'') [addr newuser_args, 64, 0, 0, 0, 0]) (\<lambda>r. case r of
       Inr pid \<Rightarrow> Exit 3
     | Inl err \<Rightarrow> if err = 38 then Exit 0 else Exit 4)"

text \<open>The two calls return 0 when they succeed.\<close>

definition affinity_case :: "(string \<Rightarrow> u32) \<Rightarrow> (string \<Rightarrow> u64) \<Rightarrow> prog" where
  "affinity_case nr ptr =
     Call (call_of (nr ''sched_setaffinity'') [0, 128, ptr ''mask'', 0, 0, 0]) (\<lambda>r. case r of
       Inr v \<Rightarrow> Exit 3
     | Inl err \<Rightarrow> if err = 1 then Exit 0 else Exit 4)"

definition tgkill_case :: "(string \<Rightarrow> u32) \<Rightarrow> prog" where
  "tgkill_case nr =
     Call (call_of (nr ''getpid'') (replicate 6 0)) (\<lambda>pid.
     Call (call_of (nr ''gettid'') (replicate 6 0)) (\<lambda>tid.
     Call (call_of (nr ''tgkill'') [case_sum (\<lambda>_. -1) id pid, case_sum (\<lambda>_. -1) id tid, 0, 0, 0, 0]) (\<lambda>r. case r of
       Inr v \<Rightarrow> Exit 3
     | Inl err \<Rightarrow> if err = 1 then Exit 0 else Exit 4)))"

definition ok_case :: prog where
  "ok_case = (let s = sum_list (map (\<lambda>x. of_nat x * of_nat x :: u64) [0..<1000]) in Say (''ok '' @ dec_nat (unat s)) (Exit 0))"

definition jailed_case :: "(string \<Rightarrow> u32) \<Rightarrow> (string \<Rightarrow> u64) \<Rightarrow> (CloneArgs \<Rightarrow> u64) \<Rightarrow> string \<Rightarrow> prog" where
  "jailed_case nr ptr addr which =
     Say ''locked''
      (if which = ''socket'' then socket_case nr ptr
       else if which = ''open'' then open_case nr ptr
       else if which = ''mmap_exec'' then mmap_exec_case nr
       else if which = ''mprotect_exec'' then mprotect_exec_case nr
       else if which = ''thread'' then thread_case nr ptr
       else if which = ''userns'' then userns_case nr addr
       else if which = ''affinity'' then affinity_case nr ptr
       else if which = ''tgkill'' then tgkill_case nr
       else ok_case)"

section \<open>The cases before the lock-down\<close>

text \<open>A new descriptor is the lowest that is free; \<open>F_GETFD\<close> fails exactly on a descriptor that is not open.\<close>

definition lowest_free :: "nat list \<Rightarrow> nat" where
  "lowest_free xs = hd (List.filter (\<lambda>n. n \<notin> set xs) [0..<Suc (length xs)])"

definition harden_fds_case :: "world \<Rightarrow> bool \<Rightarrow> proc \<Rightarrow> status" where
  "harden_fds_case w opens p =
     (if \<not> opens then Exited 101
      else let raw = lowest_free (fds p); p = p\<lparr>fds := raw # fds p\<rparr>
      in if raw < 3 then Exited 4
      else case harden_worker_preinput w p of
        (_, Inl e) \<Rightarrow> Exited 101
      | (p, Inr _) \<Rightarrow> if raw \<notin> set (fds p) then Exited 0 else Exited 3)"

text \<open>\<open>PR_GET_PDEATHSIG\<close> reads the signal back: 9 when it is armed, 0 when not.\<close>

definition pdeathsig_case :: "world \<Rightarrow> bool \<Rightarrow> proc \<Rightarrow> status" where
  "pdeathsig_case w reads p =
     (case harden_worker_preinput w p of
        (_, Inl e) \<Rightarrow> Exited 101
      | (p, Inr _) \<Rightarrow>
          if \<not> reads then Exited 4
          else let sig = (if pdeathsig p then 9 else 0 :: nat) in if sig = 9 then Exited 0 else Exited 3)"

section \<open>The program\<close>

text \<open>The world of a probe: that of a worker, whether \<open>/dev/null\<close> opens and the signal can be read back, what the
  system answers, and where objects lie.\<close>

record probe_world =
  base :: world
  null_opens :: bool
  pdeathsig_reads :: bool
  answers :: system
  ptr_of :: "string \<Rightarrow> u64"
  args_at :: "CloneArgs \<Rightarrow> u64"

definition probe_main :: "(string \<Rightarrow> u32) \<Rightarrow> probe_world \<Rightarrow> proc \<Rightarrow> string list \<Rightarrow> string list \<times> status" where
  "probe_main nr w p args =
     (let which = (case args of _ # a # _ \<Rightarrow> a | _ \<Rightarrow> [])
      in if which = ''harden_fds'' then ([], harden_fds_case (base w) (null_opens w) p)
      else if which = ''pdeathsig'' then ([], pdeathsig_case (base w) (pdeathsig_reads w) p)
      else case lock_down_worker nr (base w) p of
        (_, Inl e) \<Rightarrow> ([], Exited 101)
      | (p, Inr _) \<Rightarrow> exec nr (ptr_of w) (installed p) (answers w) (jailed_case nr (ptr_of w) (args_at w) which) [] [])"


section \<open>What the jail says to the calls of the probe\<close>

text \<open>The names the probe uses beside those of the filters, with the same assumption on their numbers.\<close>

definition probe_names :: "string list" where
  "probe_names = [''openat'', ''sched_setaffinity'', ''tgkill'']"

definition probe_abi_ok :: "(string \<Rightarrow> u32) \<Rightarrow> bool" where
  "probe_abi_ok nr \<longleftrightarrow> abi_ok nr \<and> distinct (map nr (used_names @ probe_names))
     \<and> list_all (\<lambda>s. nr s < X32_BIT \<and> nr s \<notin> {428, 429, 430, 431, 432, 433}) probe_names"

lemma verdict_denied:
  assumes "probe_abi_ok nr" and "s \<in> set probe_names"
  shows "kernel (jail nr) (call_of (nr s) xs) = Errno 1"
proof -
  have b: "nr s < X32_BIT" "nr s \<notin> {428, 429, 430, 431, 432, 433}"
    using assms by (auto simp: probe_abi_ok_def list_all_iff)
  have "nr s \<notin> nr ` set used_names"
    using assms by (auto simp: probe_abi_ok_def)
  then have "nr s \<notin> nr ` set kill_names" "nr s \<notin> nr ` set (allowed_syscalls @ [''clone'', ''mmap'', ''mprotect''])"
    by (auto simp: used_names_def)
  moreover from this(1) have "nr s \<notin> set (kill_syscalls nr)"
    using b x32_ne [OF b(1)] by (auto simp: kill_syscalls_def Let_def)
  ultimately show ?thesis by (simp add: kernel_jail_native run_allow del: One_nat_def)
qed

lemma probe_abi [intro]: "probe_abi_ok nr \<Longrightarrow> abi_ok nr"
  by (simp add: probe_abi_ok_def)

text \<open>The calls of the probe, each decided by the filters alone.\<close>

lemma probe_verdicts:
  assumes "probe_abi_ok nr"
  shows "kernel (jail nr) (write_line nr ptr s) = Allow"
    "kernel (jail nr) (call_of (nr ''getpid'') xs) = Allow" "kernel (jail nr) (call_of (nr ''gettid'') xs) = Allow"
    "kernel (jail nr) (call_of (nr ''clone3'') xs) = Errno 38"
    "kernel (jail nr) (call_of (nr ''clone'') (PTHREAD_FLAGS # xs)) = Allow"
    "kernel (jail nr) (call_of (nr ''openat'') xs) = Errno 1"
    "kernel (jail nr) (call_of (nr ''sched_setaffinity'') xs) = Errno 1"
    "kernel (jail nr) (call_of (nr ''tgkill'') xs) = Errno 1"
    "kernel (jail nr) (call_of (nr ''socket'') xs) = KillProcess"
    "kernel (jail nr) (anon_mmap nr len prot fl) = (if prot AND 0xFFFFFFFF AND PROT_EXEC = 0 then Allow else Errno 1)"
    "kernel (jail nr) (mprotect_call nr p len prot) = (if prot AND 0xFFFFFFFF AND PROT_EXEC = 0 then Allow else Errno 1)"
  using probe_abi [OF assms] assms
  by (simp_all add: write_line_def anon_mmap_def mprotect_call_def verdict_allowed verdict_clone3 verdict_clone
    verdict_denied verdict_killed verdict_pages PTHREAD_FLAGS_def CLONE_NEW_MASK_def
    allowed_syscalls_def probe_names_def kill_names_def del: One_nat_def)

section \<open>The lowest free descriptor\<close>

lemma lowest_free_not_open: "lowest_free xs \<notin> set xs"
proof -
  have "\<not> set [0..<Suc (length xs)] \<subseteq> set xs"
  proof
    assume "set [0..<Suc (length xs)] \<subseteq> set xs"
    then have "card {0..<Suc (length xs)} \<le> card (set xs)" by (metis List.finite_set card_mono set_upt)
    then show False using card_length [of xs] by simp
  qed
  then have "List.filter (\<lambda>n. n \<notin> set xs) [0..<Suc (length xs)] \<noteq> []" by (auto simp: filter_empty_conv)
  then have "lowest_free xs \<in> set (List.filter (\<lambda>n. n \<notin> set xs) [0..<Suc (length xs)])"
    unfolding lowest_free_def by (rule hd_in_set)
  then show ?thesis by (metis (mono_tags, lifting) mem_Collect_eq set_filter)
qed

lemma lowest_free_above:
  assumes "{0, 1, 2} \<subseteq> set xs"
  shows "3 \<le> lowest_free xs"
proof -
  have "lowest_free xs \<noteq> 0" "lowest_free xs \<noteq> 1" "lowest_free xs \<noteq> 2"
    using assms lowest_free_not_open [of xs] by (metis insert_subset)+
  then show ?thesis by linarith
qed


section \<open>What the probe reports\<close>

lemma prot_bits [simp]:
  "(PROT_READ OR PROT_WRITE OR PROT_EXEC) AND 0xFFFFFFFF AND PROT_EXEC \<noteq> 0"
  "(PROT_READ OR PROT_EXEC) AND 0xFFFFFFFF AND PROT_EXEC \<noteq> 0"
  "(PROT_READ OR PROT_WRITE) AND 0xFFFFFFFF AND PROT_EXEC = 0"
  "0 AND 0xFFFFFFFF AND PROT_EXEC = 0"
  by (simp_all add: PROT_READ_def PROT_WRITE_def PROT_EXEC_def)

lemmas case_defs = socket_case_def open_case_def mmap_exec_case_def mprotect_exec_case_def thread_case_def spawn_def
  userns_case_def affinity_case_def tgkill_case_def

text \<open>No case finds a hole, and none gets past the socket.\<close>

definition contained :: "string list \<times> status \<Rightarrow> bool" where
  "contained r \<longleftrightarrow> snd r \<noteq> Exited 3 \<and> ''REACHED-AFTER-SOCKET'' \<notin> set (fst r)"

lemma contained_cases:
  assumes "probe_abi_ok nr" and "''REACHED-AFTER-SOCKET'' \<notin> set out"
  shows "contained (exec nr ptr (jail nr) os (socket_case nr ptr) h out)"
    "contained (exec nr ptr (jail nr) os (open_case nr ptr) h out)"
    "contained (exec nr ptr (jail nr) os (mmap_exec_case nr) h out)"
    "contained (exec nr ptr (jail nr) os (mprotect_exec_case nr) h out)"
    "contained (exec nr ptr (jail nr) os (thread_case nr ptr) h out)"
    "contained (exec nr ptr (jail nr) os (userns_case nr addr) h out)"
    "contained (exec nr ptr (jail nr) os (affinity_case nr ptr) h out)"
    "contained (exec nr ptr (jail nr) os (tgkill_case nr) h out)"
  using assms(2)
  by (auto simp: case_defs contained_def issue_def probe_verdicts [OF assms(1)] Let_def split: sum.splits simp del: One_nat_def)

lemma contained_ok:
  assumes "probe_abi_ok nr" and "''REACHED-AFTER-SOCKET'' \<notin> set out"
  shows "contained (exec nr ptr (jail nr) os ok_case h out)"
  using assms(2)
  by (auto simp: ok_case_def contained_def issue_def probe_verdicts [OF assms(1)] Let_def split: sum.splits simp del: One_nat_def upt.simps)

lemma contained_jailed:
  assumes "probe_abi_ok nr"
  shows "contained (exec nr ptr (jail nr) os (jailed_case nr ptr addr which) [] [])"
  using contained_cases [OF assms, where out = "[''locked'']" and h = "[write_line nr ptr ''locked'']"]
    contained_ok [OF assms, where out = "[''locked'']" and h = "[write_line nr ptr ''locked'']"]
  by (auto simp: jailed_case_def issue_def probe_verdicts [OF assms] contained_def Let_def split: sum.splits)

text \<open>When the system refuses nothing of its own accord, each case reports success.\<close>

lemma reports_cases:
  assumes "probe_abi_ok nr" and "\<And>h c. \<exists>v. os h c = Inr v"
  shows "snd (exec nr ptr (jail nr) os (jailed_case nr ptr addr which) [] []) = (if which = ''socket'' then Sigsys else Exited 0)"
proof -
  obtain f where f: "os = (\<lambda>h c. Inr (f h c))" using assms(2) by metis
  show ?thesis
    unfolding f jailed_case_def
    by (simp add: case_defs ok_case_def issue_def probe_verdicts [OF assms(1)] Let_def del: One_nat_def upt.simps)
qed


lemma harden_Inr:
  assumes "harden_worker_preinput w p = (p', Inr u)"
  shows "set (fds p') \<subseteq> {0, 1, 2} \<and> pdeathsig p'"
  using assms
  by (auto simp: harden_worker_preinput_def close_inherited_fds_def then_do_Inr attempt_Inr split: option.splits if_splits)

lemma harden_quiet:
  assumes "\<And>x. \<not> failing w x" and "parent_pid w = Some q" and "q \<noteq> 1"
  shows "\<exists>p'. harden_worker_preinput w p = (p', Inr ())"
  using assms by (simp add: harden_worker_preinput_def close_inherited_fds_def attempt_def)

lemma harden_fds_outcome:
  shows "harden_fds_case w opens p \<noteq> Exited 3"
    and "(\<And>x. \<not> failing w x) \<Longrightarrow> parent_pid w = Some q \<Longrightarrow> q \<noteq> 1 \<Longrightarrow> {0, 1, 2} \<subseteq> set (fds p) \<Longrightarrow>
      harden_fds_case w True p = Exited 0"
proof -
  have closed: "lowest_free (fds p) \<notin> set (fds p')"
    if "\<not> lowest_free (fds p) < 3" "harden_worker_preinput w p0 = (p', Inr u)" for p0 p' u
    using harden_Inr [OF that(2)] that(1) by auto
  then show "harden_fds_case w opens p \<noteq> Exited 3"
    by (auto simp: harden_fds_case_def Let_def split: prod.splits sum.splits)
  assume q: "\<And>x. \<not> failing w x" "parent_pid w = Some q" "q \<noteq> 1" and l: "{0, 1, 2} \<subseteq> set (fds p)"
  have above: "\<not> lowest_free (fds p) < 3" using lowest_free_above [OF l] by simp
  obtain p' where "harden_worker_preinput w (p\<lparr>fds := lowest_free (fds p) # fds p\<rparr>) = (p', Inr ())"
    using harden_quiet [OF q] by blast
  then show "harden_fds_case w True p = Exited 0"
    using closed [OF above] above by (simp add: harden_fds_case_def Let_def)
qed

lemma pdeathsig_outcome:
  shows "pdeathsig_case w reads p \<noteq> Exited 3"
    and "(\<And>x. \<not> failing w x) \<Longrightarrow> parent_pid w = Some q \<Longrightarrow> q \<noteq> 1 \<Longrightarrow> pdeathsig_case w True p = Exited 0"
proof -
  show "pdeathsig_case w reads p \<noteq> Exited 3"
    using harden_Inr [of w p] by (auto simp: pdeathsig_case_def Let_def split: prod.splits sum.splits)
  assume "\<And>x. \<not> failing w x" "parent_pid w = Some q" "q \<noteq> 1"
  then obtain p' where "harden_worker_preinput w p = (p', Inr ())" using harden_quiet by blast
  then show "pdeathsig_case w True p = Exited 0"
    using harden_Inr by (simp add: pdeathsig_case_def)
qed

section \<open>Properties\<close>

text \<open>The case a probe is asked for.\<close>

definition asked :: "string list \<Rightarrow> string" where
  "asked args = (case args of _ # a # _ \<Rightarrow> a | _ \<Rightarrow> [])"

text \<open>A world in which no call is refused but by the jail.\<close>

definition unhindered :: "probe_world \<Rightarrow> bool" where
  "unhindered w \<longleftrightarrow> (\<forall>x. \<not> failing (base w) x) \<and> List.find wx_line (maps_lines (base w)) = None
     \<and> (case parent_pid (base w) of None \<Rightarrow> False | Some q \<Rightarrow> q \<noteq> 1) \<and> null_opens w \<and> pdeathsig_reads w
     \<and> (\<forall>h c. \<exists>v. answers w h c = Inr v)"

lemma probe_jailed:
  assumes "installed p = []" and "asked args \<noteq> ''harden_fds''" and "asked args \<noteq> ''pdeathsig''"
  shows "probe_main nr w p args = ([], Exited 101) \<and> (\<exists>p' e. lock_down_worker nr (base w) p = (p', Inl e))
    \<or> probe_main nr w p args = exec nr (ptr_of w) (jail nr) (answers w) (jailed_case nr (ptr_of w) (args_at w) (asked args)) [] []"
proof (cases "lock_down_worker nr (base w) p")
  case (Pair p' r)
  show ?thesis
  proof (cases r)
    case (Inl e)
    then show ?thesis using Pair assms(2,3) by (auto simp: probe_main_def asked_def Let_def)
  next
    case (Inr u)
    then have "installed p' = jail nr" using lock_down_Inr [of nr "base w" p p' u] Pair assms(1) by simp
    then show ?thesis using Pair Inr assms(2,3) by (auto simp: probe_main_def asked_def Let_def)
  qed
qed

text \<open>C11: The jail passes its own self-test, whatever the system would answer: no case of the probe ever exits with
  3, the status of a containment hole, or prints that it got past the socket. Where the system itself refuses
  nothing, the socket case dies with SIGSYS and every other case exits with 0: the descriptors are closed and the
  death signal armed before any input, opening a file, an executable page, a new user namespace, another process's
  affinity and a signal are denied with the error the probe expects, and plain memory, output and threads
  still work.\<close>

theorem jail_self_test:
  assumes "probe_abi_ok nr" and "installed p = []"
  shows "snd (probe_main nr w p args) \<noteq> Exited 3 \<and> ''REACHED-AFTER-SOCKET'' \<notin> set (fst (probe_main nr w p args))
    \<and> (unhindered w \<and> {0, 1, 2} \<subseteq> set (fds p) \<longrightarrow>
         snd (probe_main nr w p args) = (if asked args = ''socket'' then Sigsys else Exited 0))"
proof -
  consider (fds) "asked args = ''harden_fds''" | (sig) "asked args = ''pdeathsig''"
    | (jailed) "asked args \<noteq> ''harden_fds''" "asked args \<noteq> ''pdeathsig''" by blast
  then show ?thesis
  proof cases
    case fds
    then have "probe_main nr w p args = ([], harden_fds_case (base w) (null_opens w) p)"
      by (simp add: probe_main_def asked_def)
    then show ?thesis
      using fds harden_fds_outcome [of "base w"] by (auto simp: unhindered_def split: option.splits)
  next
    case sig
    then have "probe_main nr w p args = ([], pdeathsig_case (base w) (pdeathsig_reads w) p)"
      by (simp add: probe_main_def asked_def)
    then show ?thesis
      using sig pdeathsig_outcome [of "base w"] by (auto simp: unhindered_def split: option.splits)
  next
    case jailed
    have up: "lock_down_worker nr (base w) p \<noteq> (p', Inl e)" if "unhindered w" for p' e
      using lock_down_ok_iff [OF probe_abi [OF assms(1)] assms(2), of "base w" p' "Inl e"] that
      by (auto simp: unhindered_def)
    then show ?thesis
      using probe_jailed [OF assms(2) jailed, of nr w] contained_jailed [OF assms(1)] reports_cases [OF assms(1)]
      by (auto simp: contained_def unhindered_def)
  qed
qed

text \<open>On x86-64, in a world that would grant everything.\<close>

definition probe_nr :: "string \<Rightarrow> u32" where
  "probe_nr s = (if s = ''openat'' then 257 else if s = ''sched_setaffinity'' then 203 else if s = ''tgkill'' then 234
     else x86_64_nr s)"

lemma probe_abi_ok_x86_64: "probe_abi_ok probe_nr"
proof -
  have "list_all (\<lambda>s. s \<notin> set probe_names) used_names" by code_simp
  then have same: "probe_nr s = x86_64_nr s" if "s \<in> set used_names" for s
    using that by (auto simp: list_all_iff probe_nr_def probe_names_def)
  then have m: "map probe_nr used_names = map x86_64_nr used_names" by simp
  have e: "map x86_64_nr used_names = map word_of_int x86_64_numbers"
    unfolding x86_64_entries [symmetric] by (simp add: x86_64_nr_def)
  have p: "map probe_nr probe_names = [257, 203, 234]" by (simp add: probe_names_def probe_nr_def)
  have "abi_ok probe_nr"
    using abi_ok_x86_64 same by (simp add: abi_ok_def m list_all_iff)
  moreover have "distinct (map probe_nr (used_names @ probe_names))"
  proof -
    have "{257, 203, 234} \<inter> set (map word_of_int x86_64_numbers :: u32 list) = {}"
      by (simp add: x86_64_numbers_def)
    then show ?thesis
      using abi_ok_x86_64 by (simp add: map_append m p e abi_ok_def del: set_map)
  qed
  moreover have "list_all (\<lambda>s. probe_nr s < X32_BIT \<and> probe_nr s \<notin> {428, 429, 430, 431, 432, 433}) probe_names"
    by (simp add: probe_names_def probe_nr_def X32_BIT_def)
  ultimately show ?thesis by (simp add: probe_abi_ok_def)
qed

definition granting_world :: probe_world where
  "granting_world = \<lparr>base = quiet_world, null_opens = True, pdeathsig_reads = True, answers = (\<lambda>_ _. Inr 0),
     ptr_of = (\<lambda>_. 0x7000), args_at = (\<lambda>_. 0x7000)\<rparr>"

theorem jail_self_test_witness:
  "snd (probe_main probe_nr granting_world fresh_worker [''probe'', ''socket'']) = Sigsys
   \<and> snd (probe_main probe_nr granting_world fresh_worker [''probe'', ''thread'']) = Exited 0
   \<and> snd (probe_main probe_nr granting_world fresh_worker [''probe'', ''harden_fds'']) = Exited 0"
proof -
  have "List.find wx_line (maps_lines quiet_world) = None" by code_simp
  then have "unhindered granting_world" by (simp add: unhindered_def granting_world_def quiet_world_def)
  then show ?thesis
    using jail_self_test [OF probe_abi_ok_x86_64, of fresh_worker granting_world "[''probe'', ''socket'']"]
      jail_self_test [OF probe_abi_ok_x86_64, of fresh_worker granting_world "[''probe'', ''thread'']"]
      jail_self_test [OF probe_abi_ok_x86_64, of fresh_worker granting_world "[''probe'', ''harden_fds'']"]
    by (simp add: fresh_worker_def asked_def)
qed

end
