(* ===== verification/Spec2Isabelle.thy ===== *)
theory Spec2Isabelle
  imports EndToEnd Exchange Pipes Protocol Probe
begin

text \<open>
  A verification development for fnprint, a tool that fingerprints the functions of a binary by what they do when
  they are run in an emulator, stores the fingerprints, and matches them across builds.

  The program. \<open>fnprint\<close> is a command line (\<open>cli/src/main.rs\<close>) over a set of crates (\<open>crates/\<close>). A command reads
  a file and hands its bytes to a copy of itself, the worker, which first locks itself into a seccomp jail
  (\<open>fnprint-sandbox\<close>), then loads the ELF file (\<open>fnprint-loader\<close>), runs every function of it in an emulator
  (\<open>fnprint-emu\<close>) that records effects (\<open>fnprint-trace\<close>), turns the traces into a minhash fingerprint
  (\<open>fnprint-sig\<close>) and sends the index back. The parent checks the reply, and stores it in a corpus
  (\<open>fnprint-db\<close>, over sqlite) or matches it (\<open>fnprint-core\<close>): by name, by a one-to-one alignment over behaviour and
  call graph (\<open>align.rs\<close>), against a corpus, or between a vulnerable and a patched corpus.

  The theories, in the order of their imports.

  \<^item> \<open>Prelude\<close>: unsigned 64-bit arithmetic as Rust has it (checked, saturating, wrapping), little endian bytes, sort and
    deduplicate, binary search, hash maps built from lists, results as sums with \<open>bindR\<close>, hexadecimal.
  \<^item> \<open>F64\<close>: \<open>f64\<close> and \<open>f32\<close> as exact rationals with rounding to the format after every operation, infinities and NaN,
    \<open>total_cmp\<close> as a linear order.
  \<^item> \<open>Trace\<close> (\<open>fnprint-trace\<close>): \<open>Effect\<close>, its FNV-1a \<open>token\<close>, \<open>EffectTrace\<close>, the complexity weight. Two effects have the
    same byte encoding only if they are equal.
  \<^item> \<open>Sig\<close> (\<open>fnprint-sig\<close>): shingles, \<open>minhash\<close>, \<open>similarity\<close>, \<open>band_keys\<close>. A slot agrees when a shared shingle is
    minimal (a lemma of the locale \<open>hash_family\<close>, interpreted on the program's permutations); similarity is the exact
    share of equal slots; above 3/4 two prints share a band.
  \<^item> \<open>Funcs\<close>: the indexed function, which every later part works on.
  \<^item> \<open>Loader\<close>, \<open>Plt\<close> (\<open>fnprint-loader\<close>): the segment plan and its caps, the overlap check, \<open>code_at\<close>, function discovery
    from symbols and unwind tables, the import table from relocations and stubs. What is accepted is characterised
    exactly; stub decoding inverts the stubs of a linker.
  \<^item> \<open>Decode\<close> (\<open>fnprint-emu\<close>): instruction kinds for both architectures, branch targets, the linear sweep, the static
    call graph.
  \<^item> \<open>Recorder\<close>, \<open>Emu\<close> (\<open>fnprint-emu\<close>): the state \<open>Rec\<close> the hooks share and one definition per hook; then \<open>ensure_pages\<close>,
    the fresh machine, one run, forced branches, blanket restarts.
  \<^item> \<open>Budget\<close>, \<open>Pages\<close>, \<open>Runs\<close>: every run ends; a prepared machine is as it must be; every trace is well formed and
    bounded. The locale \<open>hook_invariant\<close> of \<open>Runs\<close> states what a property of the shared state must satisfy to hold
    after any run, and is interpreted on the hooks themselves.
  \<^item> \<open>Store\<close> (\<open>fnprint-db\<close>): rows and cells, insertion as statements that may fail, rollback, the schema check, the
    bounded read of an untrusted image, the band table, \<open>MemCorpus\<close>. The locale \<open>corpus\<close> is the interface the pipelines
    use; it is interpreted on the database and on the index rebuilt in memory.
  \<^item> \<open>Index\<close> (\<open>fnprint-core\<close>): loading, emulating, sweeping and fingerprinting a whole binary, and one shard of it.
  \<^item> \<open>Align\<close>, \<open>Matching\<close> (\<open>fnprint-core\<close>): candidates by bands, graph consistency, greedy assignment, the rounds; match,
    query, triage, eval.
  \<^item> \<open>Sandbox\<close> (\<open>fnprint-sandbox\<close>): the filters, the limits, the order in which the jail goes up, the kernel's evaluation
    of stacked filters. \<open>Probe\<close> (its test program \<open>bin/jailbreak_probe.rs\<close>): each case a tree of system calls, run against
    the filters with any answers of the system; the jail passes.
  \<^item> \<open>Text\<close>, \<open>Cli\<close>, \<open>Report\<close> (\<open>cli/src/main.rs\<close>): printing and parsing, escaping; the worker and the parent; the commands
    with their tables, JSON values and rizin scripts, and \<open>main\<close>.
  \<^item> \<open>Exchange\<close> (\<open>cli/src/main.rs\<close>): the parent around one worker as a step relation, interleaved with the worker, the
    reader thread, the clock and descendants that hold a pipe; what it ends with is the \<open>exchange\<close> of \<open>Cli\<close>.
  \<^item> \<open>Pipes\<close> (\<open>run_worker\<close>, \<open>worker_main\<close> and \<open>emit\<close> of \<open>cli/src/main.rs\<close>): the three pipes between the parent and a worker,
    byte by byte, with the writer, reader and drain threads against any worker program under any schedule; and the
    simulation that gives the exchange of a worker that runs the code.
  \<^item> \<open>Protocol\<close>: the type discipline of the replies, which the parent's checks enforce and an honest worker keeps.
  \<^item> \<open>EndToEnd\<close>: commands that follow one another.

  How the model reads. A struct is a record and an enum a datatype with the source's names (record fields carry a
  prefix where two structs share a field name); integers keep their width as words, except that lengths, indices
  and counters of a \<open>usize\<close> that stay far below its bound are naturals; a string is the list of its UTF-8 bytes; a
  hash map or set is a map or a list without duplicates, and where its order of iteration could matter the order is
  an argument (\<open>enum\<close>) of the definition. A \<open>Result\<close> is a sum. An arithmetic overflow, which aborts the release build,
  and a run that does not end are \<open>None\<close>.

  Bounds and termination. No loop takes fuel. Loops of the source are structural recursions or functions with a
  measure; the one that may run forever, the emulator's run, is \<open>emu_start\<close>, a partial function whose \<open>None\<close> is a run
  that does not end. \<open>Budget\<close> shows that the hooks' counters (the instruction cap, the cap on memory callbacks, the cap
  on mapped pages) bound the hook calls of a run, so \<open>emu_start\<close> is defined on any engine that ends within a fixed
  number of calls after a hook asks it to (\<open>stops_within\<close>), and with it a run, an exploration, an index and a worker. No
  property says only what holds if a run returns without one that says it does.

  Parameters. Code that is not in the repository is an argument: the ELF parser (goblin) and the unwind parser
  (gimli), the disassembler (capstone), the engine (unicorn), sqlite (which statements fail, which row ids it gives,
  what it finds in an image), the system call numbers of libc, what a spawned process and a write to standard output
  do, the encoding of a reply (postcard), the text of JSON values (serde_json) and of completion scripts. The kernel's
  evaluation of seccomp filters, resource limits and \<open>no_new_privs\<close> is the documented one and part of \<open>Sandbox\<close>.

  What the properties show. The worker answers only from inside the jail and never hangs; the parent believes no reply
  that is malformed, cannot be wedged by a worker on a pipe and never signals a reaped process, rejects nothing that a worker running the
  code sends, and receives that worker's reply whole under every schedule; a jailed, sharded index is
  the index one process would compute. The jail passes its own self-test whatever the system would answer. A corpus gives back what
  was written, all of a batch or none of it, and reading an untrusted one is bounded. Exploring a function ends and its
  trace is bounded and says truly whether it is complete. Loading accepts exactly the well formed files. Matching is
  one-to-one and stable, is the same over a database and in memory, and the band filter loses nothing close. Nothing
  a file holds can steer the terminal or a rizin script.

  Not modelled. The argument parser (clap) and the completion generator, third-party code the source only calls. The
  deadline and the kills are in \<open>Exchange\<close> and the bytes in \<open>Pipes\<close>, not in one machine: \<open>Exchange\<close> takes the stream a
  reader delivers as given. The text of messages on the error output, except the tail of a dead worker's. The derived serialisation and debug printing of the data. Parallelism inside a
  worker: the pool keeps the order of its results and the emulator runs under one lock. Tests, benchmarks
  and fuzz targets. The signs of zero and of NaN.
\<close>

end
